(* ===== verification/CE_Prelude.thy ===== *)
theory CE_Prelude
  imports Main "HOL-Library.Word" "HOL-Library.While_Combinator"
begin

text \<open>
  Shared vocabulary of the development: the machine types of the content-extension
  compiler, the named collections the component theories fill, and the generic
  lemmas on lists and loops that several components use.
\<close>

unbundle bit_operations_syntax

type_synonym byte = "8 word"
type_synonym uint16 = "16 word"
type_synonym uint32 = "32 word"
type_synonym uint64 = "64 word"

text \<open>A character of the matching alphabet. C++ promotes \<^verbatim>\<open>char\<close> to \<^verbatim>\<open>int\<close> in
  arithmetic; the model keeps the promoted value.\<close>

type_synonym charval = int

section \<open>ASCII characters\<close>

text \<open>\<^verbatim>\<open>wtf/ASCIICType.h\<close>: the case of a letter is its bit 0x20, which is set or cleared.\<close>

definition isASCIIAlpha :: "nat \<Rightarrow> bool" where
  "isASCIIAlpha c \<longleftrightarrow> (97 \<le> c \<and> c \<le> 122) \<or> (65 \<le> c \<and> c \<le> 90)"

definition toASCIIUpper :: "nat \<Rightarrow> nat" where
  "toASCIIUpper c = (if 97 \<le> c \<and> c \<le> 122 then c - 32 else c)"

definition toASCIILower :: "nat \<Rightarrow> nat" where
  "toASCIILower c = (if 65 \<le> c \<and> c \<le> 90 then c + 32 else c)"

definition toASCIILowerChar :: "charval \<Rightarrow> charval" where
  "toASCIILowerChar c = (if 65 \<le> c \<and> c \<le> 90 then c + 32 else c)"

section \<open>Loops\<close>

text \<open>
  The total-correctness rule for \<open>while_option\<close> in the form the loops here use: an
  invariant indexed by a number, which every run of the body decreases.
\<close>

lemma while_option_indexed:
  fixes n :: nat
  assumes "I n s"
    and keep: "\<And>n s. I n s \<Longrightarrow> b s \<Longrightarrow> \<exists>n' < n. I n' (c s)"
  shows "\<exists>t m. while_option b c s = Some t \<and> I m t \<and> \<not> b t"
  using assms(1)
proof (induction n arbitrary: s rule: less_induct)
  case (less n)
  show ?case
  proof (cases "b s")
    case True
    with keep less.prems obtain n' where "n' < n" "I n' (c s)" by blast
    with less.IH True show ?thesis by (subst while_option_unfold) auto
  next
    case False
    with less.prems show ?thesis by (subst while_option_unfold) auto
  qed
qed

end
