(* ===== verification/RangeList.thy ===== *)
theory RangeList
  imports CE_Prelude
begin

text \<open>
  \<^verbatim>\<open>MutableRange.h\<close> and \<^verbatim>\<open>MutableRangeList.h\<close>: a list of disjoint character ranges, kept
  sorted by index links inside a vector, and the operation \<^verbatim>\<open>extend\<close> that overlays another
  sorted sequence of ranges on it, splitting ranges where they overlap.
\<close>

section \<open>Data\<close>

record 'd MutableRange =
  mr_data :: 'd
  nextRangeIndex :: nat
  mr_first :: charval
  mr_last :: charval

text \<open>The list is its vector \<^verbatim>\<open>m_ranges\<close>: the first range is the element 0, and the link 0
  marks the last one.\<close>

type_synonym 'd MutableRangeList = "'d MutableRange list"

text \<open>A range iterator over another list is what remains to be visited of it: triples of
  \<^verbatim>\<open>first()\<close>, \<^verbatim>\<open>last()\<close> and \<^verbatim>\<open>data()\<close>; the end iterator is the empty list.\<close>

type_synonym 'e rangeSeq = "(charval \<times> charval \<times> 'e) list"

text \<open>A data converter is its pair of member functions, together with the copy constructor of
  the data type, which \<^verbatim>\<open>extend\<close> calls where it splits a range. (The copy of a hash set has the
  same elements but not the same table.)\<close>

record ('d, 'e) DataConverter =
  dc_convert :: "'e \<Rightarrow> 'd"
  dc_extend :: "'d \<Rightarrow> 'e \<Rightarrow> 'd"
  dc_copy :: "'d \<Rightarrow> 'd"

section \<open>Iteration\<close>

record ConstIterator =
  it_index :: nat
  it_atEnd :: bool

definition mrl_begin :: "'d MutableRangeList \<Rightarrow> ConstIterator" where
  "mrl_begin m_ranges = \<lparr>it_index = 0, it_atEnd = (m_ranges = [])\<rparr>"

definition mrl_increment :: "'d MutableRangeList \<Rightarrow> ConstIterator \<Rightarrow> ConstIterator" where
  "mrl_increment m_ranges it =
     (let index = nextRangeIndex (m_ranges ! it_index it)
      in \<lparr>it_index = index, it_atEnd = (index = 0)\<rparr>)"

text \<open>A range-based \<^verbatim>\<open>for\<close> over the list, collecting what the iterator shows. One unit of
  fuel per step; \<open>mrl_elements\<close> gives it the length of the vector, which is enough for a
  well-formed list (lemma \<open>mrl_elements_path\<close>).\<close>

fun mrl_collect :: "nat \<Rightarrow> 'd MutableRangeList \<Rightarrow> ConstIterator \<Rightarrow> 'd rangeSeq" where
  "mrl_collect 0 m_ranges it = []"
| "mrl_collect (Suc fuel) m_ranges it =
     (if it_atEnd it then []
      else (let r = m_ranges ! it_index it
            in (mr_first r, mr_last r, mr_data r)
                 # mrl_collect fuel m_ranges (mrl_increment m_ranges it)))"

definition mrl_elements :: "'d MutableRangeList \<Rightarrow> 'd rangeSeq" where
  "mrl_elements m_ranges = mrl_collect (length m_ranges) m_ranges (mrl_begin m_ranges)"

section \<open>Operations\<close>

definition appendRange ::
  "'d MutableRangeList \<Rightarrow> nat \<Rightarrow> charval \<Rightarrow> charval \<Rightarrow> 'd \<Rightarrow> 'd MutableRangeList \<times> nat" where
  "appendRange m_ranges lastRangeIndex f l d =
     (let newRangeIndex = length m_ranges;
          m_ranges' = m_ranges @ [\<lparr>mr_data = d, nextRangeIndex = 0, mr_first = f, mr_last = l\<rparr>]
      in if newRangeIndex = 0 then (m_ranges', 0)
         else (m_ranges'[lastRangeIndex :=
                  (m_ranges' ! lastRangeIndex)\<lparr>nextRangeIndex := newRangeIndex\<rparr>],
               newRangeIndex))"

text \<open>\<^verbatim>\<open>insertBetween\<close> takes both indices by reference: it returns their new values.\<close>

definition insertBetween ::
  "'d MutableRangeList \<Rightarrow> nat \<Rightarrow> nat \<Rightarrow> charval \<Rightarrow> charval \<Rightarrow> 'd
     \<Rightarrow> 'd MutableRangeList \<times> nat \<times> nat" where
  "insertBetween m_ranges leftRangeIndex rightRangeIndex f l d =
     (if rightRangeIndex = 0 then
        (let movedRangeIndex = length m_ranges;
             m_ranges' = m_ranges @ [m_ranges ! 0]
         in (m_ranges'[0 := \<lparr>mr_data = d, nextRangeIndex = movedRangeIndex,
                              mr_first = f, mr_last = l\<rparr>],
             0, movedRangeIndex))
      else
        (let newRangeIndex = length m_ranges;
             m_ranges' = m_ranges @ [\<lparr>mr_data = d, nextRangeIndex = rightRangeIndex,
                                      mr_first = f, mr_last = l\<rparr>]
         in (m_ranges'[leftRangeIndex :=
                (m_ranges' ! leftRangeIndex)\<lparr>nextRangeIndex := newRangeIndex\<rparr>],
             newRangeIndex, rightRangeIndex)))"

fun initializeFrom_loop ::
  "('d, 'e) DataConverter \<Rightarrow> nat \<Rightarrow> 'e rangeSeq \<Rightarrow> 'd MutableRangeList \<Rightarrow> 'd MutableRangeList" where
  "initializeFrom_loop conv loopCounter [] m_ranges = m_ranges"
| "initializeFrom_loop conv loopCounter ((f, l, e) # other) m_ranges =
     initializeFrom_loop conv (loopCounter + 1) other
       (m_ranges @ [\<lparr>mr_data = dc_convert conv e, nextRangeIndex = loopCounter + 1,
                     mr_first = f, mr_last = l\<rparr>])"

definition initializeFrom :: "('d, 'e) DataConverter \<Rightarrow> 'e rangeSeq \<Rightarrow> 'd MutableRangeList" where
  "initializeFrom conv other =
     (let m_ranges = initializeFrom_loop conv 0 other []
      in if m_ranges = [] then []
         else m_ranges[length m_ranges - 1 := (last m_ranges)\<lparr>nextRangeIndex := 0\<rparr>])"

text \<open>The locals of \<^verbatim>\<open>extend\<close>.\<close>

record ('d, 'e) extend_state =
  es_ranges :: "'d MutableRangeList"
  reachedSelfEnd :: bool
  lastSelfRangeIndex :: nat
  selfRangeIndex :: nat
  otherRangeOffset :: charval
  otherIterator :: "'e rangeSeq"

text \<open>\<open>activeSelfRange->last\<close> was passed: go to the next range of the list.\<close>

definition advanceSelf :: "('d, 'e) extend_state \<Rightarrow> ('d, 'e) extend_state" where
  "advanceSelf s =
     (let next = nextRangeIndex (es_ranges s ! selfRangeIndex s)
      in s\<lparr>lastSelfRangeIndex := selfRangeIndex s, selfRangeIndex := next,
           reachedSelfEnd := (next = 0)\<rparr>)"

definition advanceOther :: "('d, 'e) extend_state \<Rightarrow> ('d, 'e) extend_state" where
  "advanceOther s = s\<lparr>otherIterator := tl (otherIterator s), otherRangeOffset := 0\<rparr>"

definition es_insertBetween ::
  "charval \<Rightarrow> charval \<Rightarrow> 'd \<Rightarrow> ('d, 'e) extend_state \<Rightarrow> ('d, 'e) extend_state" where
  "es_insertBetween f l d s =
     (case insertBetween (es_ranges s) (lastSelfRangeIndex s) (selfRangeIndex s) f l d of
        (m_ranges, left, right) \<Rightarrow>
          s\<lparr>es_ranges := m_ranges, lastSelfRangeIndex := left, selfRangeIndex := right\<rparr>)"

definition es_updateSelf ::
  "('d MutableRange \<Rightarrow> 'd MutableRange) \<Rightarrow> ('d, 'e) extend_state \<Rightarrow> ('d, 'e) extend_state" where
  "es_updateSelf g s =
     s\<lparr>es_ranges := (es_ranges s)[selfRangeIndex s := g (es_ranges s ! selfRangeIndex s)]\<rparr>"

text \<open>Where the two ranges collide: first the part on the left of the collision, which
  becomes a range of its own.\<close>

definition extend_left :: "('d, 'e) DataConverter \<Rightarrow> ('d, 'e) extend_state \<Rightarrow> ('d, 'e) extend_state" where
  "extend_left conv s =
     (case hd (otherIterator s) of (oFirst, oLast, oData) \<Rightarrow>
        let activeSelfRange = es_ranges s ! selfRangeIndex s;
            start = oFirst + otherRangeOffset s
        in if mr_first activeSelfRange < start then
             es_insertBetween (mr_first activeSelfRange) (start - 1)
               (dc_copy conv (mr_data activeSelfRange))
               (es_updateSelf (\<lambda>r. r\<lparr>mr_first := start\<rparr>) s)
           else if start < mr_first activeSelfRange then
             (let s' = es_insertBetween start (mr_first activeSelfRange - 1)
                         (dc_convert conv oData) s
              in s'\<lparr>otherRangeOffset := mr_first (es_ranges s' ! selfRangeIndex s') - oFirst\<rparr>)
           else s)"

text \<open>Then, both ranges start at the same point: the part that intersects gets the merged
  data.\<close>

definition extend_intersection ::
  "('d, 'e) DataConverter \<Rightarrow> ('d, 'e) extend_state \<Rightarrow> ('d, 'e) extend_state" where
  "extend_intersection conv s =
     (case hd (otherIterator s) of (oFirst, oLast, oData) \<Rightarrow>
        let activeSelfRange = es_ranges s ! selfRangeIndex s;
            merged = dc_extend conv (mr_data activeSelfRange) oData
        in if mr_last activeSelfRange = oLast then
             advanceOther (advanceSelf (es_updateSelf (\<lambda>r. r\<lparr>mr_data := merged\<rparr>) s))
           else if mr_last activeSelfRange > oLast then
             (let combinedData = dc_extend conv (dc_copy conv (mr_data activeSelfRange)) oData
              in advanceOther
                   (es_insertBetween (mr_first activeSelfRange) oLast combinedData
                     (es_updateSelf (\<lambda>r. r\<lparr>mr_first := oLast + 1\<rparr>) s)))
           else
             (advanceSelf (es_updateSelf (\<lambda>r. r\<lparr>mr_data := merged\<rparr>) s))
               \<lparr>otherRangeOffset := mr_last activeSelfRange - oFirst + 1\<rparr>)"

text \<open>The body of the \<^verbatim>\<open>do ... while\<close>.\<close>

definition extend_step :: "('d, 'e) DataConverter \<Rightarrow> ('d, 'e) extend_state \<Rightarrow> ('d, 'e) extend_state" where
  "extend_step conv s =
     (case hd (otherIterator s) of (oFirst, oLast, oData) \<Rightarrow>
        let activeSelfRange = es_ranges s ! selfRangeIndex s
        in if mr_last activeSelfRange < oFirst + otherRangeOffset s then advanceSelf s
           else if oLast < mr_first activeSelfRange then
             advanceOther
               (es_insertBetween (oFirst + otherRangeOffset s) oLast (dc_convert conv oData) s)
           else extend_intersection conv (extend_left conv s))"

definition extend_continues :: "('d, 'e) extend_state \<Rightarrow> bool" where
  "extend_continues s \<longleftrightarrow> \<not> reachedSelfEnd s \<and> otherIterator s \<noteq> []"

text \<open>The trailing loop: what is left of the other sequence is appended. \<^verbatim>\<open>appendRange\<close> takes the
  converted data by constant reference and copies it.\<close>

fun extend_tail ::
  "('d, 'e) DataConverter \<Rightarrow> 'd MutableRangeList \<Rightarrow> nat \<Rightarrow> charval \<Rightarrow> 'e rangeSeq \<Rightarrow> 'd MutableRangeList" where
  "extend_tail conv m_ranges lastIndex offset [] = m_ranges"
| "extend_tail conv m_ranges lastIndex offset ((f, l, e) # other) =
     (case appendRange m_ranges lastIndex (f + offset) l (dc_copy conv (dc_convert conv e)) of
        (m_ranges', lastIndex') \<Rightarrow> extend_tail conv m_ranges' lastIndex' 0 other)"

text \<open>\<^verbatim>\<open>extend\<close>; \<open>None\<close> stands for a loop that does not end.\<close>

definition mrl_extend ::
  "('d, 'e) DataConverter \<Rightarrow> 'd MutableRangeList \<Rightarrow> 'e rangeSeq \<Rightarrow> 'd MutableRangeList option" where
  "mrl_extend conv m_ranges other =
     (if other = [] then Some m_ranges
      else if m_ranges = [] then Some (initializeFrom conv other)
      else
        (case while_option extend_continues (extend_step conv)
                \<lparr>es_ranges = m_ranges, reachedSelfEnd = False, lastSelfRangeIndex = 0,
                 selfRangeIndex = 0, otherRangeOffset = 0, otherIterator = other\<rparr> of
           None \<Rightarrow> None
         | Some s \<Rightarrow> Some (extend_tail conv (es_ranges s) (lastSelfRangeIndex s)
                             (otherRangeOffset s) (otherIterator s))))"

section \<open>Well-formed lists\<close>

text \<open>\<open>chain R is t\<close>: the links lead through the indices \<open>is\<close> and then to \<open>t\<close>. A list is
  well formed when its links lead from the element 0 through distinct indices to the end
  mark.\<close>

abbreviation rng :: "'d MutableRangeList \<Rightarrow> nat \<Rightarrow> charval \<times> charval \<times> 'd" where
  "rng m_ranges i \<equiv> (mr_first (m_ranges ! i), mr_last (m_ranges ! i), mr_data (m_ranges ! i))"

fun chain :: "'d MutableRangeList \<Rightarrow> nat list \<Rightarrow> nat \<Rightarrow> bool" where
  "chain R [] t = True"
| "chain R (i # is) t =
     (i < length R \<and> nextRangeIndex (R ! i) = hd (is @ [t]) \<and> chain R is t)"

definition mrl_path :: "'d MutableRangeList \<Rightarrow> nat list \<Rightarrow> bool" where
  "mrl_path R is \<longleftrightarrow> is \<noteq> [] \<and> hd is = 0 \<and> distinct is \<and> chain R is 0"

lemma chain_bound: "chain R is t \<Longrightarrow> i \<in> set is \<Longrightarrow> i < length R"
  by (induction "is") auto

lemma chain_append: "chain R (xs @ ys) t \<longleftrightarrow> chain R xs (hd (ys @ [t])) \<and> chain R ys t"
  by (induction xs) (auto simp: hd_append)

lemma chain_cong:
  assumes "chain R is t"
    and "\<And>i. i \<in> set is \<Longrightarrow> i < length R \<Longrightarrow>
             i < length R' \<and> nextRangeIndex (R' ! i) = nextRangeIndex (R ! i)"
  shows "chain R' is t"
  using assms by (induction "is") auto

text \<open>A cursor into the list: the indices before it, the index it is at, those after it.\<close>

definition cursor ::
  "'d MutableRangeList \<Rightarrow> nat list \<Rightarrow> nat \<Rightarrow> nat \<Rightarrow> nat list \<Rightarrow> bool" where
  "cursor R pre p s post \<longleftrightarrow> mrl_path R (pre @ s # post) \<and> (pre \<noteq> [] \<longrightarrow> p = last pre)"

lemma cursor_bounds:
  assumes "cursor R pre p s post"
  shows "s < length R" "\<And>i. i \<in> set pre \<Longrightarrow> i < length R" "\<And>i. i \<in> set post \<Longrightarrow> i < length R"
    "s \<notin> set pre" "s \<notin> set post" "set pre \<inter> set post = {}" "distinct pre" "distinct post"
  using assms chain_bound [of R "pre @ s # post" 0]
  by (auto simp: cursor_def mrl_path_def)

lemma cursor_zero: "cursor R pre p s post \<Longrightarrow> s = 0 \<longleftrightarrow> pre = []"
  by (cases pre) (auto simp: cursor_def mrl_path_def)

lemma nth_update_outside: "i \<in> A \<Longrightarrow> s \<notin> A \<Longrightarrow> R[s := r] ! i = R ! i"
  by (metis nth_list_update_neq)

lemma cursor_update:
  assumes "cursor R pre p s post" and "\<And>r. nextRangeIndex (g r) = nextRangeIndex r"
  shows "cursor (R[s := g (R ! s)]) pre p s post"
proof -
  have "chain (R[s := g (R ! s)]) (pre @ s # post) 0"
  proof (rule chain_cong)
    show "chain R (pre @ s # post) 0" using assms(1) by (simp add: cursor_def mrl_path_def)
    show "i < length (R[s := g (R ! s)]) \<and>
            nextRangeIndex (R[s := g (R ! s)] ! i) = nextRangeIndex (R ! i)"
      if "i < length R" for i
      using that assms(2) by (cases "i = s") auto
  qed
  with assms(1) show ?thesis by (simp add: cursor_def mrl_path_def)
qed

lemma map_rng_update:
  "i \<notin> set is \<Longrightarrow> map (rng (R[i := r])) is = map (rng R) is"
  by (simp add: nth_update_outside)

lemma cursor_insertBetween:
  assumes cur: "cursor R pre p s post"
    and ins: "insertBetween R p s f l d = (R', p', s')"
  shows "\<exists>pre'. cursor R' pre' p' s' post \<and> pre' \<noteq> [] \<and>
           map (rng R') pre' = map (rng R) pre @ [(f, l, d)] \<and>
           map (rng R') (s' # post) = map (rng R) (s # post)"
proof (cases "s = 0")
  case True
  with cur have pre: "pre = []" using cursor_zero by blast
  let ?n = "length R"
  have R': "R' = (R @ [R ! 0])[0 := \<lparr>mr_data = d, nextRangeIndex = ?n, mr_first = f, mr_last = l\<rparr>]"
    and p': "p' = 0" and s': "s' = ?n"
    using ins True by (auto simp: insertBetween_def Let_def)
  note b = cursor_bounds [OF cur]
  have same: "R' ! i = R ! i" if "i \<in> set post" for i
    using that b True by (auto simp: R' nth_list_update nth_append)
  have n: "R' ! ?n = R ! 0"
    using b True by (auto simp: R' nth_list_update)
  have "chain R post 0" "nextRangeIndex (R ! 0) = hd (post @ [0])"
    using cur pre True by (auto simp: cursor_def mrl_path_def)
  moreover have "chain R' post 0"
    by (rule chain_cong [of R]) (use calculation same b in \<open>auto simp: R' intro: less_SucI\<close>)
  ultimately have "chain R' (0 # ?n # post) 0"
    using n b True by (auto simp: R' nth_list_update)
  moreover have "distinct (0 # ?n # post)"
    using b True by auto
  ultimately have "cursor R' [0] p' s' post"
    using s' p' by (simp add: cursor_def mrl_path_def)
  moreover have "rng R' 0 = (f, l, d)" by (simp add: R')
  ultimately show ?thesis
    using n same pre True s' by (intro exI [of _ "[0]"]) auto
next
  case False
  let ?n = "length R"
  let ?new = "\<lparr>mr_data = d, nextRangeIndex = s, mr_first = f, mr_last = l\<rparr>"
  have "pre \<noteq> []" using False cur by (simp add: cursor_zero)
  then obtain q where pre: "pre = q @ [p]"
    using cur by (metis append_butlast_last_id cursor_def)
  note b = cursor_bounds [OF cur]
  have pR: "p < length R" using b pre by auto
  have R': "R' = (R @ [?new])[p := (R ! p)\<lparr>nextRangeIndex := ?n\<rparr>]"
    and p': "p' = ?n" and s': "s' = s"
    using ins False pR by (auto simp: insertBetween_def Let_def nth_append)
  have len: "length R' = Suc ?n" by (simp add: R')
  have same: "R' ! i = R ! i" if "i \<noteq> p" "i < ?n" for i
    using that by (auto simp: R' nth_list_update nth_append)
  have new: "R' ! ?n = ?new" using pR by (auto simp: R' nth_list_update)
  have at_p: "R' ! p = (R ! p)\<lparr>nextRangeIndex := ?n\<rparr>" using pR by (auto simp: R')
  have ch: "chain R q p" "chain R (s # post) 0"
    using cur pre by (auto simp: cursor_def mrl_path_def chain_append)
  have kept: "R' ! i = R ! i" "i < length R'" if "i \<in> set (q @ s # post)" for i
  proof -
    from that b pre have "i \<noteq> p" "i < ?n" by auto
    then show "R' ! i = R ! i" "i < length R'" using same len by auto
  qed
  have "chain R' q p"
    by (rule chain_cong [OF ch(1)]) (use kept in auto)
  moreover have "chain R' (s # post) 0"
    by (rule chain_cong [OF ch(2)]) (use kept in auto)
  ultimately have "chain R' (q @ p # ?n # s # post) 0"
    using at_p new pR len by (simp add: chain_append)
  moreover have "distinct (q @ p # ?n # s # post)"
    using b pre by auto
  moreover have "hd (q @ p # ?n # s # post) = 0"
    using cur pre by (cases q) (auto simp: cursor_def mrl_path_def)
  ultimately have "cursor R' (pre @ [?n]) p' s' post"
    using s' p' pre by (simp add: cursor_def mrl_path_def)
  moreover have "map (rng R') pre = map (rng R) pre" "map (rng R') (s # post) = map (rng R) (s # post)"
    using pre kept at_p by auto
  ultimately show ?thesis
    using new s' by (intro exI [of _ "pre @ [?n]"]) auto
qed

section \<open>The abstract overlay\<close>

text \<open>What \<^verbatim>\<open>extend\<close> computes on plain sequences of ranges.\<close>

fun overlay :: "('d, 'e) DataConverter \<Rightarrow> 'd rangeSeq \<Rightarrow> 'e rangeSeq \<Rightarrow> 'd rangeSeq" where
  "overlay conv Q [] = Q"
| "overlay conv [] ((f, l, e) # S) = (f, l, dc_copy conv (dc_convert conv e)) # overlay conv [] S"
| "overlay conv ((a, b, d) # Q) ((f, l, e) # S) =
     (if b < f then (a, b, d) # overlay conv Q ((f, l, e) # S)
      else if l < a then (f, l, dc_convert conv e) # overlay conv ((a, b, d) # Q) S
      else (if a < f then [(a, f - 1, dc_copy conv d)]
            else if f < a then [(f, a - 1, dc_convert conv e)] else [])
         @ (if b = l then (max a f, b, dc_extend conv d e) # overlay conv Q S
            else if l < b then
              (max a f, l, dc_extend conv (dc_copy conv d) e) # overlay conv ((l + 1, b, d) # Q) S
            else (max a f, b, dc_extend conv d e) # overlay conv Q ((b + 1, l, e) # S)))"

fun shiftFirst :: "charval \<Rightarrow> 'e rangeSeq \<Rightarrow> 'e rangeSeq" where
  "shiftFirst off [] = []"
| "shiftFirst off ((f, l, e) # S) = (f + off, l, e) # S"

lemma shiftFirst_0 [simp]: "shiftFirst 0 S = S"
  by (cases S) auto

text \<open>The loop invariant: what was passed, followed by the overlay of what remains, is the
  overlay of the whole.\<close>

definition extend_inv ::
  "('d, 'e) DataConverter \<Rightarrow> 'd rangeSeq \<Rightarrow> nat \<Rightarrow> ('d, 'e) extend_state \<Rightarrow> bool" where
  "extend_inv conv goal n s \<longleftrightarrow>
     (if reachedSelfEnd s then
        \<exists>pre. n = length (otherIterator s) \<and> mrl_path (es_ranges s) pre \<and> lastSelfRangeIndex s = last pre \<and>
          map (rng (es_ranges s)) pre
            @ overlay conv [] (shiftFirst (otherRangeOffset s) (otherIterator s)) = goal
      else
        \<exists>pre post. n = length (otherIterator s) + Suc (length post) \<and>
          cursor (es_ranges s) pre (lastSelfRangeIndex s) (selfRangeIndex s) post \<and>
          map (rng (es_ranges s)) pre
            @ overlay conv (map (rng (es_ranges s)) (selfRangeIndex s # post))
                (shiftFirst (otherRangeOffset s) (otherIterator s)) = goal)"

text \<open>The state at a cursor, with the abstract sequences spelled out.\<close>

definition at_cursor ::
  "('d, 'e) extend_state \<Rightarrow> nat list \<Rightarrow> nat list \<Rightarrow> 'd rangeSeq \<Rightarrow> 'd rangeSeq \<Rightarrow> bool" where
  "at_cursor s pre post P Q \<longleftrightarrow>
     cursor (es_ranges s) pre (lastSelfRangeIndex s) (selfRangeIndex s) post \<and>
     P = map (rng (es_ranges s)) pre \<and> Q = map (rng (es_ranges s)) (selfRangeIndex s # post)"

lemma at_cursor_insert:
  assumes "at_cursor s pre post P Q"
  shows "\<exists>pre'. at_cursor (es_insertBetween f l d s) pre' post (P @ [(f, l, d)]) Q \<and> pre' \<noteq> []"
proof -
  obtain R' p' s' where ins:
    "insertBetween (es_ranges s) (lastSelfRangeIndex s) (selfRangeIndex s) f l d = (R', p', s')"
    by (cases "insertBetween (es_ranges s) (lastSelfRangeIndex s) (selfRangeIndex s) f l d") auto
  have cur: "cursor (es_ranges s) pre (lastSelfRangeIndex s) (selfRangeIndex s) post"
    and P: "P = map (rng (es_ranges s)) pre"
    and Q: "Q = map (rng (es_ranges s)) (selfRangeIndex s # post)"
    using assms by (simp_all add: at_cursor_def)
  obtain pre' where "cursor R' pre' p' s' post" "pre' \<noteq> []"
    "map (rng R') pre' = P @ [(f, l, d)]" "map (rng R') (s' # post) = Q"
    using cursor_insertBetween [OF cur ins] unfolding P Q by blast
  then show ?thesis
    using ins by (intro exI [of _ pre']) (simp add: at_cursor_def es_insertBetween_def)
qed

lemma at_cursor_update:
  assumes "at_cursor s pre post P (r # Q)"
    and "\<And>r. nextRangeIndex (g r) = nextRangeIndex r"
  shows "at_cursor (es_updateSelf g s) pre post P
    ((let r = g (es_ranges s ! selfRangeIndex s) in (mr_first r, mr_last r, mr_data r)) # Q)"
  using assms cursor_update [of "es_ranges s" pre "lastSelfRangeIndex s" "selfRangeIndex s" post g]
    cursor_bounds [of "es_ranges s" pre "lastSelfRangeIndex s" "selfRangeIndex s" post]
  by (auto simp: at_cursor_def es_updateSelf_def Let_def map_rng_update nth_update_outside)

lemma at_cursor_advance:
  assumes "at_cursor s pre post P (r # Q)"
  shows "if post = [] then
           mrl_path (es_ranges (advanceSelf s)) (pre @ [selfRangeIndex s]) \<and>
           reachedSelfEnd (advanceSelf s) \<and> lastSelfRangeIndex (advanceSelf s) = selfRangeIndex s \<and>
           map (rng (es_ranges (advanceSelf s))) (pre @ [selfRangeIndex s]) = P @ [r]
         else at_cursor (advanceSelf s) (pre @ [selfRangeIndex s]) (tl post) (P @ [r]) Q \<and>
           \<not> reachedSelfEnd (advanceSelf s)"
proof (cases post)
  case Nil
  with assms show ?thesis
    by (auto simp: at_cursor_def cursor_def advanceSelf_def Let_def mrl_path_def chain_append)
next
  case (Cons j post')
  have "j \<noteq> 0"
    using assms Cons by (cases pre) (auto simp: at_cursor_def cursor_def mrl_path_def)
  with assms Cons show ?thesis
    by (auto simp: at_cursor_def cursor_def advanceSelf_def Let_def mrl_path_def chain_append)
qed

lemma at_cursor_frame [simp]:
  "at_cursor (s\<lparr>otherRangeOffset := off\<rparr>) pre post P Q = at_cursor s pre post P Q"
  "at_cursor (s\<lparr>otherIterator := S\<rparr>) pre post P Q = at_cursor s pre post P Q"
  "at_cursor (advanceOther s) pre post P Q = at_cursor s pre post P Q"
  by (simp_all add: at_cursor_def advanceOther_def)

lemma extend_frame [simp]:
  "otherIterator (es_insertBetween f l d s) = otherIterator s"
  "otherRangeOffset (es_insertBetween f l d s) = otherRangeOffset s"
  "reachedSelfEnd (es_insertBetween f l d s) = reachedSelfEnd s"
  "otherIterator (es_updateSelf g s) = otherIterator s"
  "otherRangeOffset (es_updateSelf g s) = otherRangeOffset s"
  "reachedSelfEnd (es_updateSelf g s) = reachedSelfEnd s"
  "otherIterator (advanceSelf s) = otherIterator s"
  "otherRangeOffset (advanceSelf s) = otherRangeOffset s"
  "otherIterator (advanceOther s) = tl (otherIterator s)"
  "otherRangeOffset (advanceOther s) = 0"
  "reachedSelfEnd (advanceOther s) = reachedSelfEnd s"
  by (simp_all add: es_insertBetween_def es_updateSelf_def advanceSelf_def advanceOther_def Let_def
      split: prod.split)

lemma advance_commute:
  "advanceOther (advanceSelf s) = advanceSelf (advanceOther s)"
  "(advanceSelf s)\<lparr>otherRangeOffset := off\<rparr> = advanceSelf (s\<lparr>otherRangeOffset := off\<rparr>)"
  by (simp_all add: advanceSelf_def advanceOther_def Let_def)

lemma extend_inv_here:
  assumes "at_cursor s pre post P Q" and "\<not> reachedSelfEnd s"
    and "goal = P @ overlay conv Q (shiftFirst (otherRangeOffset s) (otherIterator s))"
  shows "extend_inv conv goal (length (otherIterator s) + Suc (length post)) s"
  using assms by (auto simp: extend_inv_def at_cursor_def)

lemma extend_inv_advance:
  assumes "at_cursor s pre post P (r # Q)"
    and "goal = P @ r # overlay conv Q (shiftFirst (otherRangeOffset s) (otherIterator s))"
  shows "extend_inv conv goal (length (otherIterator s) + length post) (advanceSelf s)"
proof (cases "post = []")
  case True
  with assms(1) have "Q = []" by (simp add: at_cursor_def)
  with True assms(2) at_cursor_advance [OF assms(1)] show ?thesis
    by (auto simp: extend_inv_def intro!: exI [of _ "pre @ [selfRangeIndex s]"])
next
  case False
  then have "length post = Suc (length (tl post))" by (cases post) auto
  with False assms(2) at_cursor_advance [OF assms(1)] show ?thesis
    by (metis (no_types, lifting) append.assoc append_Cons append_Nil extend_frame(7,8) extend_inv_here)
qed

lemma at_cursor_self:
  "at_cursor s pre post P ((a, b, d) # Q) \<Longrightarrow>
     a = mr_first (es_ranges s ! selfRangeIndex s) \<and> b = mr_last (es_ranges s ! selfRangeIndex s)
     \<and> d = mr_data (es_ranges s ! selfRangeIndex s)"
  by (simp add: at_cursor_def)

lemma extend_intersection_inv:
  assumes cur: "at_cursor s pre post P ((a, b, d) # Q)"
    and oth: "otherIterator s = (f, l, e) # S" and start: "f + otherRangeOffset s = a"
    and run: "\<not> reachedSelfEnd s"
  shows "\<exists>n < length (otherIterator s) + Suc (length post). extend_inv conv
     (P @ (if b = l then (a, b, dc_extend conv d e) # overlay conv Q S
           else if l < b then (a, l, dc_extend conv (dc_copy conv d) e) # overlay conv ((l + 1, b, d) # Q) S
           else (a, b, dc_extend conv d e) # overlay conv Q ((b + 1, l, e) # S)))
     n (extend_intersection conv s)"
proof -
  note self = at_cursor_self [OF cur]
  let ?m = "dc_extend conv d e"
  let ?u = "es_updateSelf (\<lambda>r. r\<lparr>mr_data := ?m\<rparr>) s"
  let ?v = "es_updateSelf (\<lambda>r. r\<lparr>mr_first := l + 1\<rparr>) s"
  have upd: "at_cursor ?u pre post P ((a, b, ?m) # Q)"
    using at_cursor_update [OF cur, of "\<lambda>r. r\<lparr>mr_data := ?m\<rparr>"] self by (simp add: Let_def)
  have upd2: "at_cursor ?v pre post P ((l + 1, b, d) # Q)"
    using at_cursor_update [OF cur, of "\<lambda>r. r\<lparr>mr_first := l + 1\<rparr>"] self by (simp add: Let_def)
  consider "b = l" | "l < b" | "b < l" by linarith
  then show ?thesis
  proof cases
    case 1
    with upd oth self have "extend_inv conv (P @ (a, b, ?m) # overlay conv Q S)
        (length (otherIterator (advanceOther ?u)) + length post) (advanceSelf (advanceOther ?u))"
      by (intro extend_inv_advance) auto
    with 1 oth self show ?thesis
      by (intro exI [of _ "length S + length post"])
        (simp add: extend_intersection_def Let_def advance_commute)
  next
    case 2
    let ?c = "dc_extend conv (dc_copy conv d) e"
    let ?w = "advanceOther (es_insertBetween a l ?c ?v)"
    obtain pre' where "at_cursor ?w pre' post (P @ [(a, l, ?c)]) ((l + 1, b, d) # Q)"
      using at_cursor_insert [OF upd2, of a l ?c] by auto
    with run oth have "extend_inv conv (P @ (a, l, ?c) # overlay conv ((l + 1, b, d) # Q) S)
        (length (otherIterator ?w) + Suc (length post)) ?w"
      by (intro extend_inv_here) auto
    with 2 oth self show ?thesis
      by (intro exI [of _ "length S + Suc (length post)"])
        (simp add: extend_intersection_def Let_def)
  next
    case 3
    let ?w = "?u\<lparr>otherRangeOffset := b - f + 1\<rparr>"
    have "extend_inv conv (P @ (a, b, ?m) # overlay conv Q ((b + 1, l, e) # S))
        (length (otherIterator ?w) + length post) (advanceSelf ?w)"
      using upd oth by (intro extend_inv_advance) auto
    with 3 oth self show ?thesis
      by (intro exI [of _ "length (otherIterator s) + length post"])
        (simp add: extend_intersection_def Let_def advance_commute)
  qed
qed

lemma extend_left_cursor:
  assumes cur: "at_cursor s pre post P ((a, b, d) # Q)"
    and oth: "otherIterator s = (f, l, e) # S" and start: "start = f + otherRangeOffset s"
  shows "\<exists>pre'. at_cursor (extend_left conv s) pre' post
           (P @ (if a < start then [(a, start - 1, dc_copy conv d)]
                 else if start < a then [(start, a - 1, dc_convert conv e)] else []))
           ((max a start, b, d) # Q) \<and>
         f + otherRangeOffset (extend_left conv s) = max a start"
proof -
  note self = at_cursor_self [OF cur]
  consider "a < start" | "start < a" | "start = a" by linarith
  then show ?thesis
  proof cases
    case 1
    have "at_cursor (es_updateSelf (\<lambda>r. r\<lparr>mr_first := start\<rparr>) s) pre post P ((start, b, d) # Q)"
      using at_cursor_update [OF cur, of "\<lambda>r. r\<lparr>mr_first := start\<rparr>"] self by (simp add: Let_def)
    from at_cursor_insert [OF this, of a "start - 1" "dc_copy conv d"] show ?thesis
      using 1 oth self by (auto simp: extend_left_def start Let_def)
  next
    case 2
    obtain pre' where
      ins: "at_cursor (es_insertBetween start (a - 1) (dc_convert conv e) s) pre' post
              (P @ [(start, a - 1, dc_convert conv e)]) ((a, b, d) # Q)"
      using at_cursor_insert [OF cur, of start "a - 1" "dc_convert conv e"] by blast
    from at_cursor_self [OF this] this show ?thesis
      using 2 oth self by (auto simp: extend_left_def start Let_def)
  next
    case 3
    with cur oth self show ?thesis by (auto simp: extend_left_def start)
  qed
qed

lemma extend_left_frame [simp]:
  "otherIterator (extend_left conv s) = otherIterator s"
  "reachedSelfEnd (extend_left conv s) = reachedSelfEnd s"
  by (auto simp: extend_left_def Let_def split: prod.split)

lemma extend_step_inv:
  assumes cur: "at_cursor s pre post P ((a, b, d) # Q)"
    and oth: "otherIterator s = (f, l, e) # S" and run: "\<not> reachedSelfEnd s"
  shows "\<exists>n < length (otherIterator s) + Suc (length post). extend_inv conv
    (P @ overlay conv ((a, b, d) # Q) (shiftFirst (otherRangeOffset s) (otherIterator s)))
    n (extend_step conv s)"
proof -
  note self = at_cursor_self [OF cur]
  let ?start = "f + otherRangeOffset s"
  consider "b < ?start" | "\<not> b < ?start" "l < a" | "\<not> b < ?start" "\<not> l < a" by blast
  then show ?thesis
  proof cases
    case 1
    with extend_inv_advance [OF cur refl] oth self show ?thesis
      by (intro exI [of _ "length (otherIterator s) + length post"]) (auto simp: extend_step_def Let_def)
  next
    case 2
    let ?w = "advanceOther (es_insertBetween ?start l (dc_convert conv e) s)"
    obtain pre' where "at_cursor ?w pre' post (P @ [(?start, l, dc_convert conv e)]) ((a, b, d) # Q)"
      using at_cursor_insert [OF cur, of ?start l "dc_convert conv e"] by auto
    from extend_inv_here [OF this _ refl] 2 run oth self show ?thesis
      by (intro exI [of _ "length (otherIterator ?w) + Suc (length post)"])
        (auto simp: extend_step_def Let_def)
  next
    case 3
    let ?left = "if a < ?start then [(a, ?start - 1, dc_copy conv d)]
                 else if ?start < a then [(?start, a - 1, dc_convert conv e)] else []"
    let ?rest = "if b = l then (max a ?start, b, dc_extend conv d e) # overlay conv Q S
      else if l < b then (max a ?start, l, dc_extend conv (dc_copy conv d) e) # overlay conv ((l + 1, b, d) # Q) S
      else (max a ?start, b, dc_extend conv d e) # overlay conv Q ((b + 1, l, e) # S)"
    obtain pre' where left: "at_cursor (extend_left conv s) pre' post (P @ ?left) ((max a ?start, b, d) # Q)"
      "f + otherRangeOffset (extend_left conv s) = max a ?start"
      using extend_left_cursor [OF cur oth refl] by blast
    have "extend_step conv s = extend_intersection conv (extend_left conv s)"
      using 3 oth self by (simp add: extend_step_def Let_def)
    moreover have "overlay conv ((a, b, d) # Q) (shiftFirst (otherRangeOffset s) (otherIterator s))
        = ?left @ ?rest"
      unfolding oth shiftFirst.simps overlay.simps using 3 by (simp only: if_False)
    ultimately show ?thesis
      using extend_intersection_inv [OF left(1) _ left(2), of l e S conv] run oth
      by (simp only: extend_left_frame append_assoc simp_thms)
  qed
qed

lemma extend_loop:
  assumes "extend_inv conv goal n s"
  shows "\<exists>t m. while_option extend_continues (extend_step conv) s = Some t \<and>
           extend_inv conv goal m t \<and> \<not> extend_continues t"
proof -
  have "\<exists>n' < n. extend_inv conv goal n' (extend_step conv s)"
    if "extend_inv conv goal n s" "extend_continues s" for n s
  proof -
    from that(2) obtain f l e S where
      run: "\<not> reachedSelfEnd s" and oth: "otherIterator s = (f, l, e) # S"
      by (cases "otherIterator s") (auto simp: extend_continues_def)
    from that(1) run obtain pre post where
      n: "n = length (otherIterator s) + Suc (length post)"
      and cur: "cursor (es_ranges s) pre (lastSelfRangeIndex s) (selfRangeIndex s) post"
      and goal: "goal = map (rng (es_ranges s)) pre
            @ overlay conv (map (rng (es_ranges s)) (selfRangeIndex s # post))
                (shiftFirst (otherRangeOffset s) (otherIterator s))"
      by (auto simp: extend_inv_def)
    have "at_cursor s pre post (map (rng (es_ranges s)) pre)
            (rng (es_ranges s) (selfRangeIndex s) # map (rng (es_ranges s)) post)"
      using cur by (simp add: at_cursor_def)
    from extend_step_inv [OF this oth run] show ?thesis unfolding n goal by simp
  qed
  then show ?thesis
    using while_option_indexed [of "extend_inv conv goal" n s extend_continues "extend_step conv"]
      assms by blast
qed

lemma mrl_path_append:
  assumes "mrl_path R pre"
  shows "appendRange R (last pre) f l d = (R', i) \<Longrightarrow>
    mrl_path R' (pre @ [i]) \<and> map (rng R') (pre @ [i]) = map (rng R) pre @ [(f, l, d)]"
proof -
  let ?p = "last pre" and ?n = "length R"
  assume app: "appendRange R (last pre) f l d = (R', i)"
  have ne: "pre \<noteq> []" and dist: "distinct pre" and ch: "chain R pre 0" and hd: "hd pre = 0"
    using assms by (auto simp: mrl_path_def)
  obtain q where pre: "pre = q @ [?p]" using ne by (metis append_butlast_last_id)
  have bound: "j < ?n" if "j \<in> set pre" for j using chain_bound [OF ch that] .
  then have p: "?p < ?n" using ne by simp
  have R': "R' = (R @ [\<lparr>mr_data = d, nextRangeIndex = 0, mr_first = f, mr_last = l\<rparr>])
              [?p := (R ! ?p)\<lparr>nextRangeIndex := ?n\<rparr>]" and i: "i = ?n"
    using app p by (auto simp: appendRange_def Let_def nth_append split: if_splits)
  have kept: "R' ! j = R ! j" if "j \<in> set q" for j
    using that dist bound pre by (metis R' Un_iff append.assoc distinct_append disjoint_iff
        in_set_conv_decomp nth_append nth_list_update_neq set_append list.set_intros(1))
  have new: "R' ! ?n = \<lparr>mr_data = d, nextRangeIndex = 0, mr_first = f, mr_last = l\<rparr>"
    using p by (auto simp: R' nth_list_update)
  have at_p: "R' ! ?p = (R ! ?p)\<lparr>nextRangeIndex := ?n\<rparr>" using p by (auto simp: R')
  have "chain R q ?p" using ch pre by (metis chain_append append_Cons append_Nil list.sel(1))
  then have "chain R' q ?p"
    by (rule chain_cong) (use kept in \<open>auto simp: R' intro: less_SucI\<close>)
  then have "chain R' ((q @ [?p]) @ [?n]) 0"
    using new at_p p by (auto simp: chain_append R')
  then have "chain R' (pre @ [?n]) 0" using pre by simp
  moreover have "distinct (pre @ [?n])" using dist bound by auto
  ultimately have "mrl_path R' (pre @ [?n])" using ne hd by (simp add: mrl_path_def)
  moreover have "map (rng R') (q @ [?p]) = map (rng R) (q @ [?p])" using kept at_p by simp
  ultimately show "mrl_path R' (pre @ [i]) \<and> map (rng R') (pre @ [i]) = map (rng R) pre @ [(f, l, d)]"
    using new i pre by simp
qed

lemma extend_tail_path:
  assumes "mrl_path R pre"
  shows "\<exists>is. mrl_path (extend_tail conv R (last pre) off S) is \<and>
    map (rng (extend_tail conv R (last pre) off S)) is
      = map (rng R) pre @ overlay conv [] (shiftFirst off S)"
  using assms
proof (induction S arbitrary: R pre off)
  case Nil
  then show ?case by auto
next
  case (Cons x S)
  obtain f l e where x: "x = (f, l, e)" by (cases x) auto
  let ?d = "dc_copy conv (dc_convert conv e)"
  obtain R' i where app: "appendRange R (last pre) (f + off) l ?d = (R', i)"
    by (cases "appendRange R (last pre) (f + off) l ?d") auto
  note path = mrl_path_append [OF Cons.prems app]
  with Cons.IH [of R' "pre @ [i]" 0] show ?case by (auto simp: x app)
qed

definition mrl_wf :: "'d MutableRangeList \<Rightarrow> bool" where
  "mrl_wf R \<longleftrightarrow> R = [] \<or> (\<exists>is. mrl_path R is)"

lemma mrl_collect_path:
  assumes "chain R is 0" "0 \<notin> set (tl is)" "is \<noteq> []" "length is \<le> fuel"
  shows "mrl_collect fuel R \<lparr>it_index = hd is, it_atEnd = False\<rparr> = map (rng R) is"
  using assms
proof (induction "is" arbitrary: fuel)
  case (Cons i js)
  then obtain k where k: "fuel = Suc k" by (cases fuel) auto
  show ?case
  proof (cases js)
    case Nil
    with Cons.prems k show ?thesis by (cases k) (auto simp: mrl_increment_def Let_def)
  next
    case (Cons j js')
    with Cons.prems Cons.IH [of k] k show ?thesis by (auto simp: mrl_increment_def Let_def)
  qed
qed simp

lemma mrl_elements_path: "mrl_path R is \<Longrightarrow> mrl_elements R = map (rng R) is"
proof -
  assume p: "mrl_path R is"
  then have "set is \<subseteq> {..<length R}" using chain_bound by (fastforce simp: mrl_path_def)
  then have "card (set is) \<le> length R" by (metis card_lessThan card_mono finite_lessThan)
  with p have "length is \<le> length R" by (simp add: mrl_path_def distinct_card)
  moreover from p have "R \<noteq> []" by (cases "is") (auto simp: mrl_path_def)
  moreover from p have "0 \<notin> set (tl is)" by (cases "is") (auto simp: mrl_path_def)
  ultimately show ?thesis
    using p mrl_collect_path [of R "is" "length R"] by (auto simp: mrl_path_def mrl_elements_def mrl_begin_def)
qed

lemma initializeFrom_loop_eq:
  "initializeFrom_loop conv k S R =
     R @ map (\<lambda>(i, f, l, e). \<lparr>mr_data = dc_convert conv e, nextRangeIndex = i + 1, mr_first = f, mr_last = l\<rparr>)
           (zip [k..<k + length S] S)"
proof (induction S arbitrary: k R)
  case (Cons x S)
  have "[k..<k + length (x # S)] = k # [k + 1..<(k + 1) + length S]"
    by (simp add: upt_rec)
  with Cons show ?case by (cases x) simp
qed simp

lemma chain_upt:
  assumes "\<And>i. a \<le> i \<Longrightarrow> Suc i < n \<Longrightarrow> nextRangeIndex (R ! i) = Suc i"
    and "nextRangeIndex (R ! (n - 1)) = 0" "n \<le> length R" "a \<le> n"
  shows "chain R [a..<n] 0"
  using \<open>a \<le> n\<close> assms(1)
proof (induction rule: inc_induct)
  case (step a)
  then show ?case
    using assms(2,3) by (cases "Suc a = n") (auto simp: upt_rec)
qed simp

lemma initializeFrom_path:
  assumes "S \<noteq> []"
  shows "mrl_path (initializeFrom conv S) [0..<length S]"
    and "map (rng (initializeFrom conv S)) [0..<length S] = map (\<lambda>(f, l, e). (f, l, dc_convert conv e)) S"
proof -
  let ?R = "initializeFrom conv S"
  have len: "length ?R = length S"
    using assms by (auto simp: initializeFrom_def Let_def initializeFrom_loop_eq)
  have nth: "?R ! i = (case S ! i of (f, l, e) \<Rightarrow> \<lparr>mr_data = dc_convert conv e,
      nextRangeIndex = (if Suc i < length S then Suc i else 0), mr_first = f, mr_last = l\<rparr>)"
    if "i < length S" for i
    using that assms
    by (auto simp: initializeFrom_def Let_def initializeFrom_loop_eq nth_list_update last_conv_nth
        split: prod.split)
  have "chain ?R [0..<length S] 0"
    by (rule chain_upt) (use nth len assms in \<open>auto split: prod.split\<close>)
  with assms show "mrl_path ?R [0..<length S]" by (simp add: mrl_path_def)
  show "map (rng ?R) [0..<length S] = map (\<lambda>(f, l, e). (f, l, dc_convert conv e)) S"
    by (rule nth_equalityI) (use nth in \<open>auto split: prod.split\<close>)
qed

text \<open>An empty list takes the converted data as they are.\<close>

definition extended :: "('d, 'e) DataConverter \<Rightarrow> 'd rangeSeq \<Rightarrow> 'e rangeSeq \<Rightarrow> 'd rangeSeq" where
  "extended conv Q S =
     (if Q = [] then map (\<lambda>(f, l, e). (f, l, dc_convert conv e)) S else overlay conv Q S)"

lemma mrl_elements_Nil: "mrl_elements R = [] \<longleftrightarrow> R = []"
  by (cases R) (simp_all add: mrl_elements_def mrl_begin_def Let_def)

lemma mrl_extend_overlay:
  assumes "mrl_wf R"
  shows "\<exists>R'. mrl_extend conv R S = Some R' \<and> mrl_wf R' \<and>
           mrl_elements R' = extended conv (mrl_elements R) S"
proof -
  consider "S = []" | "S \<noteq> []" "R = []" | "S \<noteq> []" "R \<noteq> []" by blast
  then show ?thesis
  proof cases
    case 1
    with assms show ?thesis by (simp add: mrl_extend_def extended_def)
  next
    case 2
    with initializeFrom_path [of S conv] have "mrl_wf (initializeFrom conv S)"
      and "mrl_elements (initializeFrom conv S) = extended conv [] S"
      using mrl_elements_path [of "initializeFrom conv S"] by (auto simp: mrl_wf_def extended_def)
    with 2 show ?thesis by (simp add: mrl_extend_def mrl_elements_def)
  next
    case 3
    then obtain js where path: "mrl_path R (0 # js)"
      using assms by (auto simp: mrl_wf_def mrl_path_def neq_Nil_conv)
    let ?s = "\<lparr>es_ranges = R, reachedSelfEnd = False, lastSelfRangeIndex = 0,
                 selfRangeIndex = 0, otherRangeOffset = 0, otherIterator = S\<rparr>"
    have "extend_inv conv (overlay conv (mrl_elements R) S) (length (otherIterator ?s) + Suc (length js)) ?s"
      using path mrl_elements_path [OF path]
      by (intro extend_inv_here [where pre = "[]" and P = "[]" and Q = "mrl_elements R"])
        (auto simp: at_cursor_def cursor_def)
    from extend_loop [OF this] obtain t m where
      loop: "while_option extend_continues (extend_step conv) ?s = Some t"
      and inv: "extend_inv conv (overlay conv (mrl_elements R) S) m t" and stop: "\<not> extend_continues t"
      by blast
    obtain pre where pre: "mrl_path (es_ranges t) pre"
      and tail: "otherIterator t = [] \<or> lastSelfRangeIndex t = last pre"
      and goal: "map (rng (es_ranges t)) pre @ overlay conv [] (shiftFirst (otherRangeOffset t) (otherIterator t))
        = overlay conv (mrl_elements R) S"
    proof (cases "reachedSelfEnd t")
      case True
      with inv that show ?thesis by (auto simp: extend_inv_def)
    next
      case False
      with stop have "otherIterator t = []" by (simp add: extend_continues_def)
      with False inv that show ?thesis by (fastforce simp: extend_inv_def cursor_def)
    qed
    let ?R = "extend_tail conv (es_ranges t) (lastSelfRangeIndex t) (otherRangeOffset t) (otherIterator t)"
    have "\<exists>is. mrl_path ?R is \<and> map (rng ?R) is = overlay conv (mrl_elements R) S"
      using tail extend_tail_path [OF pre, of conv "otherRangeOffset t" "otherIterator t"] goal pre
      by auto
    then have "mrl_wf ?R \<and> mrl_elements ?R = overlay conv (mrl_elements R) S"
      using mrl_elements_path by (fastforce simp: mrl_wf_def)
    with 3 loop show ?thesis by (simp add: mrl_extend_def extended_def mrl_elements_Nil)
  qed
qed

section \<open>What the list means\<close>

text \<open>Sorted disjoint ranges, none of them starting below \<open>m\<close> nor ending above \<open>hi\<close>.\<close>

fun sorted_ranges :: "charval \<Rightarrow> charval \<Rightarrow> 'd rangeSeq \<Rightarrow> bool" where
  "sorted_ranges m hi [] = True"
| "sorted_ranges m hi ((f, l, d) # xs) = (m \<le> f \<and> f \<le> l \<and> l \<le> hi \<and> sorted_ranges (l + 1) hi xs)"

fun range_at :: "'d rangeSeq \<Rightarrow> charval \<Rightarrow> 'd option" where
  "range_at [] c = None"
| "range_at ((f, l, d) # xs) c = (if f \<le> c \<and> c \<le> l then Some d else range_at xs c)"

lemma sorted_ranges_mono: "sorted_ranges n hi xs \<Longrightarrow> m \<le> n \<Longrightarrow> sorted_ranges m hi xs"
  by (cases xs) auto

lemma range_at_below: "sorted_ranges m hi xs \<Longrightarrow> c < m \<Longrightarrow> range_at xs c = None"
  by (induction m hi xs rule: sorted_ranges.induct) auto

lemma overlay_sorted:
  assumes "sorted_ranges m hi Q" "sorted_ranges m hi S"
  shows "sorted_ranges m hi (overlay conv Q S)"
  using assms
proof (induction conv Q S arbitrary: m rule: overlay.induct)
  case (3 conv a b d Q f l e S)
  have Q: "sorted_ranges k hi Q" if "k \<le> b + 1" for k
    using sorted_ranges_mono [OF _ that] 3(6) by auto
  have S: "sorted_ranges k hi S" if "k \<le> l + 1" for k
    using sorted_ranges_mono [OF _ that] 3(7) by auto
  consider "b < f" | "\<not> b < f" "l < a" | "\<not> b < f" "\<not> l < a" "b = l"
    | "\<not> b < f" "\<not> l < a" "b \<noteq> l" "l < b" | "\<not> b < f" "\<not> l < a" "b \<noteq> l" "\<not> l < b" by linarith
  then show ?case
  proof cases
    case 1
    with "3.IH"(1) [OF 1, of "b + 1"] 3(6,7) Q S show ?thesis by simp
  next
    case 2
    with "3.IH"(2) [OF 2, of "l + 1"] 3(6,7) Q S show ?thesis by simp
  next
    case c: 3
    with "3.IH"(3) [OF c, of "l + 1"] 3(6,7) Q S show ?thesis by simp
  next
    case 4
    with "3.IH"(4) [OF 4, of "l + 1"] 3(6,7) Q S show ?thesis by simp
  next
    case 5
    with "3.IH"(5) [OF 5, of "b + 1"] 3(6,7) Q S show ?thesis by simp
  qed
qed simp_all

lemma extended_sorted:
  assumes "sorted_ranges m hi Q" "sorted_ranges m hi S"
  shows "sorted_ranges m hi (extended conv Q S)"
proof -
  have "sorted_ranges m hi (map (\<lambda>(f, l, e). (f, l, dc_convert conv e)) S)"
    using assms(2) by (induction m hi S rule: sorted_ranges.induct) auto
  with overlay_sorted [OF assms] show ?thesis by (simp add: extended_def)
qed

text \<open>The contract of a data converter: an invariant of the data and an abstraction of it, on
  which copying is invisible and the two member functions act as \<open>fresh\<close> and \<open>grow\<close>.\<close>

fun merge_at :: "('e \<Rightarrow> 'a) \<Rightarrow> ('a \<Rightarrow> 'e \<Rightarrow> 'a) \<Rightarrow> 'a option \<Rightarrow> 'e option \<Rightarrow> 'a option" where
  "merge_at fresh grow x None = x"
| "merge_at fresh grow None (Some e) = Some (fresh e)"
| "merge_at fresh grow (Some d) (Some e) = Some (grow d e)"

definition good_ranges :: "('d \<Rightarrow> bool) \<Rightarrow> 'd rangeSeq \<Rightarrow> bool" where
  "good_ranges good xs \<longleftrightarrow> (\<forall>(f, l, d) \<in> set xs. good d)"

lemma good_ranges_simps [simp]:
  "good_ranges good []"
  "good_ranges good ((f, l, d) # xs) \<longleftrightarrow> good d \<and> good_ranges good xs"
  "good_ranges good (xs @ ys) \<longleftrightarrow> good_ranges good xs \<and> good_ranges good ys"
  by (simp_all add: good_ranges_def ball_Un)

lemma range_at_good: "good_ranges good xs \<Longrightarrow> range_at xs c = Some d \<Longrightarrow> good d"
  by (induction xs) (auto split: if_splits)

lemmas overlay_induct [case_names Nil Left Both] = overlay.induct [where P = "\<lambda>_. P" for P]

locale range_data =
  fixes conv :: "('d, 'e) DataConverter" and good :: "'d \<Rightarrow> bool" and absd :: "'d \<Rightarrow> 'a"
    and fresh :: "'e \<Rightarrow> 'a" and grow :: "'a \<Rightarrow> 'e \<Rightarrow> 'a"
  assumes convert: "good (dc_convert conv e)" "absd (dc_convert conv e) = fresh e"
    and extend: "good d \<Longrightarrow> good (dc_extend conv d e)"
      "good d \<Longrightarrow> absd (dc_extend conv d e) = grow (absd d) e"
    and copy: "good d \<Longrightarrow> good (dc_copy conv d)" "good d \<Longrightarrow> absd (dc_copy conv d) = absd d"
begin

lemma overlay_good: "good_ranges good Q \<Longrightarrow> good_ranges good (overlay conv Q S)"
proof (induction Q S rule: overlay_induct)
  case (Both conv' a b d Q f l e S)
  then have d: "good d" "good_ranges good Q" by auto
  have "good_ranges good (if a < f then [(a, f - 1, dc_copy conv d)]
      else if f < a then [(f, a - 1, dc_convert conv e)] else [])"
    using d by (simp add: copy convert)
  with Both d show ?case by (simp add: copy convert extend split del: if_split) (simp add: copy convert extend)
qed (auto simp: convert copy)

lemma overlay_range_at:
  assumes "sorted_ranges m hi Q" "sorted_ranges m hi S" "good_ranges good Q"
  shows "map_option absd (range_at (overlay conv Q S) c)
    = merge_at fresh grow (map_option absd (range_at Q c)) (range_at S c)"
  using assms
proof (induction Q S arbitrary: m rule: overlay_induct)
  case (Left conv' f l e S)
  then show ?case using range_at_below [of "l + 1" hi S c] "Left.IH" [of "l + 1"] by (simp add: convert copy)
next
  case (Both conv' a b d Q f l e S)
  have Q: "sorted_ranges k hi Q" if "k \<le> b + 1" for k
    using sorted_ranges_mono [OF _ that] Both(6) by auto
  have S: "sorted_ranges k hi S" if "k \<le> l + 1" for k
    using sorted_ranges_mono [OF _ that] Both(7) by auto
  have atQ: "c \<le> b \<Longrightarrow> range_at Q c = None" and atS: "c \<le> l \<Longrightarrow> range_at S c = None"
    using range_at_below [OF Q [OF order_refl]] range_at_below [OF S [OF order_refl]] by simp_all
  have d: "good d" "good_ranges good Q" using Both(8) by auto
  note laws = convert(2) extend(2) [OF d(1)] extend(2) [OF copy(1) [OF d(1)]] copy(2) [OF d(1)]
  consider "b < f" | "\<not> b < f" "l < a" | "\<not> b < f" "\<not> l < a" "b = l"
    | "\<not> b < f" "\<not> l < a" "b \<noteq> l" "l < b" | "\<not> b < f" "\<not> l < a" "b \<noteq> l" "\<not> l < b" by linarith
  then show ?case
  proof cases
    case 1
    with "Both.IH"(1) [OF 1, of "b + 1"] Both(6,7) Q S atQ atS d show ?thesis by simp
  next
    case 2
    with "Both.IH"(2) [OF 2, of "l + 1"] Both(6,7) Q S atQ atS d laws show ?thesis by simp
  next
    case 3
    with "Both.IH"(3) [OF 3, of "l + 1"] Both(6,7) Q S atQ atS d show ?thesis
      by (cases "c \<le> l"; cases "c \<le> b") (simp_all add: max_def laws)
  next
    case 4
    with "Both.IH"(4) [OF 4, of "l + 1"] Both(6,7) Q S atQ atS d show ?thesis
      by (cases "c \<le> l"; cases "c \<le> b") (simp_all add: max_def laws)
  next
    case 5
    with "Both.IH"(5) [OF 5, of "b + 1"] Both(6,7) Q S atQ atS d show ?thesis
      by (cases "c \<le> l"; cases "c \<le> b") (simp_all add: max_def laws)
  qed
qed simp

lemma converted_ranges:
  "good_ranges good (map (\<lambda>(f, l, e). (f, l, dc_convert conv e)) S)"
  "map_option absd (range_at (map (\<lambda>(f, l, e). (f, l, dc_convert conv e)) S) c)
     = map_option fresh (range_at S c)"
  by (induction S) (auto simp: convert)

lemma extended_good: "good_ranges good Q \<Longrightarrow> good_ranges good (extended conv Q S)"
  by (simp add: extended_def overlay_good converted_ranges)

lemma extended_range_at:
  assumes "sorted_ranges m hi Q" "sorted_ranges m hi S" "good_ranges good Q"
  shows "map_option absd (range_at (extended conv Q S) c)
    = merge_at fresh grow (map_option absd (range_at Q c)) (range_at S c)"
proof (cases "Q = []")
  case True
  then show ?thesis by (cases "range_at S c") (simp_all add: extended_def converted_ranges)
next
  case False
  with overlay_range_at [OF assms] show ?thesis by (simp add: extended_def)
qed

lemma extend_meaning:
  assumes "mrl_wf R" "sorted_ranges lo hi (mrl_elements R)" "sorted_ranges lo hi S"
    and "good_ranges good (mrl_elements R)"
  shows "\<exists>R'. mrl_extend conv R S = Some R' \<and> mrl_wf R' \<and> sorted_ranges lo hi (mrl_elements R') \<and>
    good_ranges good (mrl_elements R') \<and>
    (\<forall>c. map_option absd (range_at (mrl_elements R') c)
        = merge_at fresh grow (map_option absd (range_at (mrl_elements R) c)) (range_at S c))"
proof -
  obtain R' where "mrl_extend conv R S = Some R'" "mrl_wf R'"
    "mrl_elements R' = extended conv (mrl_elements R) S"
    using mrl_extend_overlay [OF assms(1)] by blast
  then show ?thesis
    using assms extended_sorted extended_good extended_range_at by auto
qed

end

text \<open>C13: extending a well-formed list of sorted disjoint ranges by another sorted
  sequence ends, gives a well-formed list of sorted disjoint ranges inside the same bounds (so
  that the 7-bit characters never overflow), and its data at every character is the data of the
  list, the converted data of the other sequence, or the one extended by the other where both
  have a range; for every converter that meets its contract.\<close>

theorem mrl_extend_correct:
  assumes "range_data conv good absd fresh grow"
    and "mrl_wf R" "sorted_ranges lo hi (mrl_elements R)" "sorted_ranges lo hi S"
    and "good_ranges good (mrl_elements R)"
  shows "\<exists>R'. mrl_extend conv R S = Some R' \<and> mrl_wf R' \<and> sorted_ranges lo hi (mrl_elements R') \<and>
    good_ranges good (mrl_elements R') \<and>
    (\<forall>c. map_option absd (range_at (mrl_elements R') c)
        = merge_at fresh grow (map_option absd (range_at (mrl_elements R) c)) (range_at S c))"
  using range_data.extend_meaning [OF assms] .

definition example_ranges :: "nat list MutableRangeList" where
  "example_ranges =
     [\<lparr>mr_data = [1], nextRangeIndex = 2, mr_first = 10, mr_last = 20\<rparr>,
      \<lparr>mr_data = [3], nextRangeIndex = 0, mr_first = 100, mr_last = 127\<rparr>,
      \<lparr>mr_data = [2], nextRangeIndex = 1, mr_first = 40, mr_last = 60\<rparr>]"

definition example_converter :: "(nat list, nat) DataConverter" where
  "example_converter = \<lparr>dc_convert = (\<lambda>e. [e]), dc_extend = (\<lambda>d e. e # d), dc_copy = rev\<rparr>"

lemma example_ranges_wf: "mrl_wf example_ranges"
  unfolding mrl_wf_def
  by (rule disjI2, rule exI [of _ "[0, 2, 1]"]) (simp add: mrl_path_def example_ranges_def)

lemma example_converter_contract:
  "range_data example_converter (\<lambda>d. d \<noteq> []) set (\<lambda>e. {e}) (\<lambda>d e. insert e d)"
  by unfold_locales (auto simp: example_converter_def)

theorem mrl_extend_correct_witness:
  "\<exists>R'. mrl_extend example_converter example_ranges [(0, 15, 7), (50, 120, 8)] = Some R' \<and>
     map_option set (range_at (mrl_elements R') 5) = Some {7} \<and>
     map_option set (range_at (mrl_elements R') 12) = Some {1, 7} \<and>
     map_option set (range_at (mrl_elements R') 45) = Some {2} \<and>
     map_option set (range_at (mrl_elements R') 110) = Some {3, 8}"
proof -
  have elems: "mrl_elements example_ranges = [(10, 20, [1]), (40, 60, [2]), (100, 127, [3])]"
    by (simp add: example_ranges_def mrl_elements_def mrl_begin_def mrl_increment_def eval_nat_numeral)
  obtain R' where R': "mrl_extend example_converter example_ranges [(0, 15, 7), (50, 120, 8)] = Some R'"
    and at: "\<And>c. map_option set (range_at (mrl_elements R') c) = merge_at (\<lambda>e. {e}) (\<lambda>d e. insert e d)
      (map_option set (range_at (mrl_elements example_ranges) c)) (range_at [(0, 15, 7), (50, 120, 8)] c)"
    using mrl_extend_correct [OF example_converter_contract example_ranges_wf, of 0 127 "[(0, 15, 7), (50, 120, 8)]"]
    by (auto simp: elems)
  then show ?thesis
    by (intro exI [of _ R'] conjI) (simp_all add: at elems insert_commute del: map_option_eq_Some)
qed

end
