(* ===== verification/HashFunctions.thy ===== *)
theory HashFunctions
  imports CE_Prelude
begin

text \<open>
  \<^verbatim>\<open>WTF/wtf/HashFunctions.h\<close>: the integer hash functions. The arithmetic is unsigned and wraps,
  so it is modelled on machine words; \<^verbatim>\<open><<\<close> and \<^verbatim>\<open>>>\<close> are \<open>push_bit\<close> and \<open>drop_bit\<close>.
\<close>

text \<open>The 32-bit mix function, shared by the 8-, 16- and 32-bit keys.\<close>

definition intHash32 :: "uint32 \<Rightarrow> uint32" where
  "intHash32 key0 =
     (let key = key0 + NOT (push_bit 15 key0);
          key = key XOR drop_bit 10 key;
          key = key + push_bit 3 key;
          key = key XOR drop_bit 6 key;
          key = key + NOT (push_bit 11 key);
          key = key XOR drop_bit 16 key
      in key)"

definition intHash8 :: "byte \<Rightarrow> uint32" where
  "intHash8 key8 =
     (let key = ucast key8 :: uint32;
          key = key + NOT (push_bit 15 key);
          key = key XOR drop_bit 10 key;
          key = key + push_bit 3 key;
          key = key XOR drop_bit 6 key;
          key = key + NOT (push_bit 11 key);
          key = key XOR drop_bit 16 key
      in key)"

definition intHash16 :: "uint16 \<Rightarrow> uint32" where
  "intHash16 key16 =
     (let key = ucast key16 :: uint32;
          key = key + NOT (push_bit 15 key);
          key = key XOR drop_bit 10 key;
          key = key + push_bit 3 key;
          key = key XOR drop_bit 6 key;
          key = key + NOT (push_bit 11 key);
          key = key XOR drop_bit 16 key
      in key)"

definition intHash64 :: "uint64 \<Rightarrow> uint32" where
  "intHash64 key0 =
     (let key = key0 + NOT (push_bit 32 key0);
          key = key XOR drop_bit 22 key;
          key = key + NOT (push_bit 13 key);
          key = key XOR drop_bit 8 key;
          key = key + push_bit 3 key;
          key = key XOR drop_bit 15 key;
          key = key + NOT (push_bit 27 key);
          key = key XOR drop_bit 31 key
      in ucast key)"

text \<open>The sum of products is computed on \<^verbatim>\<open>unsigned\<close> before it is widened; the shift is by the
  difference of the two sizes in bytes, which is 4.\<close>

definition pairIntHash :: "uint32 \<Rightarrow> uint32 \<Rightarrow> uint32" where
  "pairIntHash key1 key2 =
     (let shortRandom1 = 277951225 :: uint32;
          shortRandom2 = 95187966 :: uint32;
          longRandom = 19248658165952622 :: uint64;
          product = longRandom * ucast (shortRandom1 * key1 + shortRandom2 * key2)
      in ucast (drop_bit (8 - 4) product))"

text \<open>The mixes of the narrow keys are the 32-bit mix of the widened key.\<close>

lemma intHash8_widen: "intHash8 k = intHash32 (ucast k)"
  by (simp add: intHash8_def intHash32_def Let_def)

lemma intHash16_widen: "intHash16 k = intHash32 (ucast k)"
  by (simp add: intHash16_def intHash32_def Let_def)

end
