(* ===== verification/HashTable.thy ===== *)
theory HashTable
  imports HashFunctions "HOL-Library.Monad_Syntax" "HOL-Library.Multiset"
begin

text \<open>
  \<^verbatim>\<open>WTF/wtf/HashTable.h\<close>: the open-addressing table behind every \<^verbatim>\<open>HashSet\<close> and \<^verbatim>\<open>HashMap\<close>.
  Collisions are resolved by double hashing with an odd step on a table whose size is a power
  of two. A probing loop that would not end is \<open>None\<close>; the lemmas below show that on a table
  that satisfies the invariant \<open>ht_wf\<close> every operation ends.
\<close>

section \<open>Data\<close>

datatype 'v Bucket = EmptyBucket | DeletedBucket | Live (bucket_value: 'v)

text \<open>The sizes and counts of a table are of the type \<^verbatim>\<open>unsigned\<close>, so their sums and products wrap
  around at 32 bits. The same operations on unbounded naturals are the reference; section
  \<open>Arithmetic of 32 bits\<close> shows where the two agree.\<close>

datatype Arithmetic = Unsigned32 | Unbounded

definition wrapped :: "Arithmetic \<Rightarrow> nat \<Rightarrow> nat" where
  "wrapped a n = (case a of Unsigned32 \<Rightarrow> n mod 2 ^ 32 | Unbounded \<Rightarrow> n)"

definition decremented :: "Arithmetic \<Rightarrow> nat \<Rightarrow> nat" where
  "decremented a n = (case a of Unsigned32 \<Rightarrow> (n + 2 ^ 32 - 1) mod 2 ^ 32 | Unbounded \<Rightarrow> n - 1)"

text \<open>The static parameters of the template: the hash function, the extractor of the key from
  a value, and \<^verbatim>\<open>KeyTraits::minimumTableSize\<close>; and the arithmetic of the sizes.\<close>

record ('k, 'v) HashTraits =
  ht_hash :: "'k \<Rightarrow> uint32"
  ht_extract :: "'v \<Rightarrow> 'k"
  minimumTableSize :: nat
  arithmetic :: Arithmetic

text \<open>The null table is the empty list; \<^verbatim>\<open>m_tableSize\<close> is the length of the list, and
  \<^verbatim>\<open>m_tableSizeMask\<close> is one less.\<close>

record 'v HashTable =
  m_table :: "'v Bucket list"
  m_keyCount :: nat
  m_deletedCount :: nat

abbreviation m_tableSize :: "'v HashTable \<Rightarrow> nat" where
  "m_tableSize t \<equiv> length (m_table t)"

definition ht_empty :: "'v HashTable" where
  "ht_empty = \<lparr>m_table = [], m_keyCount = 0, m_deletedCount = 0\<rparr>"

fun bucket_list :: "'v Bucket \<Rightarrow> 'v list" where
  "bucket_list (Live v) = [v]"
| "bucket_list b = []"

text \<open>What the iterators visit: the live buckets in the order of the table.\<close>

definition ht_values :: "'v HashTable \<Rightarrow> 'v list" where
  "ht_values t = concat (map bucket_list (m_table t))"

definition maxLoad :: nat where "maxLoad = 2"
definition minLoad :: nat where "minLoad = 6"

definition shouldExpand :: "('k, 'v) HashTraits \<Rightarrow> 'v HashTable \<Rightarrow> bool" where
  "shouldExpand tr t \<longleftrightarrow> wrapped (arithmetic tr) ((m_keyCount t + m_deletedCount t) * maxLoad) \<ge> m_tableSize t"

definition mustRehashInPlace :: "('k, 'v) HashTraits \<Rightarrow> 'v HashTable \<Rightarrow> bool" where
  "mustRehashInPlace tr t \<longleftrightarrow>
     wrapped (arithmetic tr) (m_keyCount t * minLoad) < wrapped (arithmetic tr) (m_tableSize t * 2)"

definition shouldShrink :: "('k, 'v) HashTraits \<Rightarrow> 'v HashTable \<Rightarrow> bool" where
  "shouldShrink tr t \<longleftrightarrow>
     wrapped (arithmetic tr) (m_keyCount t * minLoad) < m_tableSize t \<and> m_tableSize t > minimumTableSize tr"

section \<open>Probing\<close>

definition doubleHash :: "uint32 \<Rightarrow> uint32" where
  "doubleHash key0 =
     (let key = NOT key0 + drop_bit 23 key0;
          key = key XOR push_bit 12 key;
          key = key XOR drop_bit 7 key;
          key = key XOR push_bit 2 key;
          key = key XOR drop_bit 20 key
      in key)"

text \<open>\<^verbatim>\<open>h & sizeMask\<close> and the step \<^verbatim>\<open>i = (i + k) & sizeMask\<close>. The size is a power of two of at
  most 32 bits, so the masked (and wrapping) addition is the sum modulo the size (lemma
  \<open>masked_add\<close>); \<open>k\<close> is 0 until the first collision.\<close>

definition probe_start :: "uint32 \<Rightarrow> nat \<Rightarrow> nat" where
  "probe_start h tableSize = unat h mod tableSize"

definition probe_step :: "uint32 \<Rightarrow> uint32 \<Rightarrow> uint32" where
  "probe_step h k = (if k = 0 then 1 OR doubleHash h else k)"

definition probe_next :: "nat \<Rightarrow> uint32 \<Rightarrow> nat \<Rightarrow> nat" where
  "probe_next i k tableSize = (i + unat k) mod tableSize"

partial_function (option) lookup_loop ::
  "('v \<Rightarrow> 'k) \<Rightarrow> 'v Bucket list \<Rightarrow> 'k \<Rightarrow> uint32 \<Rightarrow> nat \<Rightarrow> uint32 \<Rightarrow> nat option option" where
  "lookup_loop extract table key h i k =
     (case table ! i of
        EmptyBucket \<Rightarrow> Some None
      | Live v \<Rightarrow>
          if extract v = key then Some (Some i)
          else (let k' = probe_step h k
                in lookup_loop extract table key h (probe_next i k' (length table)) k')
      | DeletedBucket \<Rightarrow>
          (let k' = probe_step h k
           in lookup_loop extract table key h (probe_next i k' (length table)) k'))"

definition ht_lookup :: "('k, 'v) HashTraits \<Rightarrow> 'v HashTable \<Rightarrow> 'k \<Rightarrow> nat option option" where
  "ht_lookup tr t key =
     (let h = ht_hash tr key
      in if m_table t = [] then Some None
         else lookup_loop (ht_extract tr) (m_table t) key h (probe_start h (m_tableSize t)) 0)"

text \<open>The loop of \<^verbatim>\<open>lookupForWriting\<close>, \<^verbatim>\<open>fullLookupForWriting\<close> and \<^verbatim>\<open>add\<close>: the position of
  the key, or else the last deleted bucket that was passed, or else the empty one.\<close>

partial_function (option) writing_loop ::
  "('v \<Rightarrow> 'k) \<Rightarrow> 'v Bucket list \<Rightarrow> 'k \<Rightarrow> uint32 \<Rightarrow> nat \<Rightarrow> uint32 \<Rightarrow> nat option \<Rightarrow> (nat \<times> bool) option" where
  "writing_loop extract table key h i k deletedEntry =
     (case table ! i of
        EmptyBucket \<Rightarrow> Some (case deletedEntry of Some d \<Rightarrow> d | None \<Rightarrow> i, False)
      | Live v \<Rightarrow>
          if extract v = key then Some (i, True)
          else (let k' = probe_step h k
                in writing_loop extract table key h (probe_next i k' (length table)) k' deletedEntry)
      | DeletedBucket \<Rightarrow>
          (let k' = probe_step h k
           in writing_loop extract table key h (probe_next i k' (length table)) k' (Some i)))"

definition lookupForWriting :: "('k, 'v) HashTraits \<Rightarrow> 'v HashTable \<Rightarrow> 'k \<Rightarrow> (nat \<times> bool) option" where
  "lookupForWriting tr t key =
     (let h = ht_hash tr key
      in writing_loop (ht_extract tr) (m_table t) key h (probe_start h (m_tableSize t)) 0 None)"

definition fullLookupForWriting ::
  "('k, 'v) HashTraits \<Rightarrow> 'v HashTable \<Rightarrow> 'k \<Rightarrow> ((nat \<times> bool) \<times> uint32) option" where
  "fullLookupForWriting tr t key =
     (let h = ht_hash tr key
      in do {
        r \<leftarrow> writing_loop (ht_extract tr) (m_table t) key h (probe_start h (m_tableSize t)) 0 None;
        Some (r, h)
      })"

partial_function (option) unique_loop ::
  "'v Bucket list \<Rightarrow> uint32 \<Rightarrow> nat \<Rightarrow> uint32 \<Rightarrow> nat option" where
  "unique_loop table h i k =
     (case table ! i of
        EmptyBucket \<Rightarrow> Some i
      | _ \<Rightarrow>
          (let k' = probe_step h k
           in unique_loop table h (probe_next i k' (length table)) k'))"

declare lookup_loop.simps [code] writing_loop.simps [code] unique_loop.simps [code]

definition addUniqueForInitialization ::
  "('k, 'v) HashTraits \<Rightarrow> 'v \<Rightarrow> 'v HashTable \<Rightarrow> 'v HashTable option" where
  "addUniqueForInitialization tr v t =
     (let h = ht_hash tr (ht_extract tr v)
      in do {
        i \<leftarrow> unique_loop (m_table t) h (probe_start h (m_tableSize t)) 0;
        Some (t\<lparr>m_table := (m_table t)[i := Live v]\<rparr>)
      })"

section \<open>Operations\<close>

definition allocateTable :: "nat \<Rightarrow> 'v Bucket list" where
  "allocateTable n = replicate n EmptyBucket"

definition reinsert :: "('k, 'v) HashTraits \<Rightarrow> 'v \<Rightarrow> 'v HashTable \<Rightarrow> ('v HashTable \<times> nat) option" where
  "reinsert tr entry t = do {
     (newEntry, found) \<leftarrow> lookupForWriting tr t (ht_extract tr entry);
     Some (t\<lparr>m_table := (m_table t)[newEntry := Live entry]\<rparr>, newEntry)
   }"

text \<open>The loop of \<^verbatim>\<open>rehash\<close> over the old buckets from index \<open>i\<close>; \<open>entry\<close> is the index of the
  bucket whose new position is returned.\<close>

fun rehash_loop ::
  "('k, 'v) HashTraits \<Rightarrow> 'v Bucket list \<Rightarrow> nat \<Rightarrow> nat option \<Rightarrow> 'v HashTable \<Rightarrow> nat option
     \<Rightarrow> ('v HashTable \<times> nat option) option" where
  "rehash_loop tr [] i entry t newEntry = Some (t, newEntry)"
| "rehash_loop tr (Live v # old) i entry t newEntry = do {
     (t', reinsertedEntry) \<leftarrow> reinsert tr v t;
     rehash_loop tr old (i + 1) entry t' (if entry = Some i then Some reinsertedEntry else newEntry)
   }"
| "rehash_loop tr (b # old) i entry t newEntry = rehash_loop tr old (i + 1) entry t newEntry"

definition rehash ::
  "('k, 'v) HashTraits \<Rightarrow> nat \<Rightarrow> nat option \<Rightarrow> 'v HashTable \<Rightarrow> ('v HashTable \<times> nat option) option" where
  "rehash tr newTableSize entry t = do {
     (t', newEntry) \<leftarrow> rehash_loop tr (m_table t) 0 entry (t\<lparr>m_table := allocateTable newTableSize\<rparr>) None;
     Some (t'\<lparr>m_deletedCount := 0\<rparr>, newEntry)
   }"

definition expand ::
  "('k, 'v) HashTraits \<Rightarrow> nat option \<Rightarrow> 'v HashTable \<Rightarrow> ('v HashTable \<times> nat option) option" where
  "expand tr entry t =
     (let newSize = if m_tableSize t = 0 then minimumTableSize tr
                    else if mustRehashInPlace tr t then m_tableSize t
                    else wrapped (arithmetic tr) (m_tableSize t * 2)
      in rehash tr newSize entry t)"

definition shrink :: "('k, 'v) HashTraits \<Rightarrow> 'v HashTable \<Rightarrow> 'v HashTable option" where
  "shrink tr t = do { (t', _) \<leftarrow> rehash tr (m_tableSize t div 2) None t; Some t' }"

text \<open>\<^verbatim>\<open>add\<close> returns the table, the position of the entry and whether it is new. The bucket it
  fills is the last deleted one that it passed, if any.\<close>

definition ht_add ::
  "('k, 'v) HashTraits \<Rightarrow> 'k \<Rightarrow> 'v \<Rightarrow> 'v HashTable \<Rightarrow> ('v HashTable \<times> nat option \<times> bool) option" where
  "ht_add tr key v t0 = do {
     (t, _) \<leftarrow> (if m_table t0 = [] then expand tr None t0 else Some (t0, None));
     (entry, found) \<leftarrow> (let h = ht_hash tr key in
        writing_loop (ht_extract tr) (m_table t) key h (probe_start h (m_tableSize t)) 0 None);
     if found then Some (t, Some entry, False)
     else
       (let deleted = (m_table t ! entry = DeletedBucket);
            t' = t\<lparr>m_table := (m_table t)[entry := Live v],
                   m_deletedCount := (if deleted then decremented (arithmetic tr) (m_deletedCount t) else m_deletedCount t),
                   m_keyCount := wrapped (arithmetic tr) (m_keyCount t + 1)\<rparr>
        in if shouldExpand tr t' then do {
             (t'', entry') \<leftarrow> expand tr (Some entry) t';
             Some (t'', entry', True)
           }
           else Some (t', Some entry, True))
   }"

text \<open>\<^verbatim>\<open>addPassingHashCode\<close>: the translator builds the value from the hash code.\<close>

definition addPassingHashCode ::
  "('k, 'v) HashTraits \<Rightarrow> 'k \<Rightarrow> (uint32 \<Rightarrow> 'v) \<Rightarrow> 'v HashTable \<Rightarrow> ('v HashTable \<times> nat option \<times> bool) option" where
  "addPassingHashCode tr key translate t0 = do {
     (t, _) \<leftarrow> (if m_table t0 = [] then expand tr None t0 else Some (t0, None));
     ((entry, found), h) \<leftarrow> fullLookupForWriting tr t key;
     if found then Some (t, Some entry, False)
     else
       (let deleted = (m_table t ! entry = DeletedBucket);
            t' = t\<lparr>m_table := (m_table t)[entry := Live (translate h)],
                   m_deletedCount := (if deleted then decremented (arithmetic tr) (m_deletedCount t) else m_deletedCount t),
                   m_keyCount := wrapped (arithmetic tr) (m_keyCount t + 1)\<rparr>
        in if shouldExpand tr t' then do {
             (t'', entry') \<leftarrow> expand tr (Some entry) t';
             Some (t'', entry', True)
           }
           else Some (t', Some entry, True))
   }"

definition ht_contains :: "('k, 'v) HashTraits \<Rightarrow> 'v HashTable \<Rightarrow> 'k \<Rightarrow> bool option" where
  "ht_contains tr t key =
     (if m_table t = [] then Some False
      else do { r \<leftarrow> ht_lookup tr t key; Some (r \<noteq> None) })"

text \<open>\<^verbatim>\<open>find\<close>: the position, or \<open>None\<close> for \<^verbatim>\<open>end()\<close>.\<close>

definition ht_find :: "('k, 'v) HashTraits \<Rightarrow> 'v HashTable \<Rightarrow> 'k \<Rightarrow> nat option option" where
  "ht_find tr t key = (if m_table t = [] then Some None else ht_lookup tr t key)"

definition ht_removeAt :: "('k, 'v) HashTraits \<Rightarrow> nat \<Rightarrow> 'v HashTable \<Rightarrow> 'v HashTable option" where
  "ht_removeAt tr pos t =
     (let t' = t\<lparr>m_table := (m_table t)[pos := DeletedBucket],
                 m_deletedCount := wrapped (arithmetic tr) (m_deletedCount t + 1),
                 m_keyCount := decremented (arithmetic tr) (m_keyCount t)\<rparr>
      in if shouldShrink tr t' then shrink tr t' else Some t')"

definition ht_remove :: "('k, 'v) HashTraits \<Rightarrow> 'k \<Rightarrow> 'v HashTable \<Rightarrow> 'v HashTable option" where
  "ht_remove tr key t = do {
     it \<leftarrow> ht_find tr t key;
     (case it of None \<Rightarrow> Some t | Some pos \<Rightarrow> ht_removeAt tr pos t)
   }"

text \<open>\<^verbatim>\<open>removeIf\<close> visits the buckets from the last to the first.\<close>

fun removeIf_loop :: "('k, 'v) HashTraits \<Rightarrow> ('v \<Rightarrow> bool) \<Rightarrow> nat \<Rightarrow> 'v HashTable \<Rightarrow> 'v HashTable" where
  "removeIf_loop tr functor 0 t = t"
| "removeIf_loop tr functor (Suc i) t =
     removeIf_loop tr functor i
       (case m_table t ! i of
          Live v \<Rightarrow>
            if functor v then
              t\<lparr>m_table := (m_table t)[i := DeletedBucket],
                m_deletedCount := wrapped (arithmetic tr) (m_deletedCount t + 1),
                m_keyCount := decremented (arithmetic tr) (m_keyCount t)\<rparr>
            else t
        | _ \<Rightarrow> t)"

definition ht_removeIf :: "('k, 'v) HashTraits \<Rightarrow> ('v \<Rightarrow> bool) \<Rightarrow> 'v HashTable \<Rightarrow> 'v HashTable option" where
  "ht_removeIf tr functor t =
     (let t' = removeIf_loop tr functor (m_tableSize t) t
      in if shouldShrink tr t' then shrink tr t' else Some t')"

definition ht_clear :: "'v HashTable \<Rightarrow> 'v HashTable" where
  "ht_clear t = (if m_table t = [] then t else ht_empty)"

text \<open>\<^verbatim>\<open>WTF::roundUpToPowerOfTwo\<close> smears the highest bit downwards. On unbounded naturals the copy
  constructor uses the least power of two; up to \<open>2 ^ 31\<close> the two agree (lemma
  \<open>roundUpToPowerOfTwo_ceiling\<close>).\<close>

definition roundUpToPowerOfTwo :: "uint32 \<Rightarrow> uint32" where
  "roundUpToPowerOfTwo v0 =
     (let v = v0 - 1;
          v = v OR drop_bit 1 v;
          v = v OR drop_bit 2 v;
          v = v OR drop_bit 4 v;
          v = v OR drop_bit 8 v;
          v = v OR drop_bit 16 v
      in v + 1)"

fun pow2_from :: "nat \<Rightarrow> nat \<Rightarrow> nat \<Rightarrow> nat" where
  "pow2_from 0 p v = p"
| "pow2_from (Suc fuel) p v = (if v \<le> p then p else pow2_from fuel (2 * p) v)"

definition pow2_ceiling :: "nat \<Rightarrow> nat" where
  "pow2_ceiling v = pow2_from v 1 v"

definition roundedUp :: "Arithmetic \<Rightarrow> nat \<Rightarrow> nat" where
  "roundedUp a v = (case a of Unsigned32 \<Rightarrow> unat (roundUpToPowerOfTwo (of_nat v)) | Unbounded \<Rightarrow> pow2_ceiling v)"

definition bestTableSize :: "('k, 'v) HashTraits \<Rightarrow> nat \<Rightarrow> nat" where
  "bestTableSize tr otherKeyCount =
     (let wrap = wrapped (arithmetic tr);
          best = wrap (roundedUp (arithmetic tr) otherKeyCount * 2);
          aboveThreeQuarterLoad = wrap (otherKeyCount * 12) \<ge> wrap (best * 5);
          best' = if aboveThreeQuarterLoad then wrap (best * 2) else best
      in max best' (minimumTableSize tr))"

fun addUnique_all :: "('k, 'v) HashTraits \<Rightarrow> 'v list \<Rightarrow> 'v HashTable \<Rightarrow> 'v HashTable option" where
  "addUnique_all tr [] t = Some t"
| "addUnique_all tr (v # vs) t = do {
     t' \<leftarrow> addUniqueForInitialization tr v t;
     addUnique_all tr vs t'
   }"

definition ht_copy :: "('k, 'v) HashTraits \<Rightarrow> 'v HashTable \<Rightarrow> 'v HashTable option" where
  "ht_copy tr other =
     (if m_keyCount other = 0 then Some ht_empty
      else addUnique_all tr (ht_values other)
             \<lparr>m_table = allocateTable (bestTableSize tr (m_keyCount other)),
              m_keyCount = m_keyCount other, m_deletedCount = 0\<rparr>)"

text \<open>Moves and swaps write two tables, which may be the same one: a store maps the names of the objects to
  their fields. The move constructor copies the fields of the other table and then clears them; the move
  assignment moves into a temporary, here the object \<open>None\<close>, and swaps with it.\<close>

definition ht_moveConstruct :: "'c \<Rightarrow> 'c \<Rightarrow> ('c \<Rightarrow> 'v HashTable) \<Rightarrow> 'c \<Rightarrow> 'v HashTable" where
  "ht_moveConstruct this other store =
     (let store = store(this := \<lparr>m_table = m_table (store other), m_keyCount = m_keyCount (store other),
                                  m_deletedCount = m_deletedCount (store other)\<rparr>)
      in store(other := \<lparr>m_table = [], m_keyCount = 0, m_deletedCount = 0\<rparr>))"

definition ht_swap :: "'c \<Rightarrow> 'c \<Rightarrow> ('c \<Rightarrow> 'v HashTable) \<Rightarrow> 'c \<Rightarrow> 'v HashTable" where
  "ht_swap this other store = store(this := store other, other := store this)"

definition ht_moveAssign :: "'c \<Rightarrow> 'c \<Rightarrow> ('c \<Rightarrow> 'v HashTable) \<Rightarrow> 'c \<Rightarrow> 'v HashTable" where
  "ht_moveAssign this other store =
     (let store' = case_option ht_empty store;
          store' = ht_moveConstruct None (Some other) store';
          store' = ht_swap (Some this) None store'
      in (\<lambda>c. store' (Some c)))"

section \<open>The probe sequence\<close>

definition probe_inc :: "uint32 \<Rightarrow> nat" where
  "probe_inc h = unat (1 OR doubleHash h)"

definition probe_at :: "uint32 \<Rightarrow> nat \<Rightarrow> nat \<Rightarrow> nat" where
  "probe_at h n i = (unat h + i * probe_inc h) mod n"

definition probe_k :: "uint32 \<Rightarrow> nat \<Rightarrow> uint32" where
  "probe_k h i = (if i = 0 then 0 else 1 OR doubleHash h)"

lemma odd_word_step: "(1 OR x :: uint32) \<noteq> 0"
proof
  assume "1 OR x = 0"
  then have "bit (1 OR x) 0 = bit (0 :: uint32) 0" by simp
  then show False by (simp add: bit_or_iff bit_1_iff)
qed

lemma odd_probe_inc: "odd (probe_inc h)"
proof -
  have "bit (unat (1 OR doubleHash h)) 0" by (simp only: bit_unsigned_iff) (simp add: bit_or_iff bit_1_iff)
  then show ?thesis by (simp add: probe_inc_def bit_0)
qed

lemma probe_step_k [simp]: "probe_step h (probe_k h i) = probe_k h (Suc i)"
  by (simp add: probe_step_def probe_k_def odd_word_step)

lemma probe_start_at [simp]: "probe_start h n = probe_at h n 0"
  by (simp add: probe_start_def probe_at_def)

lemma probe_next_at [simp]: "probe_next (probe_at h n i) (probe_k h (Suc i)) n = probe_at h n (Suc i)"
  by (simp add: probe_next_def probe_at_def probe_k_def probe_inc_def mod_simps algebra_simps)

lemma probe_at_less [simp]: "0 < n \<Longrightarrow> probe_at h n i < n"
  by (simp add: probe_at_def)

lemma probe_at_inj:
  assumes "i < 2 ^ p" "j < 2 ^ p" "probe_at h (2 ^ p) i = probe_at h (2 ^ p) j"
  shows "i = j"
proof -
  have *: "i' = j'" if "i' \<le> j'" "j' < 2 ^ p" "probe_at h (2 ^ p) i' = probe_at h (2 ^ p) j'" for i' j'
  proof -
    have "(2 ^ p) dvd (unat h + j' * probe_inc h) - (unat h + i' * probe_inc h)"
      using that(3) mod_eq_dvd_iff_nat [of "unat h + i' * probe_inc h" "unat h + j' * probe_inc h" "2 ^ p"] that(1)
      by (simp add: probe_at_def)
    then have "(2 ^ p) dvd (j' - i') * probe_inc h" by (simp add: diff_mult_distrib)
    moreover have "coprime (2 ^ p) (probe_inc h)" using odd_probe_inc by simp
    ultimately have "2 ^ p dvd j' - i'" by (simp add: coprime_dvd_mult_left_iff)
    moreover have "j' - i' < 2 ^ p" using that by simp
    ultimately have "j' - i' = 0" by (metis dvd_imp_le gr0I leD)
    then show ?thesis using that(1) by simp
  qed
  show ?thesis
    using * [of i j] * [of j i] assms by (cases "i \<le> j") auto
qed

text \<open>The odd step visits every bucket of a table whose size is a power of two.\<close>

lemma probe_at_covers:
  assumes "j < 2 ^ p"
  shows "\<exists>i < 2 ^ p. probe_at h (2 ^ p) i = j"
proof -
  have "inj_on (probe_at h (2 ^ p)) {..< 2 ^ p}" by (auto intro!: inj_onI dest: probe_at_inj)
  moreover have "probe_at h (2 ^ p) ` {..< 2 ^ p} \<subseteq> {..< 2 ^ p}" by auto
  ultimately have "probe_at h (2 ^ p) ` {..< 2 ^ p} = {..< 2 ^ p}"
    by (simp add: endo_inj_surj)
  with assms show ?thesis by (metis imageE lessThan_iff)
qed

lemma masked_add:
  assumes "p \<le> 32" and "i < 2 ^ p"
  shows "unat ((of_nat i + k) AND (of_nat (2 ^ p) - 1) :: uint32) = (i + unat k) mod 2 ^ p"
proof -
  have "(of_nat (2 ^ p) - 1 :: uint32) = mask p" by (simp add: mask_eq_exp_minus_1)
  then have "(of_nat i + k) AND (of_nat (2 ^ p) - 1 :: uint32) = take_bit p (of_nat i + k)"
    by (simp add: take_bit_eq_mask)
  moreover have "unat (take_bit p (of_nat i + k) :: uint32) = take_bit p (unat (of_nat i + k :: uint32))"
    by (simp add: unsigned_take_bit_eq)
  moreover have "take_bit p (unat (of_nat i + k :: uint32)) = take_bit p (take_bit 32 (i + unat k))"
    by (simp add: unat_word_ariths unat_of_nat take_bit_eq_mod mod_simps)
  moreover have "take_bit p (take_bit 32 (i + unat k)) = take_bit p (i + unat k)"
    using assms(1) by simp
  ultimately show ?thesis by (simp only: take_bit_eq_mod)
qed

section \<open>Tables\<close>

abbreviation table_values :: "'v Bucket list \<Rightarrow> 'v list" where
  "table_values table \<equiv> concat (map bucket_list table)"

abbreviation deleted_buckets :: "'v Bucket list \<Rightarrow> nat" where
  "deleted_buckets table \<equiv> length (filter (\<lambda>b. b = DeletedBucket) table)"

definition pow2 :: "nat \<Rightarrow> bool" where
  "pow2 n \<longleftrightarrow> (\<exists>p. n = 2 ^ p)"

text \<open>The live value in bucket \<open>i\<close> is found by probing for its key: no bucket on the way is
  empty.\<close>

definition reached :: "('k, 'v) HashTraits \<Rightarrow> 'v Bucket list \<Rightarrow> nat \<Rightarrow> 'k \<Rightarrow> bool" where
  "reached tr table i key \<longleftrightarrow>
     (\<exists>n. probe_at (ht_hash tr key) (length table) n = i \<and>
          (\<forall>m < n. table ! probe_at (ht_hash tr key) (length table) m \<noteq> EmptyBucket))"

definition table_ok :: "('k, 'v) HashTraits \<Rightarrow> 'v Bucket list \<Rightarrow> bool" where
  "table_ok tr table \<longleftrightarrow> pow2 (length table) \<and>
     (\<forall>i < length table. \<forall>v. table ! i = Live v \<longrightarrow> reached tr table i (ht_extract tr v)) \<and>
     distinct (map (ht_extract tr) (table_values table))"

lemma set_table_values: "set (table_values table) = {v. \<exists>i < length table. table ! i = Live v}"
proof -
  have "v \<in> set (bucket_list b) \<longleftrightarrow> b = Live v" for v :: 'a and b by (cases b) auto
  then show ?thesis by (force simp: in_set_conv_nth)
qed

lemma table_split:
  assumes "i < length table"
  shows "table = take i table @ table ! i # drop (Suc i) table"
    "table[i := b] = take i table @ b # drop (Suc i) table"
  using assms by (simp_all add: id_take_nth_drop [symmetric] upd_conv_take_nth_drop)

lemma mset_table_update:
  assumes "i < length table"
  shows "mset (table_values (table[i := b])) + mset (bucket_list (table ! i)) =
         mset (table_values table) + mset (bucket_list b)"
proof -
  have "mset (table_values table) = mset (table_values (take i table)) + mset (bucket_list (table ! i))
      + mset (table_values (drop (Suc i) table))"
    by (subst table_split(1) [OF assms]) simp
  then show ?thesis by (simp add: table_split(2) [OF assms])
qed

lemma deleted_table_update:
  assumes "i < length table"
  shows "deleted_buckets (table[i := b]) + (if table ! i = DeletedBucket then 1 else 0) =
         deleted_buckets table + (if b = DeletedBucket then 1 else 0)"
proof -
  have "deleted_buckets table = deleted_buckets (take i table) + (if table ! i = DeletedBucket then 1 else 0)
      + deleted_buckets (drop (Suc i) table)"
    by (subst table_split(1) [OF assms]) simp
  then show ?thesis by (simp add: table_split(2) [OF assms])
qed

lemma empty_bucket_exists:
  "length (table_values table) + deleted_buckets table < length table \<Longrightarrow>
     \<exists>i < length table. table ! i = EmptyBucket"
proof (induction table)
  case (Cons b table)
  show ?case
  proof (cases "b = EmptyBucket")
    case False
    then have "length (table_values table) + deleted_buckets table < length table"
      using Cons.prems by (cases b) auto
    with Cons.IH show ?thesis by auto
  qed auto
qed simp

lemma slot_unique:
  assumes "table_ok tr table" "i < length table" "j < length table"
    "table ! i = Live v" "table ! j = Live w" "ht_extract tr v = ht_extract tr w"
  shows "i = j"
proof (rule ccontr)
  assume "i \<noteq> j"
  have *: False if "i < j" "j < length table" "table ! i = Live v" "table ! j = Live w"
    "ht_extract tr v = ht_extract tr w" for i j v w
  proof -
    note table = table_split(1) [OF that(2), unfolded that(4)]
    have "Live v \<in> set (take j table)"
      using that(1-3) by (auto simp: in_set_conv_nth intro!: exI [of _ i])
    then obtain xs ys where "take j table = xs @ Live v # ys" by (meson split_list)
    then have "table_values table = table_values (xs @ Live v # ys @ Live w # drop (Suc j) table)"
      by (subst table) simp
    then show False using assms(1) that(5) by (simp add: table_ok_def)
  qed
  consider "i < j" | "j < i" using \<open>i \<noteq> j\<close> by linarith
  then show False
  proof cases
    case 1 then show False using * [OF 1 assms(3-6)] by simp
  next
    case 2 then show False using * [OF 2 assms(2) assms(5,4)] assms(6) by simp
  qed
qed

section \<open>The loops\<close>

text \<open>A bucket that a probe for \<open>key\<close> passes.\<close>

definition passed :: "('v \<Rightarrow> 'k) \<Rightarrow> 'k \<Rightarrow> 'v Bucket \<Rightarrow> bool" where
  "passed extract key b \<longleftrightarrow> b = DeletedBucket \<or> (\<exists>v. b = Live v \<and> extract v \<noteq> key)"

lemma lookup_loop_cases:
  "table ! i = EmptyBucket \<Longrightarrow> lookup_loop extract table key h i k = Some None"
  "table ! i = Live v \<Longrightarrow> extract v = key \<Longrightarrow> lookup_loop extract table key h i k = Some (Some i)"
  "passed extract key (table ! i) \<Longrightarrow> lookup_loop extract table key h i k =
     lookup_loop extract table key h (probe_next i (probe_step h k) (length table)) (probe_step h k)"
  by (subst lookup_loop.simps; cases "table ! i"; simp add: passed_def Let_def)+

lemma unique_loop_cases:
  "table ! i = EmptyBucket \<Longrightarrow> unique_loop table h i k = Some i"
  "table ! i \<noteq> EmptyBucket \<Longrightarrow> unique_loop table h i k =
     unique_loop table h (probe_next i (probe_step h k) (length table)) (probe_step h k)"
  by (subst unique_loop.simps; cases "table ! i"; simp add: Let_def)+

lemma writing_loop_cases:
  "table ! i = EmptyBucket \<Longrightarrow>
     writing_loop extract table key h i k d = Some (case d of Some j \<Rightarrow> j | None \<Rightarrow> i, False)"
  "table ! i = Live v \<Longrightarrow> extract v = key \<Longrightarrow> writing_loop extract table key h i k d = Some (i, True)"
  "passed extract key (table ! i) \<Longrightarrow> writing_loop extract table key h i k d =
     writing_loop extract table key h (probe_next i (probe_step h k) (length table)) (probe_step h k)
       (if table ! i = DeletedBucket then Some i else d)"
  by (subst writing_loop.simps; cases "table ! i"; simp add: passed_def Let_def)+

lemma not_passed: "\<not> passed extract key b \<longleftrightarrow> b = EmptyBucket \<or> (\<exists>v. b = Live v \<and> extract v = key)"
  by (cases b) (auto simp: passed_def)

lemma lookup_loop_run:
  assumes "i \<le> n" and "\<And>m. i \<le> m \<Longrightarrow> m < n \<Longrightarrow> passed extract key (table ! probe_at h (length table) m)"
    and "\<not> passed extract key (table ! probe_at h (length table) n)"
  shows "lookup_loop extract table key h (probe_at h (length table) i) (probe_k h i) =
    Some (if table ! probe_at h (length table) n = EmptyBucket then None
          else Some (probe_at h (length table) n))"
  using assms(1,2)
proof (induction rule: inc_induct)
  case base
  from assms(3) show ?case by (auto simp: not_passed lookup_loop_cases(1,2))
next
  case (step i)
  then have "passed extract key (table ! probe_at h (length table) i)" by simp
  from lookup_loop_cases(3) [OF this] step show ?case by simp
qed

lemma unique_loop_run:
  assumes "i \<le> n" and "\<And>m. i \<le> m \<Longrightarrow> m < n \<Longrightarrow> table ! probe_at h (length table) m \<noteq> EmptyBucket"
    and "table ! probe_at h (length table) n = EmptyBucket"
  shows "unique_loop table h (probe_at h (length table) i) (probe_k h i) = Some (probe_at h (length table) n)"
  using assms(1,2)
proof (induction rule: inc_induct)
  case base
  from unique_loop_cases(1) [OF assms(3)] show ?case .
next
  case (step i)
  then have "table ! probe_at h (length table) i \<noteq> EmptyBucket" by simp
  from unique_loop_cases(2) [OF this] step show ?case by simp
qed

text \<open>The result of a search for writing: the bucket of the key; or, when the probe ends in an
  empty bucket, a free bucket on the way.\<close>

lemma writing_loop_found:
  assumes "i \<le> n" and "\<And>m. i \<le> m \<Longrightarrow> m < n \<Longrightarrow> passed extract key (table ! probe_at h (length table) m)"
    and "table ! probe_at h (length table) n = Live v" "extract v = key"
  shows "writing_loop extract table key h (probe_at h (length table) i) (probe_k h i) d
           = Some (probe_at h (length table) n, True)"
  using assms(1,2)
proof (induction arbitrary: d rule: inc_induct)
  case base
  from writing_loop_cases(2) [OF assms(3), of "extract" key] assms(4) show ?case by simp
next
  case (step i)
  then have "passed extract key (table ! probe_at h (length table) i)" by simp
  from writing_loop_cases(3) [OF this] step show ?case by simp
qed

lemma writing_loop_free:
  assumes "i \<le> n" and "\<And>m. i \<le> m \<Longrightarrow> m < n \<Longrightarrow> passed extract key (table ! probe_at h (length table) m)"
    and "table ! probe_at h (length table) n = EmptyBucket"
    and "d = None \<or> (\<exists>m < i. d = Some (probe_at h (length table) m) \<and>
                              table ! probe_at h (length table) m = DeletedBucket)"
  shows "\<exists>m \<le> n. writing_loop extract table key h (probe_at h (length table) i) (probe_k h i) d
             = Some (probe_at h (length table) m, False) \<and>
           table ! probe_at h (length table) m \<in> {EmptyBucket, DeletedBucket}"
  using assms(1,2,4)
proof (induction arbitrary: d rule: inc_induct)
  case base
  from base(2) show ?case
  proof
    assume "d = None"
    with writing_loop_cases(1) [OF assms(3), of "extract" key h "probe_k h n" d] assms(3)
    show ?thesis by (intro exI [of _ n]) simp
  next
    assume "\<exists>m < n. d = Some (probe_at h (length table) m) \<and>
                              table ! probe_at h (length table) m = DeletedBucket"
    then obtain m where "m < n" "d = Some (probe_at h (length table) m)"
      "table ! probe_at h (length table) m = DeletedBucket" by blast
    with writing_loop_cases(1) [OF assms(3), of "extract" key h "probe_k h n" d]
    show ?thesis by (intro exI [of _ m]) simp
  qed
next
  case (step i)
  let ?i = "probe_at h (length table) i"
  define d' where "d' = (if table ! ?i = DeletedBucket then Some ?i else d)"
  have pass: "passed extract key (table ! ?i)" using step by simp
  have eq: "writing_loop extract table key h ?i (probe_k h i) d =
      writing_loop extract table key h (probe_at h (length table) (Suc i)) (probe_k h (Suc i)) d'"
    using writing_loop_cases(3) [OF pass, of h "probe_k h i" d] by (simp add: d'_def)
  have "d' = None \<or> (\<exists>m < Suc i. d' = Some (probe_at h (length table) m) \<and>
                              table ! probe_at h (length table) m = DeletedBucket)"
  proof (cases "table ! ?i = DeletedBucket")
    case True
    then show ?thesis by (auto simp: d'_def)
  next
    case False
    with step.prems(2) show ?thesis unfolding d'_def by (metis less_SucI)
  qed
  with step show ?case unfolding eq by simp
qed

lemma first_stop:
  assumes "P (n :: nat)"
  obtains n' where "n' \<le> n" "P n'" "\<And>m. m < n' \<Longrightarrow> \<not> P m"
  using assms ex_least_nat_le [of P n] by blast

lemma probe_k_0 [simp]: "probe_k h 0 = 0"
  by (simp add: probe_k_def)

abbreviation table_keys :: "('k, 'v) HashTraits \<Rightarrow> 'v Bucket list \<Rightarrow> 'k set" where
  "table_keys tr table \<equiv> ht_extract tr ` set (table_values table)"

lemma probe_reaches_key:
  assumes ok: "table_ok tr table" and i: "i < length table" "table ! i = Live v"
  obtains n where "probe_at (ht_hash tr (ht_extract tr v)) (length table) n = i"
    "\<And>m. m < n \<Longrightarrow> passed (ht_extract tr) (ht_extract tr v)
       (table ! probe_at (ht_hash tr (ht_extract tr v)) (length table) m)"
proof -
  let ?at = "probe_at (ht_hash tr (ht_extract tr v)) (length table)"
  from ok i obtain n0 where n0: "?at n0 = i" "\<And>m. m < n0 \<Longrightarrow> table ! ?at m \<noteq> EmptyBucket"
    by (auto simp: table_ok_def reached_def)
  obtain n where n: "n \<le> n0" "?at n = i" "\<And>m. m < n \<Longrightarrow> ?at m \<noteq> i"
    using first_stop [of "\<lambda>n. ?at n = i" n0] n0(1) by blast
  have "passed (ht_extract tr) (ht_extract tr v) (table ! ?at m)" if "m < n" for m
  proof (rule ccontr)
    assume "\<not> passed (ht_extract tr) (ht_extract tr v) (table ! ?at m)"
    with n0(2) [of m] that n(1) obtain w where "table ! ?at m = Live w" "ht_extract tr w = ht_extract tr v"
      by (auto simp: not_passed)
    moreover have "?at m < length table" by (rule probe_at_less) (use i in auto)
    ultimately have "?at m = i" using slot_unique [OF ok _ i(1)] i(2) by blast
    with n(3) that show False by blast
  qed
  with n(2) that show thesis by blast
qed

lemma probe_reaches_empty:
  assumes ok: "table_ok tr table" and e: "\<exists>i < length table. table ! i = EmptyBucket"
    and absent: "key \<notin> table_keys tr table"
  obtains n where "table ! probe_at (ht_hash tr key) (length table) n = EmptyBucket"
    "\<And>m. m < n \<Longrightarrow> passed (ht_extract tr) key (table ! probe_at (ht_hash tr key) (length table) m)"
proof -
  let ?at = "probe_at (ht_hash tr key) (length table)"
  from e obtain i where i: "i < length table" "table ! i = EmptyBucket" by blast
  from ok obtain p where p: "length table = 2 ^ p" by (auto simp: table_ok_def pow2_def)
  with i probe_at_covers [of i p "ht_hash tr key"] obtain n0 where "?at n0 = i" by auto
  with i obtain n where n: "table ! ?at n = EmptyBucket" "\<And>m. m < n \<Longrightarrow> table ! ?at m \<noteq> EmptyBucket"
    using first_stop [of "\<lambda>n. table ! ?at n = EmptyBucket" n0] by blast
  have "passed (ht_extract tr) key (table ! ?at m)" if "m < n" for m
  proof (rule ccontr)
    assume "\<not> passed (ht_extract tr) key (table ! ?at m)"
    with n(2) [OF that] obtain v where v: "table ! ?at m = Live v" "ht_extract tr v = key"
      by (auto simp: not_passed)
    have "?at m < length table" by (rule probe_at_less) (use i in auto)
    with v(1) have "v \<in> set (table_values table)" unfolding set_table_values by blast
    with v(2) absent show False by blast
  qed
  with n(1) that show thesis by blast
qed

lemma lookup_loop_present:
  assumes "table_ok tr table" "i < length table" "table ! i = Live v" "ht_extract tr v = key"
  shows "lookup_loop (ht_extract tr) table key (ht_hash tr key)
    (probe_at (ht_hash tr key) (length table) 0) 0 = Some (Some i)"
proof -
  obtain n where n: "probe_at (ht_hash tr key) (length table) n = i"
    "\<And>m. m < n \<Longrightarrow> passed (ht_extract tr) key (table ! probe_at (ht_hash tr key) (length table) m)"
    using probe_reaches_key [OF assms(1-3)] assms(4) by blast
  with lookup_loop_run [of 0 n "ht_extract tr" key table "ht_hash tr key"] assms(3,4)
  show ?thesis by (simp add: not_passed)
qed

lemma lookup_loop_absent:
  assumes "table_ok tr table" "\<exists>i < length table. table ! i = EmptyBucket" "key \<notin> table_keys tr table"
  shows "lookup_loop (ht_extract tr) table key (ht_hash tr key)
    (probe_at (ht_hash tr key) (length table) 0) 0 = Some None"
proof -
  obtain n where n: "table ! probe_at (ht_hash tr key) (length table) n = EmptyBucket"
    "\<And>m. m < n \<Longrightarrow> passed (ht_extract tr) key (table ! probe_at (ht_hash tr key) (length table) m)"
    using probe_reaches_empty [OF assms] by blast
  with lookup_loop_run [of 0 n "ht_extract tr" key table "ht_hash tr key"]
  show ?thesis by (simp add: not_passed)
qed

lemma writing_loop_present:
  assumes "table_ok tr table" "i < length table" "table ! i = Live v" "ht_extract tr v = key"
  shows "writing_loop (ht_extract tr) table key (ht_hash tr key)
    (probe_at (ht_hash tr key) (length table) 0) 0 None = Some (i, True)"
proof -
  obtain n where n: "probe_at (ht_hash tr key) (length table) n = i"
    "\<And>m. m < n \<Longrightarrow> passed (ht_extract tr) key (table ! probe_at (ht_hash tr key) (length table) m)"
    using probe_reaches_key [OF assms(1-3)] assms(4) by blast
  with writing_loop_found [of 0 n "ht_extract tr" key table "ht_hash tr key" v None] assms(3,4)
  show ?thesis by simp
qed

text \<open>Where a new value may be put so that probing for its key finds it.\<close>

definition free_slot :: "('k, 'v) HashTraits \<Rightarrow> 'v Bucket list \<Rightarrow> 'k \<Rightarrow> nat \<Rightarrow> bool" where
  "free_slot tr table key d \<longleftrightarrow> d < length table \<and> table ! d \<in> {EmptyBucket, DeletedBucket} \<and>
     reached tr table d key"

lemma writing_loop_absent:
  assumes "table_ok tr table" "\<exists>i < length table. table ! i = EmptyBucket" "key \<notin> table_keys tr table"
  obtains d where "writing_loop (ht_extract tr) table key (ht_hash tr key)
      (probe_at (ht_hash tr key) (length table) 0) 0 None = Some (d, False)" "free_slot tr table key d"
proof -
  let ?at = "probe_at (ht_hash tr key) (length table)"
  obtain n where n: "table ! ?at n = EmptyBucket"
    "\<And>m. m < n \<Longrightarrow> passed (ht_extract tr) key (table ! ?at m)"
    using probe_reaches_empty [OF assms] by blast
  from writing_loop_free [of 0 n "ht_extract tr" key table "ht_hash tr key" None] n
  obtain m where m: "m \<le> n" "table ! ?at m \<in> {EmptyBucket, DeletedBucket}"
    "writing_loop (ht_extract tr) table key (ht_hash tr key) (?at 0) 0 None = Some (?at m, False)"
    by auto
  have "table ! ?at m' \<noteq> EmptyBucket" if "m' < m" for m'
    using n(2) [of m'] that m(1) by (auto simp: passed_def)
  moreover have "0 < length table" using assms(2) by auto
  ultimately have "free_slot tr table key (?at m)"
    using m(2) by (auto simp: free_slot_def reached_def)
  with m(3) that show thesis by blast
qed

lemma unique_loop_absent:
  assumes "table_ok tr table" "\<exists>i < length table. table ! i = EmptyBucket" "key \<notin> table_keys tr table"
  obtains d where "unique_loop table (ht_hash tr key)
      (probe_at (ht_hash tr key) (length table) 0) 0 = Some d" "free_slot tr table key d"
    "table ! d = EmptyBucket"
proof -
  let ?at = "probe_at (ht_hash tr key) (length table)"
  obtain n where n: "table ! ?at n = EmptyBucket"
    "\<And>m. m < n \<Longrightarrow> passed (ht_extract tr) key (table ! ?at m)"
    using probe_reaches_empty [OF assms] by blast
  then have ne: "table ! ?at m \<noteq> EmptyBucket" if "m < n" for m using that by (fastforce simp: passed_def)
  then have "unique_loop table (ht_hash tr key) (?at 0) 0 = Some (?at n)"
    using unique_loop_run [of 0 n table "ht_hash tr key"] n(1) by simp
  moreover have "0 < length table" using assms(2) by auto
  ultimately show thesis using that [of "?at n"] n(1) ne by (auto simp: free_slot_def reached_def)
qed

lemma reached_update:
  assumes "reached tr table i key" and "b \<noteq> EmptyBucket"
  shows "reached tr (table[j := b]) i key"
proof -
  let ?at = "probe_at (ht_hash tr key) (length table)"
  from assms(1) obtain n where n: "?at n = i" "\<And>m. m < n \<Longrightarrow> table ! ?at m \<noteq> EmptyBucket"
    by (auto simp: reached_def)
  have "table[j := b] ! ?at m \<noteq> EmptyBucket" if "m < n" for m
    using n(2) [OF that] assms(2) by (cases "j < length table"; cases "?at m = j") (auto simp: list_update_beyond)
  with n(1) show ?thesis by (auto simp: reached_def)
qed

lemma table_insert:
  assumes ok: "table_ok tr table" and free: "free_slot tr table (ht_extract tr v) d"
    and absent: "ht_extract tr v \<notin> table_keys tr table"
  shows "table_ok tr (table[d := Live v])"
    and "mset (table_values (table[d := Live v])) = add_mset v (mset (table_values table))"
    and "deleted_buckets (table[d := Live v]) + (if table ! d = DeletedBucket then 1 else 0)
           = deleted_buckets table"
proof -
  have d: "d < length table" "bucket_list (table ! d) = []" using free by (auto simp: free_slot_def)
  show mset: "mset (table_values (table[d := Live v])) = add_mset v (mset (table_values table))"
    using mset_table_update [OF d(1), of "Live v"] d(2) by simp
  have "mset (map (ht_extract tr) (table_values (table[d := Live v])))
      = mset (map (ht_extract tr) (v # table_values table))"
    using mset by (simp only: mset_map mset.simps)
  from mset_eq_imp_distinct_iff [OF this]
  have "distinct (map (ht_extract tr) (table_values (table[d := Live v])))"
    using ok absent by (simp add: table_ok_def)
  moreover have "reached tr (table[d := Live v]) i (ht_extract tr w)"
    if "i < length table" "table[d := Live v] ! i = Live w" for i w
  proof (cases "i = d")
    case True
    with that d free show ?thesis by (auto simp: free_slot_def intro: reached_update)
  next
    case False
    with that ok show ?thesis by (auto simp: table_ok_def intro: reached_update)
  qed
  ultimately show "table_ok tr (table[d := Live v])" using ok by (simp add: table_ok_def)
  show "deleted_buckets (table[d := Live v]) + (if table ! d = DeletedBucket then 1 else 0)
           = deleted_buckets table"
    using deleted_table_update [OF d(1), of "Live v"] by simp
qed

lemma table_delete:
  assumes ok: "table_ok tr table" and i: "i < length table" "table ! i = Live v"
  shows "table_ok tr (table[i := DeletedBucket])"
    and "add_mset v (mset (table_values (table[i := DeletedBucket]))) = mset (table_values table)"
    and "deleted_buckets (table[i := DeletedBucket]) = Suc (deleted_buckets table)"
proof -
  show mset: "add_mset v (mset (table_values (table[i := DeletedBucket]))) = mset (table_values table)"
    using mset_table_update [OF i(1), of DeletedBucket] i(2) by simp
  have "distinct (map (ht_extract tr) (table_values (table[i := DeletedBucket])))"
  proof -
    have "mset (map (ht_extract tr) (v # table_values (table[i := DeletedBucket])))
        = mset (map (ht_extract tr) (table_values table))"
      using mset by (simp only: mset_map mset.simps)
    from mset_eq_imp_distinct_iff [OF this] show ?thesis using ok by (simp add: table_ok_def)
  qed
  moreover have "reached tr (table[i := DeletedBucket]) j (ht_extract tr w)"
    if "j < length table" "table[i := DeletedBucket] ! j = Live w" for j w
    using that ok i by (cases "i = j") (auto simp: table_ok_def intro: reached_update)
  ultimately show "table_ok tr (table[i := DeletedBucket])" using ok by (simp add: table_ok_def)
  show "deleted_buckets (table[i := DeletedBucket]) = Suc (deleted_buckets table)"
    using deleted_table_update [OF i(1), of DeletedBucket] i(2) by simp
qed

section \<open>The invariant\<close>

definition traits_ok :: "('k, 'v) HashTraits \<Rightarrow> bool" where
  "traits_ok tr \<longleftrightarrow> pow2 (minimumTableSize tr) \<and> 2 \<le> minimumTableSize tr \<and> arithmetic tr = Unbounded"

lemma traits_ok_arithmetic: "traits_ok tr \<Longrightarrow> arithmetic tr = Unbounded"
  by (simp add: traits_ok_def)

lemma unbounded [simp]: "wrapped Unbounded n = n" "decremented Unbounded n = n - 1" "roundedUp Unbounded n = pow2_ceiling n"
  by (simp_all add: wrapped_def decremented_def roundedUp_def)

definition ht_wf :: "('k, 'v) HashTraits \<Rightarrow> 'v HashTable \<Rightarrow> bool" where
  "ht_wf tr t \<longleftrightarrow>
     m_keyCount t = length (ht_values t) \<and> m_deletedCount t = deleted_buckets (m_table t) \<and>
     (m_table t \<noteq> [] \<longrightarrow>
        table_ok tr (m_table t) \<and> (m_keyCount t + m_deletedCount t) * maxLoad < m_tableSize t \<and>
        minimumTableSize tr \<le> m_tableSize t)"

definition ht_keys :: "('k, 'v) HashTraits \<Rightarrow> 'v HashTable \<Rightarrow> 'k set" where
  "ht_keys tr t = ht_extract tr ` set (ht_values t)"

lemma ht_wf_empty: "ht_wf tr ht_empty" "ht_values ht_empty = []"
  by (simp_all add: ht_wf_def ht_empty_def ht_values_def)

lemma ht_wf_has_empty:
  assumes "ht_wf tr t" "m_table t \<noteq> []"
  shows "\<exists>i < m_tableSize t. m_table t ! i = EmptyBucket"
  by (rule empty_bucket_exists)
    (use assms in \<open>auto simp: ht_wf_def maxLoad_def ht_values_def\<close>)

lemma reinsert_ok:
  assumes ok: "table_ok tr (m_table t)" and del: "deleted_buckets (m_table t) = 0"
    and len: "length (ht_values t) < m_tableSize t" and new: "ht_extract tr v \<notin> ht_keys tr t"
  obtains d where "reinsert tr v t = Some (t\<lparr>m_table := (m_table t)[d := Live v]\<rparr>, d)"
    "d < m_tableSize t" "m_table t ! d = EmptyBucket"
    "table_ok tr ((m_table t)[d := Live v])" "deleted_buckets ((m_table t)[d := Live v]) = 0"
    "mset (table_values ((m_table t)[d := Live v])) = add_mset v (mset (ht_values t))"
proof -
  have "\<exists>i < m_tableSize t. m_table t ! i = EmptyBucket"
    by (rule empty_bucket_exists) (use del len in \<open>simp add: ht_values_def\<close>)
  from writing_loop_absent [OF ok this] new obtain d where
    d: "writing_loop (ht_extract tr) (m_table t) (ht_extract tr v) (ht_hash tr (ht_extract tr v))
      (probe_at (ht_hash tr (ht_extract tr v)) (m_tableSize t) 0) 0 None = Some (d, False)"
    "free_slot tr (m_table t) (ht_extract tr v) d"
    by (auto simp: ht_keys_def ht_values_def)
  have "\<not> m_table t ! d = DeletedBucket"
    using d(2) del by (auto simp: free_slot_def filter_empty_conv)
  then have e: "d < m_tableSize t" "m_table t ! d = EmptyBucket" using d(2) by (auto simp: free_slot_def)
  note ins = table_insert [OF ok d(2)]
  show thesis
    by (rule that [of d]) (use d e ins del new in \<open>auto simp: reinsert_def lookupForWriting_def
        Let_def ht_keys_def ht_values_def\<close>)
qed

lemma rehash_loop_ok:
  assumes "table_ok tr (m_table t)" "deleted_buckets (m_table t) = 0"
    "length (ht_values t) + length (table_values old) < m_tableSize t"
    "distinct (map (ht_extract tr) (ht_values t @ table_values old))"
  shows "\<exists>t' e. rehash_loop tr old i entry t ne = Some (t', e) \<and> table_ok tr (m_table t') \<and>
    deleted_buckets (m_table t') = 0 \<and> m_tableSize t' = m_tableSize t \<and> m_keyCount t' = m_keyCount t \<and>
    mset (ht_values t') = mset (ht_values t) + mset (table_values old)"
  using assms
proof (induction old arbitrary: t i ne)
  case (Cons b old)
  show ?case
  proof (cases b)
    case (Live v)
    let ?t = "\<lambda>d. t\<lparr>m_table := (m_table t)[d := Live v]\<rparr>"
    have "ht_extract tr v \<notin> ht_keys tr t" "length (ht_values t) < m_tableSize t"
      using Cons.prems Live by (auto simp: ht_keys_def)
    from reinsert_ok [OF Cons.prems(1,2) this(2,1)] obtain d where
      d: "reinsert tr v t = Some (?t d, d)" "table_ok tr (m_table (?t d))" "deleted_buckets (m_table (?t d)) = 0"
        and ms: "mset (ht_values (?t d)) = add_mset v (mset (ht_values t))"
      by (auto simp: ht_values_def)
    have "mset (map (ht_extract tr) (ht_values (?t d) @ table_values old))
        = mset (map (ht_extract tr) (ht_values t @ table_values (b # old)))"
      using ms by (simp add: Live)
    from mset_eq_imp_distinct_iff [OF this] Cons.prems(4)
    have "distinct (map (ht_extract tr) (ht_values (?t d) @ table_values old))" by simp
    moreover have "length (ht_values (?t d)) = Suc (length (ht_values t))"
      using ms by (metis size_add_mset size_mset)
    then have "length (ht_values (?t d)) + length (table_values old) < m_tableSize (?t d)"
      using Cons.prems(3) by (simp add: Live)
    ultimately show ?thesis
      using Cons.IH [OF d(2,3), of "i + 1" "if entry = Some i then Some d else ne"] d(1) ms
      by (auto simp: Live)
  qed (use Cons in auto)
qed auto

lemma table_ok_allocate:
  assumes "pow2 n" shows "table_ok tr (allocateTable n)" "table_values (allocateTable n) = []"
    "deleted_buckets (allocateTable n) = 0" "length (allocateTable n) = n"
  using assms by (simp_all add: table_ok_def allocateTable_def)

lemma rehash_ok:
  assumes "table_ok tr (m_table t) \<or> m_table t = []" "pow2 n" "2 * length (ht_values t) < n"
    and "minimumTableSize tr \<le> n" and "m_keyCount t = length (ht_values t)"
  shows "\<exists>t' e. rehash tr n entry t = Some (t', e) \<and> ht_wf tr t' \<and> m_tableSize t' = n \<and>
    mset (ht_values t') = mset (ht_values t)"
proof -
  let ?t = "t\<lparr>m_table := allocateTable n\<rparr>"
  have "distinct (map (ht_extract tr) (table_values (m_table t)))"
    using assms(1) by (auto simp: table_ok_def)
  then obtain t' e where t': "rehash_loop tr (m_table t) 0 entry ?t None = Some (t', e)"
    "table_ok tr (m_table t')" "deleted_buckets (m_table t') = 0" "m_tableSize t' = n"
    "m_keyCount t' = m_keyCount t" "mset (ht_values t') = mset (ht_values t)"
    using rehash_loop_ok [of tr ?t "m_table t" 0 entry None] assms
    by (auto simp: table_ok_allocate ht_values_def)
  then have "length (ht_values t') = length (ht_values t)" by (metis size_mset)
  with t' assms show ?thesis
    by (auto simp: rehash_def ht_wf_def maxLoad_def ht_values_def)
qed

section \<open>The operations keep the invariant\<close>

lemma filter_mset_all: "(\<And>x. x \<in># M \<Longrightarrow> P x) \<Longrightarrow> filter_mset P M = M"
  by (auto simp: filter_mset_eq_conv)

lemma ht_keys_distinct: "ht_wf tr t \<Longrightarrow> distinct (map (ht_extract tr) (ht_values t))"
  by (cases "m_table t = []") (auto simp: ht_wf_def table_ok_def ht_values_def)

lemma ht_lookup_ok:
  assumes "ht_wf tr t"
  shows "\<exists>r. ht_lookup tr t key = Some r \<and>
    (case r of None \<Rightarrow> key \<notin> ht_keys tr t
     | Some i \<Rightarrow> i < m_tableSize t \<and> (\<exists>v. m_table t ! i = Live v \<and> ht_extract tr v = key))"
proof (cases "m_table t = []")
  case True
  then show ?thesis by (simp add: ht_lookup_def ht_keys_def ht_values_def)
next
  case False
  with assms have ok: "table_ok tr (m_table t)" by (simp add: ht_wf_def)
  show ?thesis
  proof (cases "key \<in> ht_keys tr t")
    case True
    then obtain i v where "i < m_tableSize t" "m_table t ! i = Live v" "ht_extract tr v = key"
      by (auto simp: ht_keys_def ht_values_def set_table_values simp del: set_concat)
    with lookup_loop_present [OF ok] False show ?thesis by (auto simp: ht_lookup_def Let_def)
  next
    case absent: False
    with lookup_loop_absent [OF ok ht_wf_has_empty [OF assms False], of key] False
    show ?thesis by (auto simp: ht_lookup_def Let_def ht_keys_def ht_values_def)
  qed
qed

lemma ht_contains_ok: "ht_wf tr t \<Longrightarrow> ht_contains tr t key = Some (key \<in> ht_keys tr t)"
proof -
  assume wf: "ht_wf tr t"
  obtain r where r: "ht_lookup tr t key = Some r"
    "case r of None \<Rightarrow> key \<notin> ht_keys tr t
     | Some i \<Rightarrow> i < m_tableSize t \<and> (\<exists>v. m_table t ! i = Live v \<and> ht_extract tr v = key)"
    using ht_lookup_ok [OF wf] by blast
  have "r \<noteq> None \<longleftrightarrow> key \<in> ht_keys tr t"
    using r(2) set_table_values [of "m_table t"]
    by (force simp: ht_keys_def ht_values_def split: option.splits simp del: set_concat)
  with r show ?thesis by (cases "m_table t = []") (auto simp: ht_contains_def ht_keys_def ht_values_def)
qed

lemma expand_initial:
  assumes "traits_ok tr" "ht_wf tr t" "m_table t = []"
  shows "\<exists>t' e. expand tr None t = Some (t', e) \<and> ht_wf tr t' \<and> m_table t' \<noteq> [] \<and> ht_values t' = [] \<and>
    m_tableSize t' = minimumTableSize tr"
proof -
  have v: "ht_values t = []" using assms(3) by (simp add: ht_values_def)
  with assms obtain t' e where "rehash tr (minimumTableSize tr) None t = Some (t', e)" "ht_wf tr t'"
      "m_tableSize t' = minimumTableSize tr" "mset (ht_values t') = mset (ht_values t)"
    using rehash_ok [of tr t "minimumTableSize tr" None] by (auto simp: traits_ok_def ht_wf_def)
  with assms v show ?thesis by (auto simp: expand_def traits_ok_def)
qed

lemma expand_ok:
  assumes ok: "table_ok tr (m_table t)" and n: "m_keyCount t = length (ht_values t)"
    and min: "minimumTableSize tr \<le> m_tableSize t" "2 \<le> m_tableSize t"
    and load: "2 * length (ht_values t) < m_tableSize t + 2" and ideal: "arithmetic tr = Unbounded"
  shows "\<exists>t' e. expand tr entry t = Some (t', e) \<and> ht_wf tr t' \<and> mset (ht_values t') = mset (ht_values t)"
proof -
  let ?n = "if mustRehashInPlace tr t then m_tableSize t else m_tableSize t * 2"
  have "pow2 (m_tableSize t)" using ok by (simp add: table_ok_def)
  then have "pow2 ?n" by (auto simp: pow2_def intro: exI [of _ "Suc _"])
  moreover have "2 * length (ht_values t) < ?n"
    using load n min(2) ideal by (auto simp: mustRehashInPlace_def minLoad_def)
  moreover have "minimumTableSize tr \<le> ?n" using min(1) by simp
  moreover have "expand tr entry t = rehash tr ?n entry t"
    using min(2) ideal by (auto simp: expand_def Let_def)
  ultimately show ?thesis using rehash_ok [of tr t ?n entry] ok n by auto
qed

lemma ht_add_present:
  assumes "ht_wf tr t" "m_table t \<noteq> []" "key \<in> ht_keys tr t"
  shows "\<exists>i. ht_add tr key v t = Some (t, Some i, False)"
proof -
  have ok: "table_ok tr (m_table t)" using assms by (simp add: ht_wf_def)
  obtain i w where "i < m_tableSize t" "m_table t ! i = Live w" "ht_extract tr w = key"
    using assms(3) by (auto simp: ht_keys_def ht_values_def set_table_values simp del: set_concat)
  with writing_loop_present [OF ok] assms(2) show ?thesis by (auto simp: ht_add_def Let_def)
qed

lemma ht_add_absent:
  assumes wf: "ht_wf tr t" and ne: "m_table t \<noteq> []" and new: "key \<notin> ht_keys tr t"
    and v: "ht_extract tr v = key" and tr: "traits_ok tr"
  shows "\<exists>t' e. ht_add tr key v t = Some (t', e, True) \<and> ht_wf tr t' \<and>
    mset (ht_values t') = add_mset v (mset (ht_values t))"
proof -
  have ok: "table_ok tr (m_table t)" and load: "(m_keyCount t + m_deletedCount t) * maxLoad < m_tableSize t"
    and min: "minimumTableSize tr \<le> m_tableSize t" using wf ne by (auto simp: ht_wf_def)
  have two: "2 \<le> m_tableSize t" using tr min by (simp add: traits_ok_def)
  have absent: "key \<notin> table_keys tr (m_table t)" using new by (simp add: ht_keys_def ht_values_def)
  obtain d where d: "writing_loop (ht_extract tr) (m_table t) key (ht_hash tr key)
      (probe_at (ht_hash tr key) (m_tableSize t) 0) 0 None = Some (d, False)"
    and free: "free_slot tr (m_table t) key d"
    using writing_loop_absent [OF ok ht_wf_has_empty [OF wf ne] absent] by blast
  define t' where "t' = t\<lparr>m_table := (m_table t)[d := Live v],
      m_deletedCount := (if m_table t ! d = DeletedBucket then m_deletedCount t - 1 else m_deletedCount t),
      m_keyCount := m_keyCount t + 1\<rparr>"
  note ins = table_insert [OF ok free [folded v] absent [folded v]]
  have ok': "table_ok tr (m_table t')" and ms: "mset (ht_values t') = add_mset v (mset (ht_values t))"
    and size': "m_tableSize t' = m_tableSize t"
    using ins by (simp_all add: t'_def ht_values_def)
  have len: "length (ht_values t') = Suc (length (ht_values t))" using ms by (metis size_add_mset size_mset)
  have counts: "m_keyCount t' = length (ht_values t')" "m_deletedCount t' = deleted_buckets (m_table t')"
    using wf ins(3) len by (auto simp: t'_def ht_wf_def split: if_splits)
  have add: "ht_add tr key v t = (if shouldExpand tr t' then do {
       (t'', entry') \<leftarrow> expand tr (Some d) t'; Some (t'', entry', True) } else Some (t', Some d, True))"
    using d ne traits_ok_arithmetic [OF tr] by (simp add: ht_add_def Let_def t'_def)
  show ?thesis
  proof (cases "shouldExpand tr t'")
    case True
    have "2 * length (ht_values t') < m_tableSize t' + 2"
      using load len size' wf by (auto simp: maxLoad_def ht_wf_def)
    from expand_ok [OF ok' counts(1) _ _ this traits_ok_arithmetic [OF tr], of "Some d"] obtain t'' e where
      "expand tr (Some d) t' = Some (t'', e)" "ht_wf tr t''" "mset (ht_values t'') = mset (ht_values t')"
      using min two size' by auto
    with True ms show ?thesis by (simp add: add)
  next
    case False
    with ok' counts size' min traits_ok_arithmetic [OF tr] have "ht_wf tr t'" by (simp add: ht_wf_def shouldExpand_def)
    with False ms show ?thesis by (simp add: add)
  qed
qed

lemma ht_add_ok:
  assumes tr: "traits_ok tr" and wf: "ht_wf tr t" and v: "ht_extract tr v = key"
  shows "\<exists>t' e. ht_add tr key v t = Some (t', e, key \<notin> ht_keys tr t) \<and> ht_wf tr t' \<and>
    mset (ht_values t') = (if key \<in> ht_keys tr t then mset (ht_values t) else add_mset v (mset (ht_values t)))"
proof (cases "m_table t = []")
  case True
  obtain t0 e0 where t0: "expand tr None t = Some (t0, e0)" "ht_wf tr t0" "m_table t0 \<noteq> []" "ht_values t0 = []"
    using expand_initial [OF tr wf True] by blast
  have none: "key \<notin> ht_keys tr t0" "key \<notin> ht_keys tr t" "ht_values t = []"
    using t0 True by (simp_all add: ht_keys_def ht_values_def)
  have "ht_add tr key v t = ht_add tr key v t0" using True t0 by (simp add: ht_add_def)
  with ht_add_absent [OF t0(2,3) none(1) v tr] t0 none show ?thesis by simp
next
  case False
  show ?thesis
  proof (cases "key \<in> ht_keys tr t")
    case True
    with ht_add_present [OF wf False True, of v] wf show ?thesis by auto
  next
    case absent: False
    with ht_add_absent [OF wf False absent v tr] show ?thesis by simp
  qed
qed

lemma addPassingHashCode_eq:
  "addPassingHashCode tr key translate t = ht_add tr key (translate (ht_hash tr key)) t"
  by (cases "if m_table t = [] then expand tr None t else Some (t, None)")
    (auto simp: addPassingHashCode_def ht_add_def fullLookupForWriting_def Let_def
      split: prod.splits Option.bind_splits)

lemma shrink_ok:
  assumes "table_ok tr (m_table t)" "m_keyCount t = length (ht_values t)" "shouldShrink tr t" "traits_ok tr"
  shows "\<exists>t'. shrink tr t = Some t' \<and> ht_wf tr t' \<and> mset (ht_values t') = mset (ht_values t)"
proof -
  from assms(1,4) obtain p q where p: "m_tableSize t = 2 ^ p" and q: "minimumTableSize tr = 2 ^ q"
    by (auto simp: table_ok_def pow2_def traits_ok_def)
  have "(2::nat) ^ q < 2 ^ p" using assms(3) p q by (simp add: shouldShrink_def)
  then have "q < p" by simp
  then obtain r where r: "p = Suc r" "q \<le> r" by (cases p) auto
  have "pow2 (m_tableSize t div 2)" "minimumTableSize tr \<le> m_tableSize t div 2"
    using p q r by (auto simp: pow2_def)
  moreover have "2 * length (ht_values t) < m_tableSize t div 2"
    using assms(2,3) p r traits_ok_arithmetic [OF assms(4)] by (auto simp: shouldShrink_def minLoad_def)
  ultimately show ?thesis
    using rehash_ok [of tr t "m_tableSize t div 2" None] assms(1,2) by (auto simp: shrink_def)
qed

lemma ht_removeAt_ok:
  assumes tr: "traits_ok tr" and wf: "ht_wf tr t" and i: "i < m_tableSize t" "m_table t ! i = Live v"
  shows "\<exists>t'. ht_removeAt tr i t = Some t' \<and> ht_wf tr t' \<and>
    add_mset v (mset (ht_values t')) = mset (ht_values t)"
proof -
  have ok: "table_ok tr (m_table t)" and load: "(m_keyCount t + m_deletedCount t) * maxLoad < m_tableSize t"
    and min: "minimumTableSize tr \<le> m_tableSize t" using wf i by (auto simp: ht_wf_def)
  define t' where "t' = t\<lparr>m_table := (m_table t)[i := DeletedBucket],
                 m_deletedCount := m_deletedCount t + 1, m_keyCount := m_keyCount t - 1\<rparr>"
  note del = table_delete [OF ok i]
  have ok': "table_ok tr (m_table t')" and ms: "add_mset v (mset (ht_values t')) = mset (ht_values t)"
    using del by (simp_all add: t'_def ht_values_def)
  then have len: "length (ht_values t) = Suc (length (ht_values t'))" by (metis size_add_mset size_mset)
  have counts: "m_keyCount t' = length (ht_values t')" "m_deletedCount t' = deleted_buckets (m_table t')"
    using wf del(3) len by (auto simp: t'_def ht_wf_def)
  have rm: "ht_removeAt tr i t = (if shouldShrink tr t' then shrink tr t' else Some t')"
    using traits_ok_arithmetic [OF tr] by (simp add: ht_removeAt_def Let_def t'_def)
  show ?thesis
  proof (cases "shouldShrink tr t'")
    case True
    from shrink_ok [OF ok' counts(1) True tr] True ms show ?thesis by (auto simp: rm)
  next
    case False
    have "m_keyCount t' + m_deletedCount t' = m_keyCount t + m_deletedCount t" "m_tableSize t' = m_tableSize t"
      using wf len by (auto simp: t'_def ht_wf_def)
    with load have "(m_keyCount t' + m_deletedCount t') * maxLoad < m_tableSize t'" by simp
    with ok' counts min have "ht_wf tr t'" by (auto simp: ht_wf_def t'_def)
    with False ms show ?thesis by (simp add: rm)
  qed
qed

lemma ht_remove_ok:
  assumes tr: "traits_ok tr" and wf: "ht_wf tr t"
  shows "\<exists>t'. ht_remove tr key t = Some t' \<and> ht_wf tr t' \<and>
    mset (ht_values t') = filter_mset (\<lambda>v. ht_extract tr v \<noteq> key) (mset (ht_values t))"
proof -
  obtain r where r: "ht_lookup tr t key = Some r"
    "case r of None \<Rightarrow> key \<notin> ht_keys tr t
     | Some i \<Rightarrow> i < m_tableSize t \<and> (\<exists>v. m_table t ! i = Live v \<and> ht_extract tr v = key)"
    using ht_lookup_ok [OF wf] by blast
  have find: "ht_find tr t key = Some r"
    using r by (cases "m_table t = []") (auto simp: ht_find_def split: option.splits)
  show ?thesis
  proof (cases r)
    case None
    with r(2) have "filter_mset (\<lambda>v. ht_extract tr v \<noteq> key) (mset (ht_values t)) = mset (ht_values t)"
      by (intro filter_mset_all) (auto simp: ht_keys_def)
    with None find wf show ?thesis by (simp add: ht_remove_def)
  next
    case (Some i)
    with r(2) obtain v where v: "i < m_tableSize t" "m_table t ! i = Live v" "ht_extract tr v = key" by auto
    obtain t' where t': "ht_removeAt tr i t = Some t'" "ht_wf tr t'"
      "add_mset v (mset (ht_values t')) = mset (ht_values t)"
      using ht_removeAt_ok [OF tr wf v(1,2)] by blast
    have "mset (map (ht_extract tr) (v # ht_values t')) = mset (map (ht_extract tr) (ht_values t))"
      using t'(3) by (simp only: mset_map mset.simps)
    from mset_eq_imp_distinct_iff [OF this] ht_keys_distinct [OF wf]
    have "ht_extract tr v \<notin> ht_extract tr ` set (ht_values t')" by simp
    then have "filter_mset (\<lambda>v. ht_extract tr v \<noteq> key) (mset (ht_values t')) = mset (ht_values t')"
      using v(3) by (intro filter_mset_all) (metis image_eqI set_mset_mset)
    with t' v Some find show ?thesis by (simp add: ht_remove_def flip: t'(3))
  qed
qed

text \<open>\<^verbatim>\<open>removeIf\<close>: the counts and the table before it may shrink.\<close>

definition counted :: "('k, 'v) HashTraits \<Rightarrow> 'v HashTable \<Rightarrow> bool" where
  "counted tr t \<longleftrightarrow> table_ok tr (m_table t) \<and> m_keyCount t = length (ht_values t) \<and>
     m_deletedCount t = deleted_buckets (m_table t)"

lemma counted_delete:
  assumes "counted tr t" "i < m_tableSize t" "m_table t ! i = Live v"
  defines "t' \<equiv> t\<lparr>m_table := (m_table t)[i := DeletedBucket],
                 m_deletedCount := m_deletedCount t + 1, m_keyCount := m_keyCount t - 1\<rparr>"
  shows "counted tr t'" "add_mset v (mset (ht_values t')) = mset (ht_values t)"
    "m_keyCount t' + m_deletedCount t' = m_keyCount t + m_deletedCount t"
proof -
  note del = table_delete [OF _ assms(2,3), of tr]
  show ms: "add_mset v (mset (ht_values t')) = mset (ht_values t)"
    using del assms(1) by (simp add: t'_def ht_values_def counted_def)
  then have "length (ht_values t) = Suc (length (ht_values t'))" by (metis size_add_mset size_mset)
  then show "counted tr t'" "m_keyCount t' + m_deletedCount t' = m_keyCount t + m_deletedCount t"
    using del assms(1) by (auto simp: t'_def counted_def)
qed

lemma removeIf_loop_ok:
  assumes "arithmetic tr = Unbounded" "counted tr t" "n \<le> m_tableSize t"
    and "\<And>i v. n \<le> i \<Longrightarrow> i < m_tableSize t \<Longrightarrow> m_table t ! i = Live v \<Longrightarrow> \<not> f v"
  shows "counted tr (removeIf_loop tr f n t) \<and> m_tableSize (removeIf_loop tr f n t) = m_tableSize t \<and>
    m_keyCount (removeIf_loop tr f n t) + m_deletedCount (removeIf_loop tr f n t) = m_keyCount t + m_deletedCount t \<and>
    mset (ht_values (removeIf_loop tr f n t)) = filter_mset (\<lambda>v. \<not> f v) (mset (ht_values t))"
  using assms(2-)
proof (induction n arbitrary: t)
  case 0
  then have "\<not> f v" if "v \<in> set (ht_values t)" for v
    using that by (auto simp: ht_values_def set_table_values simp del: set_concat)
  then have "filter_mset (\<lambda>v. \<not> f v) (mset (ht_values t)) = mset (ht_values t)"
    by (intro filter_mset_all) auto
  with 0 show ?case by simp
next
  case (Suc n)
  show ?case
  proof (cases "\<exists>v. m_table t ! n = Live v \<and> f v")
    case True
    then obtain v where v: "m_table t ! n = Live v" "f v" by blast
    let ?t = "t\<lparr>m_table := (m_table t)[n := DeletedBucket],
                 m_deletedCount := m_deletedCount t + 1, m_keyCount := m_keyCount t - 1\<rparr>"
    note del = counted_delete [OF Suc.prems(1) _ v(1)]
    have "\<not> f w" if "n \<le> i" "i < m_tableSize ?t" "m_table ?t ! i = Live w" for i w
      using that Suc.prems(3) [of i w] Suc.prems(2) by (cases "i = n") auto
    with Suc.IH [of ?t] Suc.prems(2) del v assms(1) show ?thesis by (simp flip: del(2))
  next
    case False
    have "\<not> f w" if "n \<le> i" "i < m_tableSize t" "m_table t ! i = Live w" for i w
      using that Suc.prems(3) [of i w] False by (cases "i = n") auto
    moreover have "removeIf_loop tr f (Suc n) t = removeIf_loop tr f n t"
      using False by (auto split: Bucket.splits)
    ultimately show ?thesis using Suc.IH [of t] Suc.prems(1,2) by simp
  qed
qed

lemma ht_removeIf_ok:
  assumes tr: "traits_ok tr" and wf: "ht_wf tr t"
  shows "\<exists>t'. ht_removeIf tr f t = Some t' \<and> ht_wf tr t' \<and>
    mset (ht_values t') = filter_mset (\<lambda>v. \<not> f v) (mset (ht_values t))"
proof (cases "m_table t = []")
  case True
  with wf show ?thesis by (simp add: ht_removeIf_def shouldShrink_def ht_values_def)
next
  case False
  then have c: "counted tr t" "(m_keyCount t + m_deletedCount t) * maxLoad < m_tableSize t" "minimumTableSize tr \<le> m_tableSize t"
    using wf by (auto simp: ht_wf_def counted_def)
  let ?t = "removeIf_loop tr f (m_tableSize t) t"
  have r: "counted tr ?t" "m_tableSize ?t = m_tableSize t"
    "m_keyCount ?t + m_deletedCount ?t = m_keyCount t + m_deletedCount t"
    "mset (ht_values ?t) = filter_mset (\<lambda>v. \<not> f v) (mset (ht_values t))"
    using removeIf_loop_ok [OF traits_ok_arithmetic [OF tr] c(1), of "m_tableSize t" f] by auto
  show ?thesis
  proof (cases "shouldShrink tr ?t")
    case True
    with shrink_ok [OF _ _ True tr] r show ?thesis by (auto simp: ht_removeIf_def counted_def)
  next
    case False
    with r c have "ht_wf tr ?t" by (auto simp: counted_def ht_wf_def)
    with False r show ?thesis by (simp add: ht_removeIf_def)
  qed
qed

lemma pow2_from_ok:
  "v \<le> p * 2 ^ fuel \<Longrightarrow> v \<le> pow2_from fuel p v \<and> (\<exists>k. pow2_from fuel p v = p * 2 ^ k)"
proof (induction fuel p v rule: pow2_from.induct)
  case (1 p v)
  then show ?case by (auto intro: exI [of _ 0])
next
  case (2 fuel p v)
  show ?case
  proof (cases "v \<le> p")
    case True
    then show ?thesis by (auto intro: exI [of _ 0])
  next
    case False
    with 2 obtain k where "v \<le> pow2_from fuel (2 * p) v" "pow2_from fuel (2 * p) v = 2 * p * 2 ^ k"
      by (auto simp: algebra_simps)
    with False show ?thesis by (auto intro: exI [of _ "Suc k"])
  qed
qed

lemma pow2_ceiling_ok: "pow2 (pow2_ceiling v)" "v \<le> pow2_ceiling v"
  using pow2_from_ok [of v 1 v] less_imp_le [OF less_exp [of v]] by (auto simp: pow2_ceiling_def pow2_def)

lemma pow2_double: "pow2 n \<Longrightarrow> pow2 (n * 2)"
  by (auto simp: pow2_def intro: exI [of _ "Suc _"])

lemma bestTableSize_ok:
  assumes "traits_ok tr" "0 < k"
  shows "pow2 (bestTableSize tr k)" "2 * k < bestTableSize tr k" "minimumTableSize tr \<le> bestTableSize tr k"
proof -
  let ?c = "pow2_ceiling k"
  note c = pow2_ceiling_ok [of k] pow2_double
  have "pow2 (2 * ?c)" "pow2 (4 * ?c)"
    using pow2_double [OF c(1)] pow2_double [OF pow2_double [OF c(1)]] by (simp_all add: mult.commute)
  then show "pow2 (bestTableSize tr k)"
    using c assms(1) by (auto simp: bestTableSize_def Let_def max_def traits_ok_def)
  show "2 * k < bestTableSize tr k"
    using c(2) assms(2) traits_ok_arithmetic [OF assms(1)] by (auto simp: bestTableSize_def Let_def max_def)
  show "minimumTableSize tr \<le> bestTableSize tr k" by (simp add: bestTableSize_def Let_def)
qed

lemma addUnique_ok:
  assumes ok: "table_ok tr (m_table t)" and del: "deleted_buckets (m_table t) = 0"
    and len: "length (ht_values t) < m_tableSize t" and new: "ht_extract tr v \<notin> ht_keys tr t"
  obtains d where "addUniqueForInitialization tr v t = Some (t\<lparr>m_table := (m_table t)[d := Live v]\<rparr>)"
    "table_ok tr ((m_table t)[d := Live v])" "deleted_buckets ((m_table t)[d := Live v]) = 0"
    "mset (table_values ((m_table t)[d := Live v])) = add_mset v (mset (ht_values t))"
proof -
  have "\<exists>i < m_tableSize t. m_table t ! i = EmptyBucket"
    by (rule empty_bucket_exists) (use del len in \<open>simp add: ht_values_def\<close>)
  from unique_loop_absent [OF ok this] new obtain d where
    d: "unique_loop (m_table t) (ht_hash tr (ht_extract tr v))
      (probe_at (ht_hash tr (ht_extract tr v)) (m_tableSize t) 0) 0 = Some d"
    "free_slot tr (m_table t) (ht_extract tr v) d" "m_table t ! d = EmptyBucket"
    by (auto simp: ht_keys_def ht_values_def)
  note ins = table_insert [OF ok d(2)]
  show thesis
    by (rule that [of d]) (use d ins del new in \<open>auto simp: addUniqueForInitialization_def
        Let_def ht_keys_def ht_values_def\<close>)
qed

lemma addUnique_all_ok:
  assumes "table_ok tr (m_table t)" "deleted_buckets (m_table t) = 0"
    "length (ht_values t) + length vs < m_tableSize t"
    "distinct (map (ht_extract tr) (ht_values t @ vs))"
  shows "\<exists>t'. addUnique_all tr vs t = Some t' \<and> table_ok tr (m_table t') \<and>
    deleted_buckets (m_table t') = 0 \<and> m_tableSize t' = m_tableSize t \<and> m_keyCount t' = m_keyCount t \<and>
    m_deletedCount t' = m_deletedCount t \<and> mset (ht_values t') = mset (ht_values t) + mset vs"
  using assms
proof (induction vs arbitrary: t)
  case (Cons v vs)
  let ?t = "\<lambda>d. t\<lparr>m_table := (m_table t)[d := Live v]\<rparr>"
  have "ht_extract tr v \<notin> ht_keys tr t" "length (ht_values t) < m_tableSize t"
    using Cons.prems by (auto simp: ht_keys_def)
  from addUnique_ok [OF Cons.prems(1,2) this(2,1)] obtain d where
    d: "addUniqueForInitialization tr v t = Some (?t d)" "table_ok tr (m_table (?t d))"
      "deleted_buckets (m_table (?t d)) = 0"
      and ms: "mset (ht_values (?t d)) = add_mset v (mset (ht_values t))"
    by (auto simp: ht_values_def)
  have "mset (map (ht_extract tr) (ht_values (?t d) @ vs)) = mset (map (ht_extract tr) (ht_values t @ v # vs))"
    using ms by simp
  from mset_eq_imp_distinct_iff [OF this] Cons.prems(4)
  have "distinct (map (ht_extract tr) (ht_values (?t d) @ vs))" by simp
  moreover have "length (ht_values (?t d)) = Suc (length (ht_values t))"
    using ms by (metis size_add_mset size_mset)
  then have "length (ht_values (?t d)) + length vs < m_tableSize (?t d)" using Cons.prems(3) by simp
  ultimately show ?case using Cons.IH [OF d(2,3)] d(1) ms by auto
qed auto

lemma ht_copy_ok:
  assumes tr: "traits_ok tr" and wf: "ht_wf tr t"
  shows "\<exists>t'. ht_copy tr t = Some t' \<and> ht_wf tr t' \<and> mset (ht_values t') = mset (ht_values t)"
proof (cases "m_keyCount t = 0")
  case True
  with wf have "ht_values t = []" by (simp add: ht_wf_def)
  with True show ?thesis by (simp add: ht_copy_def ht_wf_empty)
next
  case False
  let ?n = "bestTableSize tr (m_keyCount t)"
  let ?t = "\<lparr>m_table = allocateTable ?n, m_keyCount = m_keyCount t, m_deletedCount = 0\<rparr>"
  have k: "m_keyCount t = length (ht_values t)" using wf by (simp add: ht_wf_def)
  note n = bestTableSize_ok [OF tr, of "m_keyCount t"]
  have "length (ht_values t) < ?n" using n(2) False k by simp
  then obtain t' where t': "addUnique_all tr (ht_values t) ?t = Some t'" "table_ok tr (m_table t')"
    "deleted_buckets (m_table t') = 0" "m_tableSize t' = ?n" "m_keyCount t' = m_keyCount t"
    "m_deletedCount t' = 0" "mset (ht_values t') = mset (ht_values t)"
    using addUnique_all_ok [of tr ?t "ht_values t"] n(1) False ht_keys_distinct [OF wf]
    by (auto simp: table_ok_allocate ht_values_def)
  then have "length (ht_values t') = m_keyCount t'" using k by (metis size_mset)
  with t' n False have "ht_wf tr t'" by (auto simp: ht_wf_def maxLoad_def)
  with t' False show ?thesis by (simp add: ht_copy_def)
qed

text \<open>The bit trick of \<^verbatim>\<open>roundUpToPowerOfTwo\<close>.\<close>

lemma pow2_from_least:
  "v \<le> p * 2 ^ fuel \<Longrightarrow> \<exists>k. pow2_from fuel p v = p * 2 ^ k \<and> v \<le> p * 2 ^ k \<and> (\<forall>j < k. p * 2 ^ j < v)"
proof (induction fuel p v rule: pow2_from.induct)
  case (1 p v)
  then show ?case by (auto intro: exI [of _ 0])
next
  case (2 fuel p v)
  show ?case
  proof (cases "v \<le> p")
    case True
    then show ?thesis by (auto intro: exI [of _ 0])
  next
    case False
    with 2 obtain k where k: "pow2_from fuel (2 * p) v = 2 * p * 2 ^ k" "v \<le> 2 * p * 2 ^ k"
      "\<forall>j < k. 2 * p * 2 ^ j < v"
      by (auto simp: algebra_simps)
    have "p * 2 ^ j < v" if "j < Suc k" for j
      using that k(3) False by (cases j) (auto simp: algebra_simps)
    with False k show ?thesis by (intro exI [of _ "Suc k"]) (simp add: algebra_simps)
  qed
qed

lemma smear_step:
  fixes w :: "uint32"
  assumes "\<And>n. bit x n \<longleftrightarrow> (\<exists>j < k. bit w (n + j))"
  shows "bit (x OR drop_bit k x) n \<longleftrightarrow> (\<exists>j < 2 * k. bit w (n + j))"
proof -
  have "bit (x OR drop_bit k x) n \<longleftrightarrow> (\<exists>j < k. bit w (n + j)) \<or> (\<exists>j < k. bit w (n + k + j))"
    by (simp add: bit_or_iff bit_drop_bit_eq assms add.commute [of k])
  also have "\<dots> \<longleftrightarrow> (\<exists>j < 2 * k. bit w (n + j))" (is "?l \<longleftrightarrow> ?r")
  proof
    assume ?l
    then show ?r
    proof
      assume "\<exists>j < k. bit w (n + j)"
      then obtain j where "j < k" "bit w (n + j)" by blast
      then show ?r by (intro exI [of _ j]) simp
    next
      assume "\<exists>j < k. bit w (n + k + j)"
      then obtain j where "j < k" "bit w (n + k + j)" by blast
      then show ?r by (intro exI [of _ "k + j"]) (simp add: algebra_simps)
    qed
  next
    assume ?r
    then obtain j where j: "j < 2 * k" "bit w (n + j)" by blast
    show ?l
    proof (cases "j < k")
      case True with j show ?l by blast
    next
      case False
      with j have "j - k < k" "bit w (n + k + (j - k))" by simp_all
      then show ?l by blast
    qed
  qed
  finally show ?thesis .
qed

lemma smear:
  fixes w :: uint32
  shows "bit (roundUpToPowerOfTwo (w + 1) - 1) n \<longleftrightarrow> (\<exists>j < 32. bit w (n + j))"
proof -
  define x1 where "x1 = w OR drop_bit 1 w"
  define x2 where "x2 = x1 OR drop_bit 2 x1"
  define x4 where "x4 = x2 OR drop_bit 4 x2"
  define x8 where "x8 = x4 OR drop_bit 8 x4"
  define x16 where "x16 = x8 OR drop_bit 16 x8"
  have 1: "bit x1 n \<longleftrightarrow> (\<exists>j < 2. bit w (n + j))" for n
    using smear_step [of w 1 w n] by (simp add: x1_def)
  have 2: "bit x2 n \<longleftrightarrow> (\<exists>j < 4. bit w (n + j))" for n
    using smear_step [of x1 2 w, OF 1] by (simp add: x2_def)
  have 4: "bit x4 n \<longleftrightarrow> (\<exists>j < 8. bit w (n + j))" for n
    using smear_step [of x2 4 w, OF 2] by (simp add: x4_def)
  have 8: "bit x8 n \<longleftrightarrow> (\<exists>j < 16. bit w (n + j))" for n
    using smear_step [of x4 8 w, OF 4] by (simp add: x8_def)
  have 16: "bit x16 n \<longleftrightarrow> (\<exists>j < 32. bit w (n + j))" for n
    using smear_step [of x8 16 w, OF 8] by (simp add: x16_def)
  have "roundUpToPowerOfTwo (w + 1) - 1 = x16"
    by (simp add: roundUpToPowerOfTwo_def Let_def x16_def x8_def x4_def x2_def x1_def)
  with 16 show ?thesis by simp
qed

lemma roundUpToPowerOfTwo_ceiling:
  assumes "1 \<le> v" "v \<le> 2 ^ 31"
  shows "unat (roundUpToPowerOfTwo (of_nat v)) = pow2_ceiling v"
proof -
  obtain p where p: "pow2_ceiling v = 2 ^ p" "v \<le> 2 ^ p" "\<And>j. j < p \<Longrightarrow> 2 ^ j < v"
    using pow2_from_least [of v 1 v] less_imp_le [OF less_exp [of v]] by (auto simp: pow2_ceiling_def)
  have p31: "p \<le> 31"
  proof (rule ccontr)
    assume "\<not> p \<le> 31"
    then have "2 ^ 31 < v" using p(3) [of 31] by simp
    with assms(2) show False by simp
  qed
  define m where "m = v - 1"
  have m: "m < 2 ^ p" "of_nat v = (of_nat m + 1 :: uint32)" using p(2) assms(1) by (auto simp: m_def of_nat_diff)
  have bits: "bit (of_nat m :: uint32) i \<longleftrightarrow> i < 32 \<and> bit m i" for i
    by (simp add: bit_of_nat_iff)
  have high: "\<not> bit m i" if "p \<le> i" for i
    using that m(1) by (metis bit_take_bit_iff leD take_bit_nat_eq_self)
  have top: "bit m (p - 1)" if "0 < p"
  proof -
    have "2 ^ (p - 1) \<le> m" using p(3) [of "p - 1"] that by (simp add: m_def)
    moreover have "m < 2 * 2 ^ (p - 1)" using m(1) that by (metis Suc_diff_1 power_Suc)
    ultimately have "m div 2 ^ (p - 1) = 1" by (auto simp: div_nat_eqI)
    then show ?thesis by (simp add: bit_iff_odd)
  qed
  have "bit (roundUpToPowerOfTwo (of_nat v) - 1) n \<longleftrightarrow> bit (mask p :: uint32) n" for n
  proof -
    have "(\<exists>j < 32. bit (of_nat m :: uint32) (n + j)) \<longleftrightarrow> n < p"
    proof
      assume "\<exists>j < 32. bit (of_nat m :: uint32) (n + j)"
      then obtain j where "bit m (n + j)" by (auto simp: bits)
      with high show "n < p" by (meson leI le_add1 order_trans)
    next
      assume n: "n < p"
      with top have "bit m (n + (p - 1 - n))" by simp
      with n p31 show "\<exists>j < 32. bit (of_nat m :: uint32) (n + j)"
        by (intro exI [of _ "p - 1 - n"]) (auto simp: bits)
    qed
    then show ?thesis using smear [of "of_nat m" n] p31 by (auto simp: m(2) bit_mask_iff)
  qed
  then have "roundUpToPowerOfTwo (of_nat v) - 1 = (mask p :: uint32)" by (simp add: bit_eq_iff)
  then have "roundUpToPowerOfTwo (of_nat v) = (2 ^ p :: uint32)" by (simp add: mask_eq_exp_minus_1)
  moreover have "(2::nat) ^ p < 2 ^ 32" using p31 by (intro power_strict_increasing) auto
  then have "unat (of_nat (2 ^ p) :: uint32) = 2 ^ p" by (subst unat_of_nat) (simp add: take_bit_nat_eq_self)
  ultimately show ?thesis by (simp add: p(1))
qed

section \<open>The position that add returns\<close>

definition live_at :: "'v HashTable \<Rightarrow> nat \<Rightarrow> 'v \<Rightarrow> bool" where
  "live_at t i v \<longleftrightarrow> i < m_tableSize t \<and> m_table t ! i = Live v"

lemma rehash_loop_entry:
  assumes "table_ok tr (m_table t)" "deleted_buckets (m_table t) = 0"
    "length (ht_values t) + length (table_values old) < m_tableSize t"
    "distinct (map (ht_extract tr) (ht_values t @ table_values old))"
    and "rehash_loop tr old i (Some j) t ne = Some (t', e)"
    and "(\<exists>d. ne = Some d \<and> live_at t d w \<and> j < i) \<or> i \<le> j \<and> j - i < length old \<and> old ! (j - i) = Live w"
  shows "\<exists>d. e = Some d \<and> live_at t' d w"
  using assms
proof (induction old arbitrary: t i ne)
  case (Cons b old)
  show ?case
  proof (cases b)
    case (Live v)
    let ?t = "\<lambda>d. t\<lparr>m_table := (m_table t)[d := Live v]\<rparr>"
    have "ht_extract tr v \<notin> ht_keys tr t" "length (ht_values t) < m_tableSize t"
      using Cons.prems Live by (auto simp: ht_keys_def)
    from reinsert_ok [OF Cons.prems(1,2) this(2,1)] obtain d where
      d: "reinsert tr v t = Some (?t d, d)" "table_ok tr (m_table (?t d))" "deleted_buckets (m_table (?t d)) = 0"
        "d < m_tableSize t" "m_table t ! d = EmptyBucket"
        and ms: "mset (ht_values (?t d)) = add_mset v (mset (ht_values t))"
      by (auto simp: ht_values_def)
    have "mset (map (ht_extract tr) (ht_values (?t d) @ table_values old))
        = mset (map (ht_extract tr) (ht_values t @ table_values (b # old)))"
      using ms by (simp add: Live)
    from mset_eq_imp_distinct_iff [OF this] Cons.prems(4)
    have dist: "distinct (map (ht_extract tr) (ht_values (?t d) @ table_values old))" by simp
    have "length (ht_values (?t d)) = Suc (length (ht_values t))"
      using ms by (metis size_add_mset size_mset)
    then have len: "length (ht_values (?t d)) + length (table_values old) < m_tableSize (?t d)"
      using Cons.prems(3) by (simp add: Live)
    have nxt: "rehash_loop tr old (i + 1) (Some j) (?t d) (if j = i then Some d else ne) = Some (t', e)"
      using Cons.prems(5) d(1) by (simp add: Live)
    have kept: "live_at (?t d) k w" if "live_at t k w" for k
      using that d(5) by (cases "k = d") (auto simp: live_at_def)
    have "(\<exists>k. (if j = i then Some d else ne) = Some k \<and> live_at (?t d) k w \<and> j < i + 1) \<or>
        i + 1 \<le> j \<and> j - (i + 1) < length old \<and> old ! (j - (i + 1)) = Live w"
    proof (cases "j = i")
      case True
      with Cons.prems(6) have "v = w" by (auto simp: Live)
      with True d(4) show ?thesis by (auto simp: live_at_def)
    next
      case False
      with Cons.prems(6) kept show ?thesis by (auto simp: nth_Cons')
    qed
    from Cons.IH [OF d(2,3) len dist nxt this] show ?thesis .
  next
    case EmptyBucket
    have "(\<exists>d. ne = Some d \<and> live_at t d w \<and> j < i + 1) \<or> i + 1 \<le> j \<and> j - (i + 1) < length old \<and> old ! (j - (i + 1)) = Live w"
      using Cons.prems(6) by (cases "j = i") (auto simp: EmptyBucket nth_Cons')
    from Cons.IH [OF _ _ _ _ _ this] Cons.prems show ?thesis by (simp add: EmptyBucket)
  next
    case DeletedBucket
    have "(\<exists>d. ne = Some d \<and> live_at t d w \<and> j < i + 1) \<or> i + 1 \<le> j \<and> j - (i + 1) < length old \<and> old ! (j - (i + 1)) = Live w"
      using Cons.prems(6) by (cases "j = i") (auto simp: DeletedBucket nth_Cons')
    from Cons.IH [OF _ _ _ _ _ this] Cons.prems show ?thesis by (simp add: DeletedBucket)
  qed
qed auto

lemma expand_entry:
  assumes ok: "table_ok tr (m_table t)" and load: "2 * length (ht_values t) < m_tableSize t + 2"
    and count: "m_keyCount t = length (ht_values t)" and two: "2 \<le> m_tableSize t"
    and ideal: "arithmetic tr = Unbounded" and j: "live_at t j w" and e: "expand tr (Some j) t = Some (t', e)"
  shows "\<exists>d. e = Some d \<and> live_at t' d w"
proof -
  define n where "n = (if mustRehashInPlace tr t then m_tableSize t else m_tableSize t * 2)"
  let ?t = "t\<lparr>m_table := allocateTable n\<rparr>"
  have p: "pow2 n" using ok by (auto simp: n_def table_ok_def pow2_def intro: exI [of _ "Suc _"])
  have "2 * length (ht_values t) < n"
    using load count two ideal by (auto simp: n_def mustRehashInPlace_def minLoad_def)
  then have len: "length (ht_values ?t) + length (table_values (m_table t)) < m_tableSize ?t"
    by (simp add: ht_values_def table_ok_allocate [OF p])
  have "expand tr (Some j) t = rehash tr n (Some j) t" using two ideal by (auto simp: n_def expand_def Let_def)
  with e obtain t0 where t0: "rehash_loop tr (m_table t) 0 (Some j) ?t None = Some (t0, e)"
    "t' = t0\<lparr>m_deletedCount := 0\<rparr>" by (auto simp: rehash_def split: Option.bind_splits)
  have "distinct (map (ht_extract tr) (ht_values ?t @ table_values (m_table t)))"
    using ok by (simp add: table_ok_def ht_values_def table_ok_allocate [OF p])
  from rehash_loop_entry [OF _ _ len this t0(1), of w] table_ok_allocate [OF p] j
  obtain d where "e = Some d" "live_at t0 d w" by (auto simp: live_at_def)
  with t0(2) show ?thesis by (auto simp: live_at_def)
qed

lemma ht_add_entry:
  assumes tr: "traits_ok tr" and wf: "ht_wf tr t" and v: "ht_extract tr v = key"
    and add: "ht_add tr key v t = Some (t', e, new)"
  shows "\<exists>i w. e = Some i \<and> live_at t' i w \<and> ht_extract tr w = key"
proof -
  have main: "\<exists>i w. e = Some i \<and> live_at t' i w \<and> ht_extract tr w = key"
    if wf: "ht_wf tr t" and ne: "m_table t \<noteq> []" and add: "ht_add tr key v t = Some (t', e, new)" for t
  proof -
    have ok: "table_ok tr (m_table t)" and load: "(m_keyCount t + m_deletedCount t) * maxLoad < m_tableSize t"
      and min: "minimumTableSize tr \<le> m_tableSize t" using wf ne by (auto simp: ht_wf_def)
    have two: "2 \<le> m_tableSize t" using tr min by (simp add: traits_ok_def)
    show ?thesis
    proof (cases "key \<in> ht_keys tr t")
      case True
      obtain i w where i: "i < m_tableSize t" "m_table t ! i = Live w" "ht_extract tr w = key"
        using True by (auto simp: ht_keys_def ht_values_def set_table_values simp del: set_concat)
      with writing_loop_present [OF ok i] ne add show ?thesis by (auto simp: ht_add_def Let_def live_at_def)
    next
      case False
      then have absent: "key \<notin> table_keys tr (m_table t)" by (simp add: ht_keys_def ht_values_def)
      obtain d where d: "writing_loop (ht_extract tr) (m_table t) key (ht_hash tr key)
          (probe_at (ht_hash tr key) (m_tableSize t) 0) 0 None = Some (d, False)"
        and free: "free_slot tr (m_table t) key d"
        using writing_loop_absent [OF ok ht_wf_has_empty [OF wf ne] absent] by blast
      define t1 where "t1 = t\<lparr>m_table := (m_table t)[d := Live v],
          m_deletedCount := (if m_table t ! d = DeletedBucket then m_deletedCount t - 1 else m_deletedCount t),
          m_keyCount := m_keyCount t + 1\<rparr>"
      note ins = table_insert [OF ok free [folded v] absent [folded v]]
      have ok': "table_ok tr (m_table t1)" and ms: "mset (ht_values t1) = add_mset v (mset (ht_values t))"
        and size': "m_tableSize t1 = m_tableSize t"
        using ins by (simp_all add: t1_def ht_values_def)
      have len: "length (ht_values t1) = Suc (length (ht_values t))" using ms by (metis size_add_mset size_mset)
      have count: "m_keyCount t1 = length (ht_values t1)" using wf len by (auto simp: t1_def ht_wf_def)
      have live: "live_at t1 d v" using free by (auto simp: t1_def live_at_def free_slot_def)
      have add1: "ht_add tr key v t = (if shouldExpand tr t1 then do {
           (t'', entry') \<leftarrow> expand tr (Some d) t1; Some (t'', entry', True) } else Some (t1, Some d, True))"
        using d ne traits_ok_arithmetic [OF tr] by (simp add: ht_add_def Let_def t1_def)
      show ?thesis
      proof (cases "shouldExpand tr t1")
        case True
        have "2 * length (ht_values t1) < m_tableSize t1 + 2"
          using load len size' wf by (auto simp: maxLoad_def ht_wf_def)
        moreover from True add add1 have "expand tr (Some d) t1 = Some (t', e)" by (auto split: Option.bind_splits)
        ultimately obtain i where "e = Some i" "live_at t' i v"
          using expand_entry [OF ok' _ count _ traits_ok_arithmetic [OF tr] live] two size' by auto
        with v show ?thesis by blast
      next
        case False
        with add add1 live v show ?thesis by auto
      qed
    qed
  qed
  show ?thesis
  proof (cases "m_table t = []")
    case True
    obtain t0 e0 where t0: "expand tr None t = Some (t0, e0)" "ht_wf tr t0" "m_table t0 \<noteq> []" "ht_values t0 = []"
      using expand_initial [OF tr wf True] by blast
    have "ht_add tr key v t = ht_add tr key v t0" using True t0 by (simp add: ht_add_def)
    with main [OF t0(2,3)] add show ?thesis by simp
  qed (use main wf add in blast)
qed

text \<open>How far an addition can grow a table.\<close>

lemma rehash_loop_size: "rehash_loop tr old i entry t ne = Some (t', e) \<Longrightarrow> m_tableSize t' = m_tableSize t"
proof (induction old arbitrary: i t ne)
  case (Cons b old)
  then show ?case by (cases b) (auto simp: reinsert_def split: Option.bind_splits)
qed simp

lemma expand_size:
  assumes "arithmetic tr = Unbounded" "expand tr entry t = Some (t', e)"
  shows "m_tableSize t' \<le> max (minimumTableSize tr) (2 * m_tableSize t)"
  using assms rehash_loop_size
  by (fastforce simp: expand_def rehash_def Let_def allocateTable_def split: Option.bind_splits if_splits)

lemma ht_add_size:
  assumes "arithmetic tr = Unbounded" "ht_add tr key v t = Some (t', e, new)"
  shows "m_tableSize t' \<le> 2 * max (minimumTableSize tr) (m_tableSize t)"
proof -
  obtain t0 e0 where t0: "(if m_table t = [] then expand tr None t else Some (t, None)) = Some (t0, e0)"
    using assms(2) by (auto simp: ht_add_def split: Option.bind_splits)
  then have "m_tableSize t0 \<le> max (minimumTableSize tr) (m_tableSize t)"
    using expand_size [OF assms(1), of None t t0 e0] by (auto split: if_splits)
  moreover have "m_tableSize t' \<le> max (minimumTableSize tr) (2 * m_tableSize t0)"
    using assms(2) unfolding ht_add_def t0
    by (auto simp: Let_def split: Option.bind_splits if_splits dest!: expand_size [OF assms(1)])
  ultimately show ?thesis by simp
qed

section \<open>Refinement of finite maps\<close>

definition ht_map :: "('k, 'v) HashTraits \<Rightarrow> 'v HashTable \<Rightarrow> 'k \<Rightarrow> 'v option" where
  "ht_map tr t k = List.find (\<lambda>v. ht_extract tr v = k) (ht_values t)"

lemma ht_map_None: "ht_map tr t k = None \<longleftrightarrow> k \<notin> ht_keys tr t"
  by (auto simp: ht_map_def find_None_iff ht_keys_def)

lemma ht_map_Some:
  assumes "ht_wf tr t"
  shows "ht_map tr t k = Some v \<longleftrightarrow> v \<in> set (ht_values t) \<and> ht_extract tr v = k"
proof
  assume "ht_map tr t k = Some v"
  then show "v \<in> set (ht_values t) \<and> ht_extract tr v = k" by (auto simp: ht_map_def find_Some_iff)
next
  assume v: "v \<in> set (ht_values t) \<and> ht_extract tr v = k"
  then have "ht_map tr t k \<noteq> None" by (auto simp: ht_map_None ht_keys_def)
  then obtain w where w: "ht_map tr t k = Some w" by blast
  then have "w \<in> set (ht_values t)" "ht_extract tr w = k" by (auto simp: ht_map_def find_Some_iff)
  with v ht_keys_distinct [OF assms] have "w = v" by (auto simp: distinct_map dest: inj_onD)
  with w show "ht_map tr t k = Some v" by simp
qed

lemma ht_map_eqI:
  assumes "ht_wf tr t" and "\<And>k v. (v \<in> set (ht_values t) \<and> ht_extract tr v = k) \<longleftrightarrow> m k = Some v"
  shows "ht_map tr t = m"
proof
  fix k
  have "ht_map tr t k = Some v \<longleftrightarrow> m k = Some v" for v
    by (simp add: ht_map_Some [OF assms(1)] assms(2))
  then show "ht_map tr t k = m k" by (metis not_None_eq)
qed

lemma ht_lookup_map:
  assumes "ht_wf tr t"
  shows "\<exists>r. ht_lookup tr t key = Some r \<and>
    (case r of None \<Rightarrow> ht_map tr t key = None
     | Some i \<Rightarrow> i < m_tableSize t \<and> (\<exists>v. m_table t ! i = Live v \<and> ht_map tr t key = Some v))"
proof -
  obtain r where r: "ht_lookup tr t key = Some r"
    "case r of None \<Rightarrow> key \<notin> ht_keys tr t
     | Some i \<Rightarrow> i < m_tableSize t \<and> (\<exists>v. m_table t ! i = Live v \<and> ht_extract tr v = key)"
    using ht_lookup_ok [OF assms] by blast
  have "v \<in> set (ht_values t)" if "i < m_tableSize t" "m_table t ! i = Live v" for i v
    using that set_table_values [of "m_table t"] by (auto simp: ht_values_def simp del: set_concat)
  with r show ?thesis by (auto simp: ht_map_None ht_map_Some [OF assms] split: option.splits)
qed

lemma ht_add_map:
  assumes "traits_ok tr" "ht_wf tr t" "ht_extract tr v = key"
  shows "\<exists>t' i w. ht_add tr key v t = Some (t', Some i, ht_map tr t key = None) \<and> ht_wf tr t' \<and>
    ht_map tr t' = (if ht_map tr t key = None then (ht_map tr t)(key \<mapsto> v) else ht_map tr t) \<and>
    m_table t' ! i = Live w \<and> ht_map tr t' key = Some w"
proof -
  obtain t' e where t': "ht_add tr key v t = Some (t', e, key \<notin> ht_keys tr t)" "ht_wf tr t'"
    "mset (ht_values t') = (if key \<in> ht_keys tr t then mset (ht_values t) else add_mset v (mset (ht_values t)))"
    using ht_add_ok [OF assms] by blast
  have vals: "set (ht_values t') = (if key \<in> ht_keys tr t then set (ht_values t) else insert v (set (ht_values t)))"
    using arg_cong [OF t'(3), of set_mset] by (auto split: if_splits)
  have "ht_map tr t' = (if key \<in> ht_keys tr t then ht_map tr t else (ht_map tr t)(key \<mapsto> v))"
  proof (rule ht_map_eqI [OF t'(2)])
    fix k w
    show "(w \<in> set (ht_values t') \<and> ht_extract tr w = k) \<longleftrightarrow>
      (if key \<in> ht_keys tr t then ht_map tr t else (ht_map tr t)(key \<mapsto> v)) k = Some w"
      using vals assms(3) by (auto simp: ht_map_Some [OF assms(2)] ht_keys_def image_iff)
  qed
  moreover obtain i w where i: "e = Some i" "live_at t' i w" "ht_extract tr w = key"
    using ht_add_entry [OF assms t'(1)] by blast
  then have "w \<in> set (ht_values t')"
    by (auto simp: live_at_def ht_values_def set_table_values simp del: set_concat)
  with i(3) have "ht_map tr t' key = Some w" by (simp add: ht_map_Some [OF t'(2)])
  ultimately show ?thesis using t' i by (auto simp: ht_map_None live_at_def)
qed

lemma ht_remove_map:
  assumes "traits_ok tr" "ht_wf tr t"
  shows "\<exists>t'. ht_remove tr key t = Some t' \<and> ht_wf tr t' \<and> ht_map tr t' = (ht_map tr t)(key := None)"
proof -
  obtain t' where t': "ht_remove tr key t = Some t'" "ht_wf tr t'"
    "mset (ht_values t') = filter_mset (\<lambda>v. ht_extract tr v \<noteq> key) (mset (ht_values t))"
    using ht_remove_ok [OF assms] by blast
  have vals: "set (ht_values t') = {v \<in> set (ht_values t). ht_extract tr v \<noteq> key}"
    using arg_cong [OF t'(3), of set_mset] by auto
  have "ht_map tr t' = (ht_map tr t)(key := None)"
  proof (rule ht_map_eqI [OF t'(2)])
    fix k w
    show "(w \<in> set (ht_values t') \<and> ht_extract tr w = k) \<longleftrightarrow> ((ht_map tr t)(key := None)) k = Some w"
      using vals by (auto simp: ht_map_Some [OF assms(2)])
  qed
  with t' show ?thesis by blast
qed

lemma ht_copy_map:
  assumes "traits_ok tr" "ht_wf tr t"
  shows "(\<exists>t'. ht_copy tr t = Some t' \<and> ht_wf tr t' \<and> ht_map tr t' = ht_map tr t) \<and>
    (\<exists>t'. ht_removeIf tr f t = Some t' \<and> ht_wf tr t' \<and>
       (\<forall>k. ht_map tr t' k = (case ht_map tr t k of None \<Rightarrow> None | Some v \<Rightarrow> if f v then None else Some v)))"
proof
  obtain t' where t': "ht_copy tr t = Some t'" "ht_wf tr t'" "mset (ht_values t') = mset (ht_values t)"
    using ht_copy_ok [OF assms] by blast
  have "ht_map tr t' = ht_map tr t"
    by (rule ht_map_eqI [OF t'(2)])
      (simp add: ht_map_Some [OF assms(2)] mset_eq_setD [OF t'(3)])
  with t' show "\<exists>t'. ht_copy tr t = Some t' \<and> ht_wf tr t' \<and> ht_map tr t' = ht_map tr t" by blast
next
  obtain t' where t': "ht_removeIf tr f t = Some t'" "ht_wf tr t'"
    "mset (ht_values t') = filter_mset (\<lambda>v. \<not> f v) (mset (ht_values t))"
    using ht_removeIf_ok [OF assms] by blast
  have vals: "set (ht_values t') = {v \<in> set (ht_values t). \<not> f v}"
    using arg_cong [OF t'(3), of set_mset] by auto
  have "ht_map tr t' = (\<lambda>k. case ht_map tr t k of None \<Rightarrow> None | Some v \<Rightarrow> if f v then None else Some v)"
  proof (rule ht_map_eqI [OF t'(2)])
    fix k w
    show "(w \<in> set (ht_values t') \<and> ht_extract tr w = k) \<longleftrightarrow>
      (case ht_map tr t k of None \<Rightarrow> None | Some v \<Rightarrow> if f v then None else Some v) = Some w"
      using vals ht_map_Some [OF assms(2), of k w, symmetric] by (cases "ht_map tr t k") auto
  qed
  with t' show "\<exists>t'. ht_removeIf tr f t = Some t' \<and> ht_wf tr t' \<and>
       (\<forall>k. ht_map tr t' k = (case ht_map tr t k of None \<Rightarrow> None | Some v \<Rightarrow> if f v then None else Some v))"
    by auto
qed

section \<open>Arithmetic of 32 bits\<close>

text \<open>The reference: the same table with sizes and counts that do not wrap around.\<close>

definition ideal :: "('k, 'v) HashTraits \<Rightarrow> ('k, 'v) HashTraits" where
  "ideal tr = tr\<lparr>arithmetic := Unbounded\<rparr>"

text \<open>No sum and no product of an operation reaches \<open>2 ^ 32\<close> while the table has at most \<open>2 ^ 30\<close>
  buckets.\<close>

definition sizes_fit :: "('k, 'v) HashTraits \<Rightarrow> 'v HashTable \<Rightarrow> bool" where
  "sizes_fit tr t \<longleftrightarrow> (arithmetic tr = Unsigned32 \<longrightarrow> m_tableSize t \<le> 2 ^ 30 \<and> minimumTableSize tr \<le> 2 ^ 30)"

definition minimum_ok :: "('k, 'v) HashTraits \<Rightarrow> bool" where
  "minimum_ok tr \<longleftrightarrow> pow2 (minimumTableSize tr) \<and> 2 \<le> minimumTableSize tr"

lemma ideal_fields [simp]:
  "ht_hash (ideal tr) = ht_hash tr" "ht_extract (ideal tr) = ht_extract tr"
  "minimumTableSize (ideal tr) = minimumTableSize tr" "arithmetic (ideal tr) = Unbounded"
  by (simp_all add: ideal_def)

lemma ideal_self: "arithmetic tr = Unbounded \<Longrightarrow> ideal tr = tr"
  by (simp add: ideal_def)

lemma ideal_traits_ok: "minimum_ok tr \<Longrightarrow> traits_ok (ideal tr)"
  by (simp add: minimum_ok_def traits_ok_def)

lemma ideal_invariant [simp]:
  "table_ok (ideal tr) table = table_ok tr table" "ht_wf (ideal tr) t = ht_wf tr t"
  "ht_keys (ideal tr) t = ht_keys tr t" "ht_map (ideal tr) t = ht_map tr t"
  by (simp_all add: table_ok_def reached_def ht_wf_def ht_keys_def ht_map_def fun_eq_iff)

lemma ideal_probing [simp]:
  "ht_lookup (ideal tr) t key = ht_lookup tr t key" "ht_find (ideal tr) t key = ht_find tr t key"
  "ht_contains (ideal tr) t key = ht_contains tr t key"
  "reinsert (ideal tr) v t = reinsert tr v t"
  "addUniqueForInitialization (ideal tr) v t = addUniqueForInitialization tr v t"
  by (simp_all add: ht_lookup_def ht_find_def ht_contains_def reinsert_def lookupForWriting_def
      addUniqueForInitialization_def Let_def)

lemma rehash_loop_ideal [simp]: "rehash_loop (ideal tr) old i entry t ne = rehash_loop tr old i entry t ne"
proof (induction old arbitrary: i t ne)
  case (Cons b old)
  then show ?case by (cases b) simp_all
qed simp

lemma rehash_ideal [simp]:
  "rehash (ideal tr) n entry t = rehash tr n entry t" "shrink (ideal tr) t = shrink tr t"
  by (simp_all add: rehash_def shrink_def)

lemma addUnique_all_ideal [simp]: "addUnique_all (ideal tr) vs t = addUnique_all tr vs t"
proof (induction vs arbitrary: t)
  case (Cons v vs)
  then have "addUnique_all (ideal tr) vs = addUnique_all tr vs" by (rule ext)
  then show ?case by simp
qed simp

lemma wrapped_small: "n < 2 ^ 32 \<Longrightarrow> wrapped a n = n"
  by (cases a) (simp_all add: wrapped_def)

lemma decremented_small:
  assumes "0 < n" "n < 2 ^ 32"
  shows "decremented a n = n - 1"
proof -
  have "(n + 2 ^ 32 - 1) mod 2 ^ 32 = ((n - 1) + 2 ^ 32) mod 2 ^ 32" using assms(1) by simp
  also have "\<dots> = n - 1" using assms(2) by (simp only: mod_add_self2) simp
  finally show ?thesis by (cases a) (simp_all add: decremented_def)
qed

lemma wf_small:
  assumes "ht_wf tr t" "m_tableSize t \<le> 2 ^ 30"
  shows "m_keyCount t + m_deletedCount t \<le> 2 ^ 29"
  using assms by (cases "m_table t = []") (auto simp: ht_wf_def maxLoad_def ht_values_def)

lemma tests_ideal:
  assumes "m_keyCount t + m_deletedCount t \<le> 2 ^ 29 + 1" "m_tableSize t \<le> 2 ^ 30"
  shows "shouldExpand tr t = shouldExpand (ideal tr) t" "mustRehashInPlace tr t = mustRehashInPlace (ideal tr) t"
    "shouldShrink tr t = shouldShrink (ideal tr) t" "expand tr entry t = expand (ideal tr) entry t"
proof -
  have w: "wrapped a ((m_keyCount t + m_deletedCount t) * maxLoad) = (m_keyCount t + m_deletedCount t) * maxLoad"
    "wrapped a (m_keyCount t * minLoad) = m_keyCount t * minLoad" "wrapped a (m_tableSize t * 2) = m_tableSize t * 2" for a
    using assms by (auto intro!: wrapped_small simp: maxLoad_def minLoad_def)
  show "shouldExpand tr t = shouldExpand (ideal tr) t" "shouldShrink tr t = shouldShrink (ideal tr) t"
    by (simp_all only: shouldExpand_def shouldShrink_def w ideal_fields)
  show m: "mustRehashInPlace tr t = mustRehashInPlace (ideal tr) t" by (simp only: mustRehashInPlace_def w ideal_fields)
  show "expand tr entry t = expand (ideal tr) entry t"
    by (simp only: expand_def m w ideal_fields rehash_ideal)
qed

lemma ht_add_ideal_filled:
  assumes wf: "ht_wf tr t" and ne: "m_table t \<noteq> []" and small: "m_tableSize t \<le> 2 ^ 30"
  shows "ht_add tr key v t = ht_add (ideal tr) key v t"
proof (cases "key \<in> ht_keys tr t")
  case True
  have ok: "table_ok tr (m_table t)" using wf ne by (simp add: ht_wf_def)
  obtain i w where "i < m_tableSize t" "m_table t ! i = Live w" "ht_extract tr w = key"
    using True by (auto simp: ht_keys_def ht_values_def set_table_values simp del: set_concat)
  with writing_loop_present [OF ok] ne show ?thesis by (simp add: ht_add_def Let_def)
next
  case False
  have ok: "table_ok tr (m_table t)" using wf ne by (simp add: ht_wf_def)
  have absent: "key \<notin> table_keys tr (m_table t)" using False by (simp add: ht_keys_def ht_values_def)
  obtain d where d: "writing_loop (ht_extract tr) (m_table t) key (ht_hash tr key)
      (probe_at (ht_hash tr key) (m_tableSize t) 0) 0 None = Some (d, False)"
    and free: "free_slot tr (m_table t) key d"
    using writing_loop_absent [OF ok ht_wf_has_empty [OF wf ne] absent] by blast
  define t' where "t' = t\<lparr>m_table := (m_table t)[d := Live v],
      m_deletedCount := (if m_table t ! d = DeletedBucket then m_deletedCount t - 1 else m_deletedCount t),
      m_keyCount := m_keyCount t + 1\<rparr>"
  note counts = wf_small [OF wf small]
  have "0 < m_deletedCount t" if "m_table t ! d = DeletedBucket"
    using that wf free by (auto simp: ht_wf_def free_slot_def filter_empty_conv) (metis nth_mem)
  then have step: "ht_add trt key v t = (if shouldExpand trt t' then do {
       (t'', entry') \<leftarrow> expand trt (Some d) t'; Some (t'', entry', True) } else Some (t', Some d, True))"
    if "ht_hash trt = ht_hash tr" "ht_extract trt = ht_extract tr" for trt
    using d ne counts that by (auto simp: ht_add_def Let_def t'_def wrapped_small decremented_small)
  have "m_keyCount t' + m_deletedCount t' \<le> 2 ^ 29 + 1" "m_tableSize t' \<le> 2 ^ 30"
    using counts small by (auto simp: t'_def)
  then show ?thesis unfolding step [OF refl refl] step [OF ideal_fields(1,2)] by (simp only: tests_ideal [where tr = tr])
qed

lemma ht_add_ideal:
  assumes tr: "minimum_ok tr" and wf: "ht_wf tr t" and fit: "sizes_fit tr t"
  shows "ht_add tr key v t = ht_add (ideal tr) key v t"
proof (cases "arithmetic tr")
  case Unsigned32
  then have small: "m_tableSize t \<le> 2 ^ 30" "minimumTableSize tr \<le> 2 ^ 30" using fit by (auto simp: sizes_fit_def)
  show ?thesis
  proof (cases "m_table t = []")
    case True
    have wf': "ht_wf (ideal tr) t" using wf by simp
    obtain t0 e0 where t0: "expand (ideal tr) None t = Some (t0, e0)" "ht_wf (ideal tr) t0" "m_table t0 \<noteq> []"
      "m_tableSize t0 = minimumTableSize (ideal tr)"
      using expand_initial [OF ideal_traits_ok [OF tr] wf' True] by (elim exE conjE)
    have "expand tr None t = Some (t0, e0)" using t0(1) True by (simp add: expand_def)
    with t0 True have "ht_add trt key v t = ht_add trt key v t0" if "trt = tr \<or> trt = ideal tr" for trt
      using that by (auto simp: ht_add_def)
    with ht_add_ideal_filled [of tr t0] t0 small(2) show ?thesis by simp
  qed (rule ht_add_ideal_filled [OF wf _ small(1)])
qed (simp add: ideal_self)

lemma ht_removeAt_ideal:
  assumes wf: "ht_wf tr t" and fit: "sizes_fit tr t" and i: "i < m_tableSize t" "m_table t ! i = Live v"
  shows "ht_removeAt tr i t = ht_removeAt (ideal tr) i t"
proof (cases "arithmetic tr")
  case Unsigned32
  then have small: "m_tableSize t \<le> 2 ^ 30" using fit by (simp add: sizes_fit_def)
  note counts = wf_small [OF wf small]
  from i have "v \<in> set (ht_values t)" by (auto simp: ht_values_def set_table_values simp del: set_concat)
  then have "0 < m_keyCount t" using wf by (auto simp: ht_wf_def)
  define t' where "t' = t\<lparr>m_table := (m_table t)[i := DeletedBucket],
               m_deletedCount := m_deletedCount t + 1, m_keyCount := m_keyCount t - 1\<rparr>"
  have step: "ht_removeAt trt i t = (if shouldShrink trt t' then shrink trt t' else Some t')" for trt :: "('a, 'b) HashTraits"
    using counts \<open>0 < m_keyCount t\<close> by (simp add: ht_removeAt_def Let_def t'_def wrapped_small decremented_small)
  have "m_keyCount t' + m_deletedCount t' \<le> 2 ^ 29 + 1" "m_tableSize t' \<le> 2 ^ 30"
    using counts small by (auto simp: t'_def)
  then show ?thesis unfolding step by (simp only: tests_ideal [where tr = tr] rehash_ideal)
qed (simp add: ideal_self)

lemma ht_remove_ideal:
  assumes wf: "ht_wf tr t" and fit: "sizes_fit tr t"
  shows "ht_remove tr key t = ht_remove (ideal tr) key t"
proof -
  obtain r where r: "ht_lookup tr t key = Some r"
    "case r of None \<Rightarrow> key \<notin> ht_keys tr t
     | Some i \<Rightarrow> i < m_tableSize t \<and> (\<exists>v. m_table t ! i = Live v \<and> ht_extract tr v = key)"
    using ht_lookup_ok [OF wf] by blast
  have find: "ht_find tr t key = Some r"
    using r by (cases "m_table t = []") (auto simp: ht_find_def split: option.splits)
  show ?thesis
  proof (cases r)
    case (Some i)
    with r(2) obtain v where "i < m_tableSize t" "m_table t ! i = Live v" by auto
    from ht_removeAt_ideal [OF wf fit this] find Some show ?thesis by (simp add: ht_remove_def)
  qed (simp add: ht_remove_def find)
qed

lemma removeIf_loop_ideal:
  assumes "counted tr t" "n \<le> m_tableSize t" "m_keyCount t + m_deletedCount t \<le> 2 ^ 29"
  shows "removeIf_loop tr f n t = removeIf_loop (ideal tr) f n t"
  using assms
proof (induction n arbitrary: t)
  case (Suc n)
  show ?case
  proof (cases "\<exists>v. m_table t ! n = Live v \<and> f v")
    case True
    then obtain v where v: "m_table t ! n = Live v" "f v" by blast
    let ?t = "t\<lparr>m_table := (m_table t)[n := DeletedBucket],
                 m_deletedCount := m_deletedCount t + 1, m_keyCount := m_keyCount t - 1\<rparr>"
    note del = counted_delete [OF Suc.prems(1) _ v(1)]
    have "0 < m_keyCount t" using del(2) Suc.prems(1,2) by (auto simp: counted_def)
    then have "removeIf_loop tr f (Suc n) t = removeIf_loop tr f n ?t"
      "removeIf_loop (ideal tr) f (Suc n) t = removeIf_loop (ideal tr) f n ?t"
      using v Suc.prems(3) by (simp_all add: wrapped_small decremented_small)
    moreover have "m_keyCount ?t + m_deletedCount ?t \<le> 2 ^ 29"
      using del(3) Suc.prems(2,3) by (simp only: Suc_le_eq)
    ultimately show ?thesis using Suc.IH [of ?t] del(1) Suc.prems(2) by simp
  next
    case False
    then have "removeIf_loop trt f (Suc n) t = removeIf_loop trt f n t" for trt :: "('a, 'b) HashTraits"
      by (auto split: Bucket.splits)
    then show ?thesis using Suc.IH [of t] Suc.prems by simp
  qed
qed simp

lemma ht_removeIf_ideal:
  assumes wf: "ht_wf tr t" and fit: "sizes_fit tr t"
  shows "ht_removeIf tr f t = ht_removeIf (ideal tr) f t"
proof (cases "arithmetic tr")
  case Unsigned32
  then have small: "m_tableSize t \<le> 2 ^ 30" using fit by (simp add: sizes_fit_def)
  note counts = wf_small [OF wf small]
  show ?thesis
  proof (cases "m_table t = []")
    case True
    then show ?thesis by (simp add: ht_removeIf_def shouldShrink_def)
  next
    case False
    then have c: "counted tr t" "counted (ideal tr) t" using wf by (simp_all add: ht_wf_def counted_def)
    let ?t = "removeIf_loop (ideal tr) f (m_tableSize t) t"
    have "m_keyCount ?t + m_deletedCount ?t = m_keyCount t + m_deletedCount t" "m_tableSize ?t = m_tableSize t"
      using removeIf_loop_ok [OF ideal_fields(4) c(2), of "m_tableSize t" f] by auto
    then have "m_keyCount ?t + m_deletedCount ?t \<le> 2 ^ 29 + 1" "m_tableSize ?t \<le> 2 ^ 30" using counts small by simp_all
    then show ?thesis
      unfolding ht_removeIf_def removeIf_loop_ideal [OF c(1) order_refl counts] Let_def
      by (simp only: tests_ideal [where tr = tr] rehash_ideal)
  qed
qed (simp add: ideal_self)

lemma pow2_ceiling_le:
  assumes "v \<le> 2 ^ p" shows "pow2_ceiling v \<le> 2 ^ p"
proof -
  obtain k where k: "pow2_ceiling v = 2 ^ k" "\<And>j. j < k \<Longrightarrow> 2 ^ j < v"
    using pow2_from_least [of v 1 v] less_imp_le [OF less_exp [of v]] by (auto simp: pow2_ceiling_def)
  have "k \<le> p" using k(2) [of p] assms by (meson leD leI)
  then show ?thesis by (simp add: k(1))
qed

lemma bestTableSize_ideal:
  assumes "1 \<le> k" "k \<le> 2 ^ 28"
  shows "bestTableSize tr k = bestTableSize (ideal tr) k"
proof -
  have "roundedUp a k = pow2_ceiling k" for a
    using roundUpToPowerOfTwo_ceiling [of k] assms by (cases a) (simp_all add: roundedUp_def)
  moreover have c: "pow2_ceiling k \<le> 2 ^ 28" by (rule pow2_ceiling_le [OF assms(2)])
  then have "wrapped a (pow2_ceiling k * 2) = pow2_ceiling k * 2" "wrapped a (k * 12) = k * 12"
    "wrapped a (pow2_ceiling k * 2 * 5) = pow2_ceiling k * 2 * 5"
    "wrapped a (pow2_ceiling k * 2 * 2) = pow2_ceiling k * 2 * 2" for a
    using assms by (auto intro!: wrapped_small)
  ultimately show ?thesis unfolding bestTableSize_def Let_def ideal_fields by (simp only:)
qed

lemma ht_copy_ideal:
  assumes "m_keyCount t \<le> 2 ^ 28"
  shows "ht_copy tr t = ht_copy (ideal tr) t"
proof (cases "m_keyCount t = 0")
  case False
  with bestTableSize_ideal [of "m_keyCount t" tr] assms show ?thesis by (simp add: ht_copy_def)
qed (simp add: ht_copy_def)

text \<open>C14: on a table that satisfies the invariant the probing loop of \<^verbatim>\<open>lookup\<close> ends; it
  returns the bucket that holds the value stored under the key, and no bucket exactly when the
  key is not in the table.\<close>

theorem ht_lookup_finds:
  assumes "ht_wf tr t"
  shows "\<exists>r. ht_lookup tr t key = Some r \<and>
    (case r of None \<Rightarrow> ht_map tr t key = None
     | Some i \<Rightarrow> i < m_tableSize t \<and> (\<exists>v. m_table t ! i = Live v \<and> ht_map tr t key = Some v))"
  by (rule ht_lookup_map [OF assms])

text \<open>C15: \<^verbatim>\<open>add\<close> ends, keeps the invariant (also when it expands and rehashes the table), reports
  whether the key is new and the position of its entry, and refines the update of a finite map
  that does not overwrite. With the source's arithmetic of 32 bits this is so for tables of at most
  \<open>2 ^ 30\<close> buckets (\<open>sizes_fit\<close>): from \<open>2 ^ 31\<close> buckets on the new size and the load tests wrap around.\<close>

theorem ht_add_refines:
  assumes "minimum_ok tr" "ht_wf tr t" "sizes_fit tr t" "ht_extract tr v = key"
  shows "\<exists>t' i w. ht_add tr key v t = Some (t', Some i, ht_map tr t key = None) \<and> ht_wf tr t' \<and>
    ht_map tr t' = (if ht_map tr t key = None then (ht_map tr t)(key \<mapsto> v) else ht_map tr t) \<and>
    m_table t' ! i = Live w \<and> ht_map tr t' key = Some w"
  unfolding ht_add_ideal [OF assms(1-3)]
  by (rule ht_add_map [OF ideal_traits_ok [OF assms(1)], of t v key, unfolded ideal_invariant ideal_fields, OF assms(2,4)])

text \<open>C16: \<^verbatim>\<open>remove\<close> ends, keeps the invariant (also when it shrinks the table), and
  refines the deletion of a key from a finite map; in the source's arithmetic of 32 bits for tables of at
  most \<open>2 ^ 30\<close> buckets.\<close>

theorem ht_remove_refines:
  assumes "minimum_ok tr" "ht_wf tr t" "sizes_fit tr t"
  shows "\<exists>t'. ht_remove tr key t = Some t' \<and> ht_wf tr t' \<and> ht_map tr t' = (ht_map tr t)(key := None)"
  using ht_remove_map [OF ideal_traits_ok [OF assms(1)], of t key] assms(2)
  unfolding ht_remove_ideal [OF assms(2,3)] by simp

text \<open>C17: the copy constructor, which rebuilds the table at another size, and \<^verbatim>\<open>removeIf\<close> end and
  keep the invariant; the copy has the same content, and \<^verbatim>\<open>removeIf\<close> keeps exactly the values
  its functor rejects. In the source's arithmetic of 32 bits this is so for tables of at most \<open>2 ^ 30\<close>
  buckets, and for the copy of at most \<open>2 ^ 28\<close> keys.\<close>

theorem ht_copy_refines:
  assumes "minimum_ok tr" "ht_wf tr t" "sizes_fit tr t"
  shows "(m_keyCount t \<le> 2 ^ 28 \<or> arithmetic tr = Unbounded \<longrightarrow>
      (\<exists>t'. ht_copy tr t = Some t' \<and> ht_wf tr t' \<and> ht_map tr t' = ht_map tr t)) \<and>
    (\<exists>t'. ht_removeIf tr f t = Some t' \<and> ht_wf tr t' \<and>
       (\<forall>k. ht_map tr t' k = (case ht_map tr t k of None \<Rightarrow> None | Some v \<Rightarrow> if f v then None else Some v)))"
proof -
  have "ht_copy tr t = ht_copy (ideal tr) t" if "m_keyCount t \<le> 2 ^ 28 \<or> arithmetic tr = Unbounded"
    using that ht_copy_ideal [of t tr] by (auto simp: ideal_self)
  then show ?thesis using ht_copy_map [OF ideal_traits_ok [OF assms(1)], of t f] assms(2)
    unfolding ht_removeIf_ideal [OF assms(2,3)] by simp
qed

text \<open>C26: for a table size that fits, the bit trick of \<^verbatim>\<open>roundUpToPowerOfTwo\<close> gives the least power of two
  that is not below its argument.\<close>

theorem roundUpToPowerOfTwo_least:
  assumes "1 \<le> v" "v \<le> 2 ^ 31"
  shows "\<exists>p. unat (roundUpToPowerOfTwo (of_nat v)) = 2 ^ p \<and> v \<le> 2 ^ p \<and> (\<forall>j < p. 2 ^ j < v)"
  using roundUpToPowerOfTwo_ceiling [OF assms] pow2_from_least [of v 1 v] less_imp_le [OF less_exp [of v]]
  by (auto simp: pow2_ceiling_def)

theorem roundUpToPowerOfTwo_least_witness:
  "\<exists>p. unat (roundUpToPowerOfTwo (of_nat 5)) = 2 ^ p \<and> 5 \<le> (2::nat) ^ p \<and> (\<forall>j < p. 2 ^ j < (5::nat))"
  by (rule roundUpToPowerOfTwo_least) simp_all

end
