(* ===== verification/HashSet.thy ===== *)
theory HashSet
  imports HashTable
begin

text \<open>
  \<^verbatim>\<open>WTF/wtf/HashSet.h\<close>: sets on the hash table, with the traits of the two sets the content
  extensions use: sets of node identifiers and sets of actions. The contract that clients rely
  on is the locale \<open>hash_set\<close>; it does not depend on the order in which a set is iterated.
\<close>

section \<open>Operations\<close>

type_synonym 'a HashSet = "'a HashTable"
type_synonym 'a HashSetTraits = "('a, 'a) HashTraits"

definition hs_add :: "'a HashSetTraits \<Rightarrow> 'a \<Rightarrow> 'a HashSet \<Rightarrow> ('a HashSet \<times> bool) option" where
  "hs_add tr v s = do { (s', _, isNewEntry) \<leftarrow> ht_add tr v v s; Some (s', isNewEntry) }"

text \<open>\<^verbatim>\<open>add(begin, end)\<close>: whether any of the values is new.\<close>

fun hs_addAll_loop :: "'a HashSetTraits \<Rightarrow> 'a list \<Rightarrow> 'a HashSet \<Rightarrow> bool \<Rightarrow> ('a HashSet \<times> bool) option" where
  "hs_addAll_loop tr [] s changed = Some (s, changed)"
| "hs_addAll_loop tr (v # vs) s changed = do {
     (s', isNewEntry) \<leftarrow> hs_add tr v s;
     hs_addAll_loop tr vs s' (changed \<or> isNewEntry)
   }"

definition hs_addAll :: "'a HashSetTraits \<Rightarrow> 'a list \<Rightarrow> 'a HashSet \<Rightarrow> ('a HashSet \<times> bool) option" where
  "hs_addAll tr vs s = hs_addAll_loop tr vs s False"

definition hs_initializer :: "'a HashSetTraits \<Rightarrow> 'a list \<Rightarrow> 'a HashSet option" where
  "hs_initializer tr vs = do { (s, _) \<leftarrow> hs_addAll tr vs ht_empty; Some s }"

definition hs_contains :: "'a HashSetTraits \<Rightarrow> 'a HashSet \<Rightarrow> 'a \<Rightarrow> bool option" where
  "hs_contains tr s v = ht_contains tr s v"

text \<open>\<^verbatim>\<open>remove\<close> returns whether the value was there.\<close>

definition hs_remove :: "'a HashSetTraits \<Rightarrow> 'a \<Rightarrow> 'a HashSet \<Rightarrow> ('a HashSet \<times> bool) option" where
  "hs_remove tr v s = do {
     it \<leftarrow> ht_find tr s v;
     (case it of
        None \<Rightarrow> Some (s, False)
      | Some pos \<Rightarrow> do { s' \<leftarrow> ht_removeAt tr pos s; Some (s', True) })
   }"

fun hs_subset :: "'a HashSetTraits \<Rightarrow> 'a list \<Rightarrow> 'a HashSet \<Rightarrow> bool option" where
  "hs_subset tr [] other = Some True"
| "hs_subset tr (v # vs) other = do {
     found \<leftarrow> hs_contains tr other v;
     if found then hs_subset tr vs other else Some False
   }"

definition hs_equal :: "'a HashSetTraits \<Rightarrow> 'a HashSet \<Rightarrow> 'a HashSet \<Rightarrow> bool option" where
  "hs_equal tr s other =
     (if m_keyCount s \<noteq> m_keyCount other then Some False else hs_subset tr (ht_values s) other)"

text \<open>\<^verbatim>\<open>HashSet<uint32_t, DefaultHash, UnsignedWithZeroKeyHashTraits>\<close> and
  \<^verbatim>\<open>HashSet<uint64_t, IntHash, UnsignedWithZeroKeyHashTraits>\<close>. Node identifiers are naturals
  here; they stay far below the two reserved values of 32 bits, and the actions below those of 64. The
  stages that use the sets run on the reference arithmetic, which is that of the source for tables of at
  most \<open>2 ^ 30\<close> buckets (lemmas \<open>ht_add_ideal\<close>, \<open>ht_remove_ideal\<close>, \<open>ht_copy_ideal\<close>).\<close>

definition idSetTraits :: "nat HashSetTraits" where
  "idSetTraits = \<lparr>ht_hash = (\<lambda>k. intHash32 (of_nat k)), ht_extract = (\<lambda>k. k), minimumTableSize = 8,
     arithmetic = Unbounded\<rparr>"

definition actionSetTraits :: "uint64 HashSetTraits" where
  "actionSetTraits = \<lparr>ht_hash = intHash64, ht_extract = (\<lambda>k. k), minimumTableSize = 8,
     arithmetic = Unbounded\<rparr>"

section \<open>The contract\<close>

locale hash_set =
  fixes inv :: "'s \<Rightarrow> bool" and elems :: "'s \<Rightarrow> 'a list" and none :: "'s"
    and insert_one :: "'a \<Rightarrow> 's \<Rightarrow> ('s \<times> bool) option" and duplicate :: "'s \<Rightarrow> 's option"
  assumes none: "inv none" "elems none = []"
    and elems_distinct: "inv s \<Longrightarrow> distinct (elems s)"
    and insert_one: "inv s \<Longrightarrow> \<exists>s'. insert_one x s = Some (s', x \<notin> set (elems s)) \<and> inv s' \<and>
          set (elems s') = insert x (set (elems s))"
    and duplicate: "inv s \<Longrightarrow> \<exists>s'. duplicate s = Some s' \<and> inv s' \<and> set (elems s') = set (elems s)"
begin

lemma insert_list:
  assumes "inv s" and "\<And>s. f [] s = Some s"
    and "\<And>x xs s. f (x # xs) s = do { (s', _) \<leftarrow> insert_one x s; f xs s' }"
  shows "\<exists>s'. f xs s = Some s' \<and> inv s' \<and> set (elems s') = set xs \<union> set (elems s)"
  using assms(1)
proof (induction xs arbitrary: s)
  case (Cons x xs)
  obtain s' where "insert_one x s = Some (s', x \<notin> set (elems s))" "inv s'"
    "set (elems s') = insert x (set (elems s))" using insert_one [OF Cons.prems] by blast
  with Cons.IH [of s'] show ?case by (simp add: assms(3))
qed (simp add: assms(2))

lemma insert_one_size:
  assumes "inv s" "insert_one x s = Some (s', new)"
  shows "length (elems s') = length (elems s) + (if new then 1 else 0)"
proof -
  from insert_one [OF assms(1), of x] assms(2) have "inv s'" "new \<longleftrightarrow> x \<notin> set (elems s)"
    "set (elems s') = insert x (set (elems s))" by auto
  with elems_distinct assms(1) show ?thesis by (simp add: distinct_card [symmetric] card_insert_if)
qed

end

lemma hs_traits_ok: "traits_ok idSetTraits" "traits_ok actionSetTraits"
  by (auto simp: traits_ok_def idSetTraits_def actionSetTraits_def pow2_def intro: exI [of _ 3])

lemma hs_extract: "ht_extract idSetTraits k = k" "ht_extract actionSetTraits a = a"
  by (simp_all add: idSetTraits_def actionSetTraits_def)

lemma hs_add_ok:
  assumes "traits_ok tr" "\<And>k. ht_extract tr k = k" "ht_wf tr s"
  shows "\<exists>s'. hs_add tr x s = Some (s', x \<notin> set (ht_values s)) \<and> ht_wf tr s' \<and>
    set (ht_values s') = insert x (set (ht_values s))"
proof -
  have keys: "ht_keys tr s = set (ht_values s)" using assms(2) by (auto simp: ht_keys_def image_iff)
  obtain s' e where s': "ht_add tr x x s = Some (s', e, x \<notin> ht_keys tr s)" "ht_wf tr s'"
    "mset (ht_values s') = (if x \<in> ht_keys tr s then mset (ht_values s) else add_mset x (mset (ht_values s)))"
    using ht_add_ok [OF assms(1,3), of x x] assms(2) by blast
  from arg_cong [OF s'(3), of set_mset] s'(1,2) show ?thesis
    by (auto simp: hs_add_def keys insert_absorb split: if_splits)
qed

lemma hs_copy_ok:
  assumes "traits_ok tr" "ht_wf tr s"
  shows "\<exists>s'. ht_copy tr s = Some s' \<and> ht_wf tr s' \<and> set (ht_values s') = set (ht_values s)"
  using ht_copy_ok [OF assms] by (metis mset_eq_setD)

lemma hs_values_distinct: "(\<And>k. ht_extract tr k = k) \<Longrightarrow> ht_wf tr s \<Longrightarrow> distinct (ht_values s)"
  using ht_keys_distinct [of tr s] by (simp add: map_idI)

interpretation ids: hash_set "ht_wf idSetTraits" ht_values ht_empty "hs_add idSetTraits" "ht_copy idSetTraits"
  by unfold_locales
    (simp_all add: ht_wf_empty hs_add_ok hs_copy_ok hs_traits_ok hs_extract
      hs_values_distinct [of idSetTraits, OF hs_extract(1)])

interpretation acts: hash_set "ht_wf actionSetTraits" ht_values ht_empty "hs_add actionSetTraits"
    "ht_copy actionSetTraits"
  by unfold_locales
    (simp_all add: ht_wf_empty hs_add_ok hs_copy_ok hs_traits_ok hs_extract
      hs_values_distinct [of actionSetTraits, OF hs_extract(2)])

section \<open>The other operations\<close>

lemma hs_addAll_loop_ok:
  assumes "traits_ok tr" "\<And>k. ht_extract tr k = k" "ht_wf tr s"
  shows "\<exists>s'. hs_addAll_loop tr vs s changed = Some (s', changed \<or> \<not> set vs \<subseteq> set (ht_values s)) \<and>
    ht_wf tr s' \<and> set (ht_values s') = set vs \<union> set (ht_values s)"
  using assms(3)
proof (induction vs arbitrary: s changed)
  case (Cons v vs)
  obtain s' where s': "hs_add tr v s = Some (s', v \<notin> set (ht_values s))" "ht_wf tr s'"
    "set (ht_values s') = insert v (set (ht_values s))"
    using hs_add_ok [OF assms(1,2) Cons.prems, of v] by blast
  from Cons.IH [OF s'(2), of "changed \<or> v \<notin> set (ht_values s)"] s' show ?case by auto
qed simp

lemma hs_addAll_ok:
  assumes "traits_ok tr" "\<And>k. ht_extract tr k = k" "ht_wf tr s"
  shows "\<exists>s'. hs_addAll tr vs s = Some (s', \<not> set vs \<subseteq> set (ht_values s)) \<and>
    ht_wf tr s' \<and> set (ht_values s') = set vs \<union> set (ht_values s)"
  using hs_addAll_loop_ok [OF assms, of vs False] by (simp add: hs_addAll_def)

lemma hs_initializer_ok:
  assumes "traits_ok tr" "\<And>k. ht_extract tr k = k"
  shows "\<exists>s. hs_initializer tr vs = Some s \<and> ht_wf tr s \<and> set (ht_values s) = set vs"
  using hs_addAll_ok [OF assms ht_wf_empty(1), of vs] by (auto simp: hs_initializer_def ht_wf_empty)

lemma hs_contains_ok:
  assumes "\<And>k. ht_extract tr k = k" "ht_wf tr s"
  shows "hs_contains tr s v = Some (v \<in> set (ht_values s))"
proof -
  have "ht_keys tr s = set (ht_values s)" using assms(1) by (auto simp: ht_keys_def image_iff)
  then show ?thesis using ht_contains_ok [OF assms(2), of v] by (simp add: hs_contains_def)
qed

lemma hs_subset_ok:
  assumes "\<And>k. ht_extract tr k = k" "ht_wf tr other"
  shows "hs_subset tr vs other = Some (set vs \<subseteq> set (ht_values other))"
  by (induction vs) (simp_all add: hs_contains_ok [OF assms])

lemma hs_equal_ok:
  assumes "\<And>k. ht_extract tr k = k" "ht_wf tr s" "ht_wf tr other"
  shows "hs_equal tr s other = Some (set (ht_values s) = set (ht_values other))"
proof -
  have "m_keyCount s = card (set (ht_values s))" "m_keyCount other = card (set (ht_values other))"
    using assms(2,3) distinct_card [OF hs_values_distinct [OF assms(1,2)]] distinct_card [OF hs_values_distinct [OF assms(1,3)]]
    by (simp_all only: ht_wf_def)
  moreover have "set (ht_values s) = set (ht_values other) \<longleftrightarrow> set (ht_values s) \<subseteq> set (ht_values other) \<and>
      card (set (ht_values s)) = card (set (ht_values other))"
    using card_subset_eq [OF finite_set, of "set (ht_values s)" "ht_values other"] by (metis order_refl)
  ultimately show ?thesis by (simp add: hs_equal_def hs_subset_ok [OF assms(1,3)])
qed

lemma hs_remove_ok:
  assumes "traits_ok tr" "\<And>k. ht_extract tr k = k" "ht_wf tr s"
  shows "\<exists>s'. hs_remove tr v s = Some (s', v \<in> set (ht_values s)) \<and> ht_wf tr s' \<and>
    set (ht_values s') = set (ht_values s) - {v}"
proof -
  have keys: "ht_keys tr s = set (ht_values s)" using assms(2) by (auto simp: ht_keys_def image_iff)
  obtain s' where s': "ht_remove tr v s = Some s'" "ht_wf tr s'"
    "mset (ht_values s') = filter_mset (\<lambda>w. ht_extract tr w \<noteq> v) (mset (ht_values s))"
    using ht_remove_ok [OF assms(1,3)] by blast
  have vals: "set (ht_values s') = set (ht_values s) - {v}"
    using arg_cong [OF s'(3), of set_mset] assms(2) by auto
  obtain r where r: "ht_lookup tr s v = Some r"
    "case r of None \<Rightarrow> v \<notin> ht_keys tr s
     | Some i \<Rightarrow> i < m_tableSize s \<and> (\<exists>w. m_table s ! i = Live w \<and> ht_extract tr w = v)"
    using ht_lookup_ok [OF assms(3)] by blast
  have "r \<noteq> None \<longleftrightarrow> v \<in> set (ht_values s)"
    using r(2) keys set_table_values [of "m_table s"] assms(2)
    by (auto simp: ht_values_def split: option.splits simp del: set_concat)
  moreover have "ht_find tr s v = Some r"
    using r by (cases "m_table s = []") (auto simp: ht_find_def split: option.splits)
  ultimately show ?thesis
    using s' vals by (cases r) (auto simp: hs_remove_def ht_remove_def)
qed

lemma hs_addAll_size:
  assumes "arithmetic tr = Unbounded" "hs_addAll_loop tr vs s changed = Some (s', changed')"
  shows "m_tableSize s' \<le> 2 ^ length vs * max (minimumTableSize tr) (m_tableSize s)"
  using assms(2)
proof (induction vs arbitrary: s changed)
  case (Cons v vs)
  then obtain s1 new where s1: "hs_add tr v s = Some (s1, new)" "hs_addAll_loop tr vs s1 (changed \<or> new) = Some (s', changed')"
    by (auto split: Option.bind_splits)
  then have "m_tableSize s1 \<le> 2 * max (minimumTableSize tr) (m_tableSize s)"
    using ht_add_size [OF assms(1)] by (auto simp: hs_add_def split: Option.bind_splits)
  then have "max (minimumTableSize tr) (m_tableSize s1) \<le> 2 * max (minimumTableSize tr) (m_tableSize s)" by simp
  from order_trans [OF Cons.IH [OF s1(2)] mult_le_mono2 [OF this]] show ?case by (simp add: algebra_simps)
qed simp

section \<open>A table at work\<close>

definition example_set :: "nat HashSet" where
  "example_set = (case hs_initializer idSetTraits [3, 11, 19, 7] of Some s \<Rightarrow> s | None \<Rightarrow> ht_empty)"

lemma example_set_ok: "ht_wf idSetTraits example_set" "set (ht_values example_set) = set [3, 11, 19, 7]"
proof -
  obtain s where "hs_initializer idSetTraits [3, 11, 19, 7] = Some s" "ht_wf idSetTraits s"
    "set (ht_values s) = set [3, 11, 19, 7]"
    using hs_initializer_ok [OF hs_traits_ok(1) hs_extract(1)] by blast
  then show "ht_wf idSetTraits example_set" "set (ht_values example_set) = set [3, 11, 19, 7]"
    by (simp_all only: example_set_def option.case)
qed

lemma example_set_size: "m_tableSize example_set \<le> 128"
proof -
  obtain s where s: "hs_initializer idSetTraits [3, 11, 19, 7] = Some s"
    using hs_initializer_ok [OF hs_traits_ok(1) hs_extract(1), of "[3, 11, 19, 7]"] by (elim exE conjE)
  then have "m_tableSize s \<le> 2 ^ 4 * 8"
    using hs_addAll_size [of idSetTraits "[3, 11, 19, 7]" ht_empty False s]
    by (auto simp: hs_initializer_def hs_addAll_def traits_ok_arithmetic hs_traits_ok ht_empty_def idSetTraits_def split: Option.bind_splits
       simp del: hs_addAll_loop.simps)
  with s show ?thesis by (simp add: example_set_def)
qed

lemma example_set_map:
  "ht_map idSetTraits example_set k = (if k \<in> {3, 7, 11, 19} then Some k else None)"
  using ht_map_Some [OF example_set_ok(1), of k k] ht_map_None [of idSetTraits example_set k] example_set_ok(2)
  by (auto simp: hs_extract ht_keys_def)

theorem ht_lookup_finds_witness:
  "(\<exists>i. ht_lookup idSetTraits example_set 11 = Some (Some i) \<and> m_table example_set ! i = Live 11) \<and>
   ht_lookup idSetTraits example_set 12 = Some None"
  using ht_lookup_finds [OF example_set_ok(1), of 11] ht_lookup_finds [OF example_set_ok(1), of 12]
  by (auto simp: example_set_map split: option.splits)

text \<open>The same table in the source's arithmetic.\<close>

definition machineIdSetTraits :: "nat HashSetTraits" where
  "machineIdSetTraits = idSetTraits\<lparr>arithmetic := Unsigned32\<rparr>"

lemma machine_ideal: "ideal machineIdSetTraits = idSetTraits"
  by (simp add: ideal_def machineIdSetTraits_def idSetTraits_def)

lemma machine_traits: "minimum_ok machineIdSetTraits" "arithmetic machineIdSetTraits = Unsigned32"
  "ht_extract machineIdSetTraits k = k" "minimumTableSize machineIdSetTraits = 8"
  by (auto simp: minimum_ok_def machineIdSetTraits_def idSetTraits_def pow2_def intro: exI [of _ 3])

lemma example_set_machine:
  "ht_wf machineIdSetTraits example_set" "sizes_fit machineIdSetTraits example_set" "m_keyCount example_set \<le> 2 ^ 28"
  "ht_map machineIdSetTraits example_set k = (if k \<in> {3, 7, 11, 19} then Some k else None)"
proof -
  show "ht_wf machineIdSetTraits example_set"
    using example_set_ok(1) ideal_invariant(2) [of machineIdSetTraits] by (simp add: machine_ideal)
  show "ht_map machineIdSetTraits example_set k = (if k \<in> {3, 7, 11, 19} then Some k else None)"
    using example_set_map ideal_invariant(4) [of machineIdSetTraits] by (simp add: machine_ideal)
  show fit: "sizes_fit machineIdSetTraits example_set"
    using example_set_size by (simp add: sizes_fit_def machine_traits)
  have "m_keyCount example_set \<le> m_tableSize example_set"
    using example_set_ok(1) by (cases "m_table example_set = []") (auto simp: ht_wf_def maxLoad_def ht_values_def)
  then show "m_keyCount example_set \<le> 2 ^ 28" using example_set_size by simp
qed

theorem ht_add_refines_witness:
  "arithmetic machineIdSetTraits = Unsigned32 \<and>
   (\<exists>t' e. ht_add machineIdSetTraits 4 4 example_set = Some (t', e, True) \<and> ht_map machineIdSetTraits t' 4 = Some 4 \<and>
      ht_map machineIdSetTraits t' 19 = Some 19)"
  using ht_add_refines [OF machine_traits(1) example_set_machine(1,2) machine_traits(3), of 4]
  by (auto simp: example_set_machine(4) machine_traits(2))

theorem ht_remove_refines_witness:
  "arithmetic machineIdSetTraits = Unsigned32 \<and>
   (\<exists>t'. ht_remove machineIdSetTraits 7 example_set = Some t' \<and> ht_map machineIdSetTraits t' 7 = None \<and>
      ht_map machineIdSetTraits t' 3 = Some 3)"
  using ht_remove_refines [OF machine_traits(1) example_set_machine(1,2), of 7]
  by (auto simp: example_set_machine(4) machine_traits(2))

theorem ht_copy_refines_witness:
  "arithmetic machineIdSetTraits = Unsigned32 \<and>
   (\<exists>t'. ht_copy machineIdSetTraits example_set = Some t' \<and> ht_map machineIdSetTraits t' 11 = Some 11) \<and>
   (\<exists>t'. ht_removeIf machineIdSetTraits even example_set = Some t' \<and> ht_map machineIdSetTraits t' 11 = Some 11)"
  using ht_copy_refines [OF machine_traits(1) example_set_machine(1,2), of even] example_set_machine(3)
  by (auto simp: example_set_machine(4) machine_traits(2))

end
