(* ===== verification/ImmutableNFA.thy ===== *)
theory ImmutableNFA
  imports RangeList HashSet
begin

text \<open>
  \<^verbatim>\<open>ImmutableNFA.h\<close> and \<^verbatim>\<open>ImmutableNFANodeBuilder.h\<close>: the automaton as flat vectors that its nodes
  index, and the builder of a node, which writes the node into the automaton when it is
  destroyed. A builder lives beside the automaton; only its finalization changes the vectors.
\<close>

section \<open>Data\<close>

record ImmutableRange =
  targetStart :: nat
  targetEnd :: nat
  ir_first :: charval
  ir_last :: charval

record ImmutableNFANode =
  rangesStart :: nat
  rangesEnd :: nat
  epsilonTransitionTargetsStart :: nat
  epsilonTransitionTargetsEnd :: nat
  actionStart :: nat
  actionEnd :: nat

record NFA =
  nodes :: "ImmutableNFANode list"
  transitions :: "ImmutableRange list"
  targets :: "nat list"
  epsilonTransitionsTargets :: "nat list"
  nfa_actions :: "uint64 list"

definition emptyNFA :: NFA where
  "emptyNFA = \<lparr>nodes = [], transitions = [], targets = [], epsilonTransitionsTargets = [], nfa_actions = []\<rparr>"

definition defaultNode :: ImmutableNFANode where
  "defaultNode = \<lparr>rangesStart = 0, rangesEnd = 0, epsilonTransitionTargetsStart = 0,
     epsilonTransitionTargetsEnd = 0, actionStart = 0, actionEnd = 0\<rparr>"

text \<open>The elements of a vector from one position up to another.\<close>

definition slice :: "nat \<Rightarrow> nat \<Rightarrow> 'a list \<Rightarrow> 'a list" where
  "slice i j xs = take (j - i) (drop i xs)"

text \<open>What the range iterators of a node show: each range with the targets it iterates over.\<close>

definition transitionsForNode :: "NFA \<Rightarrow> nat \<Rightarrow> nat list rangeSeq" where
  "transitionsForNode nfa nodeId =
     (let node = nodes nfa ! nodeId
      in map (\<lambda>r. (ir_first r, ir_last r, slice (targetStart r) (targetEnd r) (targets nfa)))
           (slice (rangesStart node) (rangesEnd node) (transitions nfa)))"

definition epsilonTargetsForNode :: "NFA \<Rightarrow> nat \<Rightarrow> nat list" where
  "epsilonTargetsForNode nfa nodeId =
     (let node = nodes nfa ! nodeId
      in slice (epsilonTransitionTargetsStart node) (epsilonTransitionTargetsEnd node)
           (epsilonTransitionsTargets nfa))"

definition actionsForNode :: "NFA \<Rightarrow> nat \<Rightarrow> uint64 list" where
  "actionsForNode nfa nodeId =
     (let node = nodes nfa ! nodeId in slice (actionStart node) (actionEnd node) (nfa_actions nfa))"

text \<open>\<^verbatim>\<open>root()\<close> release-asserts that there is a node.\<close>

definition nfa_root :: "NFA \<Rightarrow> nat option" where
  "nfa_root nfa = (if nodes nfa = [] then None else Some 0)"

section \<open>The builder\<close>

record NodeBuilder =
  m_ranges :: "nat HashSet MutableRangeList"
  m_epsilonTransitionTargets :: "nat HashSet"
  m_actions :: "uint64 HashSet"
  m_nodeId :: nat
  m_finalized :: bool

definition newNodeBuilder :: "NFA \<Rightarrow> NFA \<times> NodeBuilder" where
  "newNodeBuilder nfa =
     (nfa\<lparr>nodes := nodes nfa @ [defaultNode]\<rparr>,
      \<lparr>m_ranges = [], m_epsilonTransitionTargets = ht_empty, m_actions = ht_empty,
       m_nodeId = length (nodes nfa), m_finalized = False\<rparr>)"

text \<open>A member of the builder that is constructed or assigned, and the same member of the other builder.\<close>

datatype Side = This | Other

abbreviation sides :: "'t \<Rightarrow> 't \<Rightarrow> Side \<Rightarrow> 't" where
  "sides t u \<equiv> case_Side t u"

text \<open>The move constructor, with the memory of the new sets before as its first arguments. It initializes the
  epsilon targets from the member that is being constructed; the other builder is left finalized.\<close>

definition moveNodeBuilder :: "nat HashSet \<Rightarrow> uint64 HashSet \<Rightarrow> NodeBuilder \<Rightarrow> NodeBuilder \<times> NodeBuilder" where
  "moveNodeBuilder targets0 actions0 other =
     (let ts = ht_moveConstruct This This (sides targets0 (m_epsilonTransitionTargets other));
          as = ht_moveConstruct This Other (sides actions0 (m_actions other))
      in (\<lparr>m_ranges = m_ranges other, m_epsilonTransitionTargets = ts This, m_actions = as This,
            m_nodeId = m_nodeId other, m_finalized = m_finalized other\<rparr>,
          other\<lparr>m_ranges := [], m_epsilonTransitionTargets := ts Other, m_actions := as Other,
                m_finalized := True\<rparr>))"

text \<open>The converter of \<^verbatim>\<open>addTransition\<close>. The set operations always return on well-formed tables
  (lemma \<open>targetConverter_contract\<close>), so their values are taken here.\<close>

definition targetConverter :: "(nat HashSet, nat) DataConverter" where
  "targetConverter =
     \<lparr>dc_convert = (\<lambda>target. the (hs_initializer idSetTraits [target])),
      dc_extend = (\<lambda>existingTargets target. fst (the (hs_add idSetTraits target existingTargets))),
      dc_copy = (\<lambda>s. the (ht_copy idSetTraits s))\<rparr>"

definition addTransition :: "charval \<Rightarrow> charval \<Rightarrow> nat \<Rightarrow> NodeBuilder \<Rightarrow> NodeBuilder option" where
  "addTransition f l targetNodeId b = do {
     r \<leftarrow> mrl_extend targetConverter (m_ranges b) [(f, l, targetNodeId)];
     Some (b\<lparr>m_ranges := r\<rparr>)
   }"

definition addEpsilonTransition :: "nat \<Rightarrow> NodeBuilder \<Rightarrow> NodeBuilder option" where
  "addEpsilonTransition targetNodeId b = do {
     (s, _) \<leftarrow> hs_add idSetTraits targetNodeId (m_epsilonTransitionTargets b);
     Some (b\<lparr>m_epsilonTransitionTargets := s\<rparr>)
   }"

definition setActions :: "uint64 list \<Rightarrow> NodeBuilder \<Rightarrow> NodeBuilder option" where
  "setActions as b = do {
     (s, _) \<leftarrow> hs_addAll actionSetTraits as (m_actions b);
     Some (b\<lparr>m_actions := s\<rparr>)
   }"

definition sinkActions :: "NodeBuilder \<Rightarrow> NFA \<Rightarrow> NFA" where
  "sinkActions b nfa =
     (let actionStart = length (nfa_actions nfa);
          actions' = nfa_actions nfa @ ht_values (m_actions b);
          actionEnd = length actions';
          node = nodes nfa ! m_nodeId b
      in nfa\<lparr>nfa_actions := actions',
             nodes := (nodes nfa)[m_nodeId b := node\<lparr>actionStart := actionStart, actionEnd := actionEnd\<rparr>]\<rparr>)"

fun sinkRanges :: "nat HashSet rangeSeq \<Rightarrow> NFA \<Rightarrow> NFA" where
  "sinkRanges [] nfa = nfa"
| "sinkRanges ((f, l, s) # ranges) nfa =
     (let targetsStart = length (targets nfa);
          targets' = targets nfa @ ht_values s;
          targetsEnd = length targets'
      in sinkRanges ranges
           (nfa\<lparr>targets := targets',
                transitions := transitions nfa @
                  [\<lparr>targetStart = targetsStart, targetEnd = targetsEnd, ir_first = f, ir_last = l\<rparr>]\<rparr>))"

definition sinkTransitions :: "NodeBuilder \<Rightarrow> NFA \<Rightarrow> NFA" where
  "sinkTransitions b nfa =
     (let transitionsStart = length (transitions nfa);
          nfa' = sinkRanges (mrl_elements (m_ranges b)) nfa;
          transitionsEnd = length (transitions nfa');
          node = nodes nfa' ! m_nodeId b
      in nfa'\<lparr>nodes := (nodes nfa')[m_nodeId b :=
                node\<lparr>rangesStart := transitionsStart, rangesEnd := transitionsEnd\<rparr>]\<rparr>)"

definition sinkEpsilonTransitions :: "NodeBuilder \<Rightarrow> NFA \<Rightarrow> NFA" where
  "sinkEpsilonTransitions b nfa =
     (let start = length (epsilonTransitionsTargets nfa);
          targets' = epsilonTransitionsTargets nfa @ ht_values (m_epsilonTransitionTargets b);
          end' = length targets';
          node = nodes nfa ! m_nodeId b
      in nfa\<lparr>epsilonTransitionsTargets := targets',
             nodes := (nodes nfa)[m_nodeId b :=
               node\<lparr>epsilonTransitionTargetsStart := start, epsilonTransitionTargetsEnd := end'\<rparr>]\<rparr>)"

definition finalizeBuilder :: "NodeBuilder \<Rightarrow> NFA \<Rightarrow> NFA" where
  "finalizeBuilder b nfa = sinkTransitions b (sinkEpsilonTransitions b (sinkActions b nfa))"

text \<open>The destructor, and \<^verbatim>\<open>operator=\<close>, which finalizes the builder it overwrites: it returns the
  automaton and the builder that takes its place.\<close>

definition destroyBuilder :: "NodeBuilder \<Rightarrow> NFA \<Rightarrow> NFA" where
  "destroyBuilder b nfa = (if m_finalized b then nfa else finalizeBuilder b nfa)"

definition assignBuilder :: "NodeBuilder \<Rightarrow> NodeBuilder \<Rightarrow> NFA \<Rightarrow> NFA \<times> NodeBuilder" where
  "assignBuilder b other nfa =
     (let ts = ht_moveAssign This Other (sides (m_epsilonTransitionTargets b) (m_epsilonTransitionTargets other));
          as = ht_moveAssign This Other (sides (m_actions b) (m_actions other))
      in (destroyBuilder b nfa,
          \<lparr>m_ranges = m_ranges other, m_epsilonTransitionTargets = ts This, m_actions = as This,
           m_nodeId = m_nodeId other, m_finalized = m_finalized other\<rparr>))"

section \<open>The graph of an automaton\<close>

text \<open>Edges carry a character, or none for an epsilon transition.\<close>

type_synonym edge = "nat \<times> charval option \<times> nat"

definition range_edges :: "nat \<Rightarrow> nat list rangeSeq \<Rightarrow> edge set" where
  "range_edges i rs = {(i, Some c, j) | c j. \<exists>(f, l, ts) \<in> set rs. f \<le> c \<and> c \<le> l \<and> j \<in> set ts}"

definition node_edges :: "NFA \<Rightarrow> nat \<Rightarrow> edge set" where
  "node_edges nfa i = range_edges i (transitionsForNode nfa i) \<union>
     {(i, None, j) | j. j \<in> set (epsilonTargetsForNode nfa i)}"

definition nfa_edges :: "NFA \<Rightarrow> edge set" where
  "nfa_edges nfa = (\<Union>i < length (nodes nfa). node_edges nfa i)"

definition builder_edges :: "NodeBuilder \<Rightarrow> edge set" where
  "builder_edges b =
     range_edges (m_nodeId b) (map (\<lambda>(f, l, s). (f, l, ht_values s)) (mrl_elements (m_ranges b))) \<union>
     {(m_nodeId b, None, j) | j. j \<in> set (ht_values (m_epsilonTransitionTargets b))}"

text \<open>The slices of the nodes lie inside the vectors, and the ranges of a node are sorted and
  disjoint.\<close>

definition node_wf :: "NFA \<Rightarrow> ImmutableNFANode \<Rightarrow> bool" where
  "node_wf nfa node \<longleftrightarrow>
     rangesStart node \<le> rangesEnd node \<and> rangesEnd node \<le> length (transitions nfa) \<and>
     epsilonTransitionTargetsStart node \<le> epsilonTransitionTargetsEnd node \<and>
     epsilonTransitionTargetsEnd node \<le> length (epsilonTransitionsTargets nfa) \<and>
     actionStart node \<le> actionEnd node \<and> actionEnd node \<le> length (nfa_actions nfa)"

definition nfa_wf :: "NFA \<Rightarrow> bool" where
  "nfa_wf nfa \<longleftrightarrow> (\<forall>node \<in> set (nodes nfa). node_wf nfa node) \<and>
     (\<forall>r \<in> set (transitions nfa). targetStart r \<le> targetEnd r \<and> targetEnd r \<le> length (targets nfa)) \<and>
     (\<forall>i < length (nodes nfa). sorted_ranges 0 127 (transitionsForNode nfa i))"

definition builder_wf :: "NodeBuilder \<Rightarrow> bool" where
  "builder_wf b \<longleftrightarrow> mrl_wf (m_ranges b) \<and> sorted_ranges 0 127 (mrl_elements (m_ranges b)) \<and>
     good_ranges (ht_wf idSetTraits) (mrl_elements (m_ranges b)) \<and>
     ht_wf idSetTraits (m_epsilonTransitionTargets b) \<and> ht_wf actionSetTraits (m_actions b)"

section \<open>Slices\<close>

lemma slice_empty [simp]: "slice i i xs = []" "slice 0 0 xs = []"
  by (simp_all add: slice_def)

lemma slice_append: "j \<le> length xs \<Longrightarrow> slice i j (xs @ ys) = slice i j xs"
  by (cases "i \<le> j") (auto simp: slice_def)

lemma slice_end: "slice (length xs) (length xs + length ys) (xs @ ys) = ys"
  by (simp add: slice_def)

lemma set_slice: "set (slice i j xs) \<subseteq> set xs"
  unfolding slice_def by (meson set_drop_subset set_take_subset subset_trans)

section \<open>Edges\<close>

lemma range_at_in: "sorted_ranges m hi rs \<Longrightarrow>
  range_at rs c = Some d \<longleftrightarrow> (\<exists>f l. (f, l, d) \<in> set rs \<and> f \<le> c \<and> c \<le> l)"
proof (induction m hi rs rule: sorted_ranges.induct)
  case (2 m hi f l d' xs)
  have IH: "range_at xs c = Some d \<longleftrightarrow> (\<exists>f l. (f, l, d) \<in> set xs \<and> f \<le> c \<and> c \<le> l)" using 2 by simp
  have "range_at xs c = None" if "c \<le> l"
    using 2(2) that by (intro range_at_below [of "l + 1" hi]) auto
  then have "\<not> (\<exists>f l. (f, l, d) \<in> set xs \<and> f \<le> c \<and> c \<le> l)" if "c \<le> l" using IH that by simp
  with IH show ?case by (cases "f \<le> c \<and> c \<le> l") (auto simp del: not_ex)
qed simp

lemma range_edges_at:
  assumes "sorted_ranges m hi rs"
  shows "range_edges i rs = {(i, Some c, j) | c j. \<exists>ts. range_at rs c = Some ts \<and> j \<in> set ts}"
  using range_at_in [OF assms] by (fastforce simp: range_edges_def)

lemma range_at_map: "range_at (map (\<lambda>(f, l, s). (f, l, g s)) rs) c = map_option g (range_at rs c)"
  by (induction rs) auto

lemma sorted_ranges_map:
  "sorted_ranges m hi (map (\<lambda>(f, l, s). (f, l, g s)) rs) = sorted_ranges m hi rs"
  by (induction m hi rs rule: sorted_ranges.induct) auto

lemma builder_edges_at:
  assumes "sorted_ranges m hi (mrl_elements (m_ranges b))"
  shows "builder_edges b =
    {(m_nodeId b, Some c, j) | c j. \<exists>T. map_option (\<lambda>s. set (ht_values s)) (range_at (mrl_elements (m_ranges b)) c)
        = Some T \<and> j \<in> T} \<union>
    {(m_nodeId b, None, j) | j. j \<in> set (ht_values (m_epsilonTransitionTargets b))}"
proof -
  have "sorted_ranges m hi (map (\<lambda>(f, l, s). (f, l, ht_values s)) (mrl_elements (m_ranges b)))"
    using assms by (simp add: sorted_ranges_map)
  from range_edges_at [OF this] show ?thesis by (auto simp: builder_edges_def range_at_map)
qed

section \<open>Building a node\<close>

lemma targetConverter_convert:
  "ht_wf idSetTraits (dc_convert targetConverter e)" "set (ht_values (dc_convert targetConverter e)) = {e}"
proof -
  obtain s where "hs_initializer idSetTraits [e] = Some s" "ht_wf idSetTraits s" "set (ht_values s) = set [e]"
    using hs_initializer_ok [OF hs_traits_ok(1) hs_extract(1)] by blast
  then show "ht_wf idSetTraits (dc_convert targetConverter e)" "set (ht_values (dc_convert targetConverter e)) = {e}"
    by (simp_all add: targetConverter_def)
qed

lemma targetConverter_extend:
  assumes "ht_wf idSetTraits d"
  shows "ht_wf idSetTraits (dc_extend targetConverter d e)"
    "set (ht_values (dc_extend targetConverter d e)) = insert e (set (ht_values d))"
proof -
  obtain s where "hs_add idSetTraits e d = Some (s, e \<notin> set (ht_values d))" "ht_wf idSetTraits s"
    "set (ht_values s) = insert e (set (ht_values d))"
    using ids.insert_one [OF assms] by blast
  then show "ht_wf idSetTraits (dc_extend targetConverter d e)"
    "set (ht_values (dc_extend targetConverter d e)) = insert e (set (ht_values d))"
    by (simp_all add: targetConverter_def)
qed

lemma targetConverter_copy:
  assumes "ht_wf idSetTraits d"
  shows "ht_wf idSetTraits (dc_copy targetConverter d)"
    "set (ht_values (dc_copy targetConverter d)) = set (ht_values d)"
proof -
  obtain s where "ht_copy idSetTraits d = Some s" "ht_wf idSetTraits s" "set (ht_values s) = set (ht_values d)"
    using ids.duplicate [OF assms] by blast
  then show "ht_wf idSetTraits (dc_copy targetConverter d)"
    "set (ht_values (dc_copy targetConverter d)) = set (ht_values d)"
    by (simp_all add: targetConverter_def)
qed

interpretation target_sets: range_data targetConverter "ht_wf idSetTraits" "\<lambda>s. set (ht_values s)"
  "\<lambda>target. {target}" "\<lambda>T target. insert target T"
  by unfold_locales (simp_all add: targetConverter_convert targetConverter_extend targetConverter_copy)

lemma addTransition_ok:
  assumes b: "builder_wf b" and range: "0 \<le> f" "f \<le> l" "l \<le> 127"
  shows "\<exists>b'. addTransition f l t b = Some b' \<and> builder_wf b' \<and> m_nodeId b' = m_nodeId b \<and>
    m_actions b' = m_actions b \<and> m_finalized b' = m_finalized b \<and>
    builder_edges b' = builder_edges b \<union> {(m_nodeId b, Some c, t) | c. f \<le> c \<and> c \<le> l}"
proof -
  let ?set = "\<lambda>s :: nat HashSet. set (ht_values s)"
  have b': "mrl_wf (m_ranges b)" "sorted_ranges 0 127 (mrl_elements (m_ranges b))"
    "good_ranges (ht_wf idSetTraits) (mrl_elements (m_ranges b))" using b by (simp_all add: builder_wf_def)
  have "sorted_ranges 0 127 [(f, l, t)]" using range by simp
  from target_sets.extend_meaning [OF b'(1,2) this b'(3)] obtain R where
    R: "mrl_extend targetConverter (m_ranges b) [(f, l, t)] = Some R" "mrl_wf R"
      "sorted_ranges 0 127 (mrl_elements R)" "good_ranges (ht_wf idSetTraits) (mrl_elements R)"
    and at: "\<And>c. map_option ?set (range_at (mrl_elements R) c) = merge_at (\<lambda>t. {t}) (\<lambda>T t. insert t T)
      (map_option ?set (range_at (mrl_elements (m_ranges b)) c)) (range_at [(f, l, t)] c)"
    by auto
  let ?b = "b\<lparr>m_ranges := R\<rparr>"
  have "builder_edges ?b = builder_edges b \<union> {(m_nodeId b, Some c, t) | c. f \<le> c \<and> c \<le> l}"
  proof -
    have "(\<exists>T. map_option ?set (range_at (mrl_elements R) c) = Some T \<and> j \<in> T) \<longleftrightarrow>
      (\<exists>T. map_option ?set (range_at (mrl_elements (m_ranges b)) c) = Some T \<and> j \<in> T) \<or> (j = t \<and> f \<le> c \<and> c \<le> l)"
      for c j
      by (cases "range_at (mrl_elements (m_ranges b)) c") (auto simp: at simp del: map_option_eq_Some)
    then show ?thesis
      using builder_edges_at [OF b'(2)] builder_edges_at [of 0 127 ?b] R(3)
      by (auto simp del: map_option_eq_Some)
  qed
  with R b show ?thesis by (auto simp: addTransition_def builder_wf_def)
qed

lemma addEpsilonTransition_ok:
  assumes b: "builder_wf b"
  shows "\<exists>b'. addEpsilonTransition t b = Some b' \<and> builder_wf b' \<and> m_nodeId b' = m_nodeId b \<and>
    m_actions b' = m_actions b \<and> m_finalized b' = m_finalized b \<and>
    builder_edges b' = builder_edges b \<union> {(m_nodeId b, None, t)}"
proof -
  from ids.insert_one [of "m_epsilonTransitionTargets b" t] b obtain s where
    "hs_add idSetTraits t (m_epsilonTransitionTargets b) = Some (s, t \<notin> set (ht_values (m_epsilonTransitionTargets b)))"
    "ht_wf idSetTraits s" "set (ht_values s) = insert t (set (ht_values (m_epsilonTransitionTargets b)))"
    by (auto simp: builder_wf_def)
  with b show ?thesis by (auto simp: addEpsilonTransition_def builder_wf_def builder_edges_def)
qed

lemma setActions_ok:
  assumes b: "builder_wf b"
  shows "\<exists>b'. setActions as b = Some b' \<and> builder_wf b' \<and> m_nodeId b' = m_nodeId b \<and>
    m_finalized b' = m_finalized b \<and> builder_edges b' = builder_edges b \<and>
    set (ht_values (m_actions b')) = set as \<union> set (ht_values (m_actions b))"
proof -
  from hs_addAll_ok [OF hs_traits_ok(2) hs_extract(2), of "m_actions b" as] b obtain s where
    "hs_addAll actionSetTraits as (m_actions b) = Some (s, \<not> set as \<subseteq> set (ht_values (m_actions b)))"
    "ht_wf actionSetTraits s" "set (ht_values s) = set as \<union> set (ht_values (m_actions b))"
    by (auto simp: builder_wf_def)
  with b show ?thesis by (auto simp: setActions_def builder_wf_def builder_edges_def)
qed

text \<open>Two automata show the same at a node; a node shows nothing yet.\<close>

definition same_node :: "NFA \<Rightarrow> NFA \<Rightarrow> nat \<Rightarrow> bool" where
  "same_node nfa nfa' i \<longleftrightarrow> transitionsForNode nfa' i = transitionsForNode nfa i \<and>
     epsilonTargetsForNode nfa' i = epsilonTargetsForNode nfa i \<and> actionsForNode nfa' i = actionsForNode nfa i"

definition blank :: "NFA \<Rightarrow> nat \<Rightarrow> bool" where
  "blank nfa i \<longleftrightarrow> transitionsForNode nfa i = [] \<and> epsilonTargetsForNode nfa i = [] \<and> actionsForNode nfa i = []"

lemma same_node_refl [simp]: "same_node nfa nfa i"
  by (simp add: same_node_def)

lemma same_node_trans: "same_node nfa nfa' i \<Longrightarrow> same_node nfa' nfa'' i \<Longrightarrow> same_node nfa nfa'' i"
  by (simp add: same_node_def)

lemma same_node_blank: "same_node nfa nfa' i \<Longrightarrow> blank nfa i \<Longrightarrow> blank nfa' i"
  by (simp add: same_node_def blank_def)

lemma same_node_edges: "same_node nfa nfa' i \<Longrightarrow> node_edges nfa' i = node_edges nfa i"
  by (simp add: same_node_def node_edges_def)

lemma blank_edges: "blank nfa i \<Longrightarrow> node_edges nfa i = {}"
  by (simp add: blank_def node_edges_def range_edges_def)

lemma sorted_ranges_data: "sorted_ranges m hi (map (\<lambda>(f, l, s). (f, l, g s)) xs) = sorted_ranges m hi xs"
  by (induction m hi xs rule: sorted_ranges.induct) auto

lemma newNodeBuilder_ok:
  assumes "newNodeBuilder nfa = (nfa', b)" and wf: "nfa_wf nfa"
  shows "nfa_wf nfa'" "builder_wf b" "m_nodeId b = length (nodes nfa)" "\<not> m_finalized b"
    "length (nodes nfa') = Suc (length (nodes nfa))" "builder_edges b = {}" "blank nfa' (m_nodeId b)"
    "ht_values (m_actions b) = []"
    "\<And>i. i < length (nodes nfa) \<Longrightarrow> same_node nfa nfa' i" "nfa_edges nfa' = nfa_edges nfa"
proof -
  have nfa': "nfa' = nfa\<lparr>nodes := nodes nfa @ [defaultNode]\<rparr>"
    and b: "b = \<lparr>m_ranges = [], m_epsilonTransitionTargets = ht_empty, m_actions = ht_empty,
       m_nodeId = length (nodes nfa), m_finalized = False\<rparr>"
    using assms(1) by (auto simp: newNodeBuilder_def)
  show "builder_wf b"
    by (simp add: b builder_wf_def mrl_wf_def mrl_elements_def ht_wf_empty)
  show "m_nodeId b = length (nodes nfa)" "\<not> m_finalized b" "length (nodes nfa') = Suc (length (nodes nfa))"
    "ht_values (m_actions b) = []"
    by (simp_all add: b nfa' ht_wf_empty)
  show "builder_edges b = {}"
    by (simp add: b builder_edges_def range_edges_def mrl_elements_def ht_wf_empty)
  show bl: "blank nfa' (m_nodeId b)"
    by (simp add: b nfa' blank_def transitionsForNode_def epsilonTargetsForNode_def actionsForNode_def
        defaultNode_def)
  show same: "same_node nfa nfa' i" if "i < length (nodes nfa)" for i
    using that by (simp add: same_node_def nfa' transitionsForNode_def epsilonTargetsForNode_def
        actionsForNode_def nth_append)
  have "sorted_ranges 0 127 (transitionsForNode nfa' i)" if "i < length (nodes nfa')" for i
  proof (cases "i < length (nodes nfa)")
    case True
    with same wf show ?thesis by (simp add: same_node_def nfa_wf_def)
  next
    case False
    with that bl show ?thesis by (simp add: nfa' b blank_def less_Suc_eq)
  qed
  with wf show "nfa_wf nfa'" by (auto simp: nfa' nfa_wf_def node_wf_def defaultNode_def)
  show "nfa_edges nfa' = nfa_edges nfa"
    using same_node_edges [OF same] blank_edges [OF bl] by (simp add: nfa_edges_def nfa' b lessThan_Suc)
qed

lemma sinkRanges_ok:
  "\<exists>T R. sinkRanges rs nfa = nfa\<lparr>targets := targets nfa @ T, transitions := transitions nfa @ R\<rparr> \<and>
    map (\<lambda>r. (ir_first r, ir_last r, slice (targetStart r) (targetEnd r) (targets nfa @ T))) R
      = map (\<lambda>(f, l, s). (f, l, ht_values s)) rs \<and>
    (\<forall>r \<in> set R. targetStart r \<le> targetEnd r \<and> targetEnd r \<le> length (targets nfa @ T))"
proof (induction rs arbitrary: nfa)
  case Nil
  show ?case by (intro exI [of _ "[]"]) simp
next
  case (Cons x rs)
  obtain f l s where x: "x = (f, l, s)" by (cases x) auto
  let ?r = "\<lparr>targetStart = length (targets nfa), targetEnd = length (targets nfa) + length (ht_values s),
      ir_first = f, ir_last = l\<rparr>"
  let ?nfa = "nfa\<lparr>targets := targets nfa @ ht_values s, transitions := transitions nfa @ [?r]\<rparr>"
  from Cons.IH [of ?nfa] obtain T R where
    "sinkRanges rs ?nfa = ?nfa\<lparr>targets := targets ?nfa @ T, transitions := transitions ?nfa @ R\<rparr>"
    "map (\<lambda>r. (ir_first r, ir_last r, slice (targetStart r) (targetEnd r) (targets ?nfa @ T))) R
      = map (\<lambda>(f, l, s). (f, l, ht_values s)) rs"
    "\<forall>r \<in> set R. targetStart r \<le> targetEnd r \<and> targetEnd r \<le> length (targets ?nfa @ T)"
    by blast
  moreover have "slice (length (targets nfa)) (length (targets nfa) + length (ht_values s))
      (targets nfa @ ht_values s @ T) = ht_values s"
    by (simp add: slice_def)
  ultimately show ?case
    by (intro exI [of _ "ht_values s @ T"] exI [of _ "?r # R"]) (simp add: x Let_def)
qed

lemma finalizeBuilder_eq:
  obtains T R where "finalizeBuilder b nfa = nfa\<lparr>
      nodes := (nodes nfa)[m_nodeId b := \<lparr>rangesStart = length (transitions nfa),
         rangesEnd = length (transitions nfa) + length R,
         epsilonTransitionTargetsStart = length (epsilonTransitionsTargets nfa),
         epsilonTransitionTargetsEnd = length (epsilonTransitionsTargets nfa)
           + length (ht_values (m_epsilonTransitionTargets b)),
         actionStart = length (nfa_actions nfa),
         actionEnd = length (nfa_actions nfa) + length (ht_values (m_actions b))\<rparr>],
      transitions := transitions nfa @ R, targets := targets nfa @ T,
      epsilonTransitionsTargets := epsilonTransitionsTargets nfa @ ht_values (m_epsilonTransitionTargets b),
      nfa_actions := nfa_actions nfa @ ht_values (m_actions b)\<rparr>"
    "map (\<lambda>r. (ir_first r, ir_last r, slice (targetStart r) (targetEnd r) (targets nfa @ T))) R
      = map (\<lambda>(f, l, s). (f, l, ht_values s)) (mrl_elements (m_ranges b))"
    "\<forall>r \<in> set R. targetStart r \<le> targetEnd r \<and> targetEnd r \<le> length (targets nfa @ T)"
proof -
  let ?nfa = "sinkEpsilonTransitions b (sinkActions b nfa)"
  from sinkRanges_ok [of "mrl_elements (m_ranges b)" ?nfa] obtain T R where
    TR: "sinkRanges (mrl_elements (m_ranges b)) ?nfa =
      ?nfa\<lparr>targets := targets ?nfa @ T, transitions := transitions ?nfa @ R\<rparr>"
    "map (\<lambda>r. (ir_first r, ir_last r, slice (targetStart r) (targetEnd r) (targets ?nfa @ T))) R
      = map (\<lambda>(f, l, s). (f, l, ht_values s)) (mrl_elements (m_ranges b))"
    "\<forall>r \<in> set R. targetStart r \<le> targetEnd r \<and> targetEnd r \<le> length (targets ?nfa @ T)"
    by blast
  have frame: "targets ?nfa = targets nfa" "transitions ?nfa = transitions nfa"
    by (simp_all add: sinkEpsilonTransitions_def sinkActions_def Let_def)
  show thesis
  proof (rule that [of T R])
    show "map (\<lambda>r. (ir_first r, ir_last r, slice (targetStart r) (targetEnd r) (targets nfa @ T))) R
      = map (\<lambda>(f, l, s). (f, l, ht_values s)) (mrl_elements (m_ranges b))"
      "\<forall>r \<in> set R. targetStart r \<le> targetEnd r \<and> targetEnd r \<le> length (targets nfa @ T)"
      using TR frame by simp_all
  qed (rule NFA.equality; cases "m_nodeId b < length (nodes nfa)"; cases "nodes nfa ! m_nodeId b";
      simp add: finalizeBuilder_def sinkTransitions_def TR(1) frame;
      simp add: sinkEpsilonTransitions_def sinkActions_def Let_def list_update_beyond)
qed

lemma finalizeBuilder_ok:
  assumes wf: "nfa_wf nfa" and id: "m_nodeId b < length (nodes nfa)" "blank nfa (m_nodeId b)"
    and bwf: "builder_wf b"
  shows "nfa_wf (finalizeBuilder b nfa)" "length (nodes (finalizeBuilder b nfa)) = length (nodes nfa)"
    "\<And>i. i < length (nodes nfa) \<Longrightarrow> i \<noteq> m_nodeId b \<Longrightarrow> same_node nfa (finalizeBuilder b nfa) i"
    "node_edges (finalizeBuilder b nfa) (m_nodeId b) = builder_edges b"
    "actionsForNode (finalizeBuilder b nfa) (m_nodeId b) = ht_values (m_actions b)"
    "transitionsForNode (finalizeBuilder b nfa) (m_nodeId b)
       = map (\<lambda>(f, l, s). (f, l, ht_values s)) (mrl_elements (m_ranges b))"
    "nfa_edges (finalizeBuilder b nfa) = nfa_edges nfa \<union> builder_edges b"
proof -
  obtain T R where fin: "finalizeBuilder b nfa = nfa\<lparr>
      nodes := (nodes nfa)[m_nodeId b := \<lparr>rangesStart = length (transitions nfa),
         rangesEnd = length (transitions nfa) + length R,
         epsilonTransitionTargetsStart = length (epsilonTransitionsTargets nfa),
         epsilonTransitionTargetsEnd = length (epsilonTransitionsTargets nfa)
           + length (ht_values (m_epsilonTransitionTargets b)),
         actionStart = length (nfa_actions nfa),
         actionEnd = length (nfa_actions nfa) + length (ht_values (m_actions b))\<rparr>],
      transitions := transitions nfa @ R, targets := targets nfa @ T,
      epsilonTransitionsTargets := epsilonTransitionsTargets nfa @ ht_values (m_epsilonTransitionTargets b),
      nfa_actions := nfa_actions nfa @ ht_values (m_actions b)\<rparr>" (is "_ = ?nfa")
    and R: "map (\<lambda>r. (ir_first r, ir_last r, slice (targetStart r) (targetEnd r) (targets nfa @ T))) R
      = map (\<lambda>(f, l, s). (f, l, ht_values s)) (mrl_elements (m_ranges b))"
    "\<forall>r \<in> set R. targetStart r \<le> targetEnd r \<and> targetEnd r \<le> length (targets nfa @ T)"
    by (rule finalizeBuilder_eq)
  have node: "node_wf nfa node \<Longrightarrow> node_wf ?nfa node" for node by (auto simp: node_wf_def)
  show len: "length (nodes (finalizeBuilder b nfa)) = length (nodes nfa)" by (simp add: fin)
  show same: "same_node nfa (finalizeBuilder b nfa) i" if "i < length (nodes nfa)" "i \<noteq> m_nodeId b" for i
  proof -
    have "nodes nfa ! i \<in> set (nodes nfa)" using that by simp
    then have w: "node_wf nfa (nodes nfa ! i)" using wf by (simp add: nfa_wf_def)
    have "targetEnd r \<le> length (targets nfa)"
      if "r \<in> set (slice (rangesStart (nodes nfa ! i)) (rangesEnd (nodes nfa ! i)) (transitions nfa))" for r
      using that wf set_slice by (fastforce simp: nfa_wf_def)
    with that w show ?thesis
      by (auto simp: same_node_def fin transitionsForNode_def epsilonTargetsForNode_def actionsForNode_def
          node_wf_def slice_append Let_def)
  qed
  show tr: "transitionsForNode (finalizeBuilder b nfa) (m_nodeId b)
       = map (\<lambda>(f, l, s). (f, l, ht_values s)) (mrl_elements (m_ranges b))"
    using id R(1) by (simp add: fin transitionsForNode_def slice_end Let_def)
  show "nfa_wf (finalizeBuilder b nfa)"
  proof -
    have "node_wf ?nfa node" if "node \<in> set (nodes ?nfa)" for node
      using that wf node [of node] by (auto simp: nfa_wf_def node_wf_def dest!: set_update_subset_insert [THEN subsetD])
    moreover have "targetStart r \<le> targetEnd r \<and> targetEnd r \<le> length (targets ?nfa)"
      if "r \<in> set (transitions ?nfa)" for r
      using that wf R(2) by (auto simp: nfa_wf_def)
    moreover have "sorted_ranges 0 127 (transitionsForNode (finalizeBuilder b nfa) i)" if "i < length (nodes nfa)" for i
    proof (cases "i = m_nodeId b")
      case True
      with tr bwf show ?thesis by (simp add: builder_wf_def sorted_ranges_data)
    next
      case False
      with that same wf show ?thesis by (simp add: same_node_def nfa_wf_def)
    qed
    ultimately show ?thesis unfolding fin by (simp only: nfa_wf_def len [unfolded fin]) blast
  qed
  have ep: "epsilonTargetsForNode (finalizeBuilder b nfa) (m_nodeId b) = ht_values (m_epsilonTransitionTargets b)"
    using id by (simp add: fin epsilonTargetsForNode_def slice_end Let_def)
  show "actionsForNode (finalizeBuilder b nfa) (m_nodeId b) = ht_values (m_actions b)"
    using id by (simp add: fin actionsForNode_def slice_end Let_def)
  show edges: "node_edges (finalizeBuilder b nfa) (m_nodeId b) = builder_edges b"
    by (simp add: node_edges_def builder_edges_def tr ep)
  have "node_edges (finalizeBuilder b nfa) i = (if i = m_nodeId b then builder_edges b else node_edges nfa i)"
    if "i < length (nodes nfa)" for i
    using that edges same_node_edges [OF same] by simp
  then show "nfa_edges (finalizeBuilder b nfa) = nfa_edges nfa \<union> builder_edges b"
    using id blank_edges [OF id(2)] by (auto simp: nfa_edges_def len split: if_splits)
qed

section \<open>Moving a builder\<close>

text \<open>A table that is moved into itself is cleared by the move constructor and kept by the move assignment.\<close>

lemma ht_moveConstruct_same: "ht_values (ht_moveConstruct this this store this) = []"
  by (simp add: ht_moveConstruct_def ht_values_def)

lemma ht_moveConstruct_other: "this \<noteq> other \<Longrightarrow> ht_moveConstruct this other store this = store other"
  by (cases "store other") (simp add: ht_moveConstruct_def)

lemma ht_moveAssign_this: "ht_moveAssign this other store this = store other"
  by (cases "store other") (simp add: ht_moveAssign_def ht_moveConstruct_def ht_swap_def Let_def)

lemma assignBuilder_eq: "assignBuilder b other nfa = (destroyBuilder b nfa, other)"
  by (cases other) (simp add: assignBuilder_def ht_moveAssign_this)

lemma range_edges_label: "e \<in> range_edges i rs \<Longrightarrow> fst (snd e) \<noteq> None"
  by (auto simp: range_edges_def)

lemma moveNodeBuilder_ok:
  assumes "moveNodeBuilder targets0 actions0 b = (b', other)" "builder_wf b"
  shows "builder_wf b'" "m_nodeId b' = m_nodeId b" "m_actions b' = m_actions b" "m_finalized b' = m_finalized b"
    "m_finalized other" "builder_edges b' = {e \<in> builder_edges b. fst (snd e) \<noteq> None}"
proof -
  have b': "b' = b\<lparr>m_epsilonTransitionTargets := ht_moveConstruct This This (sides targets0 (m_epsilonTransitionTargets b)) This\<rparr>"
    and other: "m_finalized other"
    using assms(1) by (cases b; auto simp: moveNodeBuilder_def Let_def ht_moveConstruct_other)+
  show "m_nodeId b' = m_nodeId b" "m_actions b' = m_actions b" "m_finalized b' = m_finalized b" "m_finalized other"
    by (simp_all add: b' other)
  have "ht_moveConstruct This This (sides targets0 (m_epsilonTransitionTargets b)) This = ht_empty"
    by (simp add: ht_moveConstruct_def ht_empty_def)
  then show "builder_wf b'" using assms(2) by (simp add: b' builder_wf_def ht_wf_empty)
  show "builder_edges b' = {e \<in> builder_edges b. fst (snd e) \<noteq> None}"
    using range_edges_label by (auto simp: b' builder_edges_def ht_moveConstruct_same)
qed



end
