(* ===== verification/Fragments.thy ===== *)
theory Fragments
  imports ImmutableNFA
begin

text \<open>
  Languages, paths through a graph of labelled edges, and fragments: sets of edges that lead
  from an entry to an exit by exactly the words of a language. The lemmas compose fragments in
  the ways the graph generator does.
\<close>

section \<open>Languages\<close>

type_synonym input = "charval list"
type_synonym lang = "input set"

definition conc :: "lang \<Rightarrow> lang \<Rightarrow> lang" where
  "conc A B = {u @ v | u v. u \<in> A \<and> v \<in> B}"

inductive_set star :: "lang \<Rightarrow> lang" for A :: lang where
  star_Nil: "[] \<in> star A"
| star_append: "u \<in> A \<Longrightarrow> v \<in> star A \<Longrightarrow> u @ v \<in> star A"

definition plus_lang :: "lang \<Rightarrow> lang" where
  "plus_lang A = conc A (star A)"

fun conc_all :: "lang list \<Rightarrow> lang" where
  "conc_all [] = {[]}"
| "conc_all (A # As) = conc A (conc_all As)"

lemma concI: "u \<in> A \<Longrightarrow> v \<in> B \<Longrightarrow> u @ v \<in> conc A B"
  by (auto simp: conc_def)

lemma concE: "w \<in> conc A B \<Longrightarrow> (\<And>u v. w = u @ v \<Longrightarrow> u \<in> A \<Longrightarrow> v \<in> B \<Longrightarrow> P) \<Longrightarrow> P"
  by (auto simp: conc_def)

lemma conc_epsilon [simp]: "conc A {[]} = A" "conc {[]} A = A"
  by (auto simp: conc_def)

lemma star_single: "u \<in> A \<Longrightarrow> u \<in> star A"
  using star_append [OF _ star_Nil] by force

lemma star_unfold: "star A = insert [] (plus_lang A)"
proof (intro equalityI subsetI)
  fix w assume "w \<in> star A"
  then show "w \<in> insert [] (plus_lang A)" by cases (auto simp: plus_lang_def concI)
qed (auto simp: plus_lang_def star_Nil elim!: concE intro: star_append)

section \<open>Paths\<close>

inductive path :: "edge set \<Rightarrow> nat \<Rightarrow> input \<Rightarrow> nat \<Rightarrow> bool" for E :: "edge set" where
  path_Nil: "path E i [] i"
| path_eps: "(i, None, j) \<in> E \<Longrightarrow> path E j w k \<Longrightarrow> path E i w k"
| path_char: "(i, Some c, j) \<in> E \<Longrightarrow> path E j w k \<Longrightarrow> path E i (c # w) k"

lemma path_trans: "path E i u j \<Longrightarrow> path E j v k \<Longrightarrow> path E i (u @ v) k"
  by (induction rule: path.induct) (auto intro: path.intros)

lemma path_mono: "path E i w j \<Longrightarrow> E \<subseteq> E' \<Longrightarrow> path E' i w j"
  by (induction rule: path.induct) (auto intro: path.intros)

lemma path_edge: "(i, None, j) \<in> E \<Longrightarrow> path E i [] j" "(i, Some c, j) \<in> E \<Longrightarrow> path E i [c] j"
  by (auto intro: path.intros)

text \<open>A residual: words that may still be read from a node. If the edges respect it, every path
  to the exit reads such a word.\<close>

definition residual :: "edge set \<Rightarrow> nat \<Rightarrow> (nat \<Rightarrow> lang) \<Rightarrow> bool" where
  "residual E d R \<longleftrightarrow> [] \<in> R d \<and> (\<forall>i j. (i, None, j) \<in> E \<longrightarrow> R j \<subseteq> R i) \<and>
     (\<forall>i c j w. (i, Some c, j) \<in> E \<longrightarrow> w \<in> R j \<longrightarrow> c # w \<in> R i)"

lemma residual_path: "residual E d R \<Longrightarrow> path E i w d \<Longrightarrow> w \<in> R i"
  by (rotate_tac 1, induction i w d rule: path.induct) (auto simp: residual_def)

lemma residual_paths: "residual E d (\<lambda>i. {w. path E i w d})"
  by (auto simp: residual_def intro: path.intros)

section \<open>Fragments\<close>

definition fragment :: "edge set \<Rightarrow> nat \<Rightarrow> nat \<Rightarrow> nat set \<Rightarrow> lang \<Rightarrow> bool" where
  "fragment E s d N L \<longleftrightarrow> s \<noteq> d \<and> s \<notin> N \<and> d \<notin> N \<and>
     (\<forall>(i, a, j) \<in> E. i \<in> insert s N \<and> j \<in> insert d N) \<and> (\<forall>w. path E s w d \<longleftrightarrow> w \<in> L)"

lemma fragment_edge: "fragment E s d N L \<Longrightarrow> (i, a, j) \<in> E \<Longrightarrow> i \<in> insert s N \<and> j \<in> insert d N"
  by (auto simp: fragment_def)

lemma fragment_lang: "fragment E s d N L \<Longrightarrow> path E s w d \<longleftrightarrow> w \<in> L"
  by (auto simp: fragment_def)

lemma fragment_mono: "fragment E s d N L \<Longrightarrow> N \<subseteq> M \<Longrightarrow> s \<notin> M \<Longrightarrow> d \<notin> M \<Longrightarrow> fragment E s d M L"
  by (fastforce simp: fragment_def)

text \<open>Edges of characters straight to the exit, and a single epsilon edge.\<close>

lemma fragment_chars:
  assumes "s \<noteq> d"
  shows "fragment {(s, Some c, d) | c. c \<in> C} s d {} {[c] | c. c \<in> C}" (is "fragment ?E s d {} ?L")
proof -
  let ?R = "\<lambda>i. if i = d then {[]} else if i = s then ?L else {}"
  have "residual ?E d ?R" using assms by (auto simp: residual_def)
  with assms residual_path [of ?E d ?R s] show ?thesis
    by (auto simp: fragment_def intro: path.intros)
qed

lemma fragment_epsilon:
  assumes "s \<noteq> d" shows "fragment {(s, None, d)} s d {} {[]}"
proof -
  let ?E = "{(s, None, d)}" and ?R = "\<lambda>i. if i = d \<or> i = s then {[]} else {}"
  have "residual ?E d ?R" using assms by (auto simp: residual_def)
  with assms residual_path [of ?E d ?R s] show ?thesis
    by (auto simp: fragment_def intro: path.intros)
qed

lemma fragment_optional:
  assumes f: "fragment E s d N L"
  shows "fragment (E \<union> {(s, None, d)}) s d N (insert [] L)"
proof -
  let ?E = "E \<union> {(s, None, d)}"
  let ?R = "\<lambda>i. if i = s then insert [] L else {w. path E i w d}"
  have ne: "s \<noteq> d" using f by (simp add: fragment_def)
  have only: "w = []" if "path E d w d" for w
    using that f by cases (auto simp: fragment_def)
  have "residual ?E d ?R"
    using residual_paths [of E d] f fragment_edge [OF f] ne only
    by (auto simp: residual_def fragment_def intro: path.intros)
  with residual_path [of ?E d ?R s] have "path ?E s w d \<Longrightarrow> w \<in> insert [] L" for w by auto
  moreover have "path ?E s w d" if "w \<in> insert [] L" for w
    using that f path_mono [of E s w d ?E] by (auto simp: fragment_def intro: path.intros)
  ultimately show ?thesis using f by (auto simp: fragment_def)
qed

lemma fragment_exit: "fragment E s d N L \<Longrightarrow> path E d w k \<Longrightarrow> w = [] \<and> k = d"
  by (erule path.cases) (auto simp: fragment_def)

lemma fragment_seq:
  assumes f1: "fragment E1 s m N1 L1" and f2: "fragment E2 m d N2 L2"
    and disj: "N1 \<inter> N2 = {}" "m \<notin> N2" "m \<notin> N1" "s \<notin> N2" "d \<notin> N1" "s \<noteq> d"
  shows "fragment (E1 \<union> E2) s d (insert m (N1 \<union> N2)) (conc L1 L2)"
proof -
  let ?E = "E1 \<union> E2"
  let ?R = "\<lambda>i. if i \<in> insert s N1 then {u @ v | u v. path E1 i u m \<and> v \<in> L2} else {v. path E2 i v d}"
  have m: "m \<notin> insert s N1" using f1 disj by (auto simp: fragment_def)
  have "residual ?E d ?R"
    unfolding residual_def
  proof (intro conjI allI impI)
    have "d \<notin> insert s N1" using disj by auto
    then show "[] \<in> ?R d" by (auto intro: path.intros)
  next
    fix i j assume e: "(i, None, j) \<in> ?E"
    show "?R j \<subseteq> ?R i"
    proof (cases "(i, None, j) \<in> E1")
      case True
      with fragment_edge [OF f1] have ij: "i \<in> insert s N1" "j \<in> insert m N1" by auto
      have "j \<noteq> s" using fragment_edge [OF f1 True] f1 by (auto simp: fragment_def)
      with True ij m fragment_lang [OF f2] show ?thesis
        by (auto intro: path_eps path_Nil split: if_splits) (metis append_Nil path_Nil path_eps)+
    next
      case False
      with e have e2: "(i, None, j) \<in> E2" by simp
      with fragment_edge [OF f2] have "i \<in> insert m N2" "j \<in> insert d N2" by auto
      with disj m have "i \<notin> insert s N1" "j \<notin> insert s N1" using f2 by (auto simp: fragment_def)
      with e2 show ?thesis by (auto intro: path_eps)
    qed
  next
    fix i c j w assume e: "(i, Some c, j) \<in> ?E" and w: "w \<in> ?R j"
    show "c # w \<in> ?R i"
    proof (cases "(i, Some c, j) \<in> E1")
      case True
      with fragment_edge [OF f1] have ij: "i \<in> insert s N1" "j \<in> insert m N1" by auto
      obtain u v where "w = u @ v" "path E1 j u m" "v \<in> L2"
      proof (cases "j = m")
        case True
        with w m fragment_lang [OF f2] have "w \<in> L2" by simp
        with True that [of "[]" w] show ?thesis by (simp add: path_Nil)
      next
        case False
        with ij w that show ?thesis by auto
      qed
      with path_char [OF True] have "path E1 i (c # u) m" "c # w = (c # u) @ v" "v \<in> L2" by auto
      with ij(1) show ?thesis by (metis (mono_tags, lifting) mem_Collect_eq)
    next
      case False
      with e have e2: "(i, Some c, j) \<in> E2" by simp
      with fragment_edge [OF f2] have "i \<in> insert m N2" "j \<in> insert d N2" by auto
      with disj m have "i \<notin> insert s N1" "j \<notin> insert s N1" using f2 by (auto simp: fragment_def)
      with e2 w show ?thesis by (auto intro: path_char)
    qed
  qed
  from residual_path [OF this, of s] have "path ?E s w d \<Longrightarrow> w \<in> conc L1 L2" for w
    using fragment_lang [OF f1] by (auto simp: conc_def)
  moreover have "path ?E s w d" if "w \<in> conc L1 L2" for w
  proof -
    from that obtain u v where w: "w = u @ v" "u \<in> L1" "v \<in> L2" by (rule concE)
    with fragment_lang [OF f1] fragment_lang [OF f2] have "path E1 s u m" "path E2 m v d" by auto
    from path_trans [OF path_mono [OF this(1)] path_mono [OF this(2)]] w(1) show ?thesis by auto
  qed
  ultimately show ?thesis
    using f1 f2 disj by (auto simp: fragment_def)
qed

text \<open>The loop of \<open>*\<close> and \<open>+\<close>: an inner fragment whose exit leads back to its entry and on to the
  outer exit.\<close>

lemma fragment_plus:
  assumes f: "fragment E rs re N L" and new: "s \<notin> insert rs (insert re N)" "d \<notin> insert rs (insert re N)" "s \<noteq> d"
  shows "fragment (E \<union> {(s, None, rs), (re, None, rs), (re, None, d)}) s d (insert rs (insert re N)) (plus_lang L)"
proof -
  let ?E = "E \<union> {(s, None, rs), (re, None, rs), (re, None, d)}"
  let ?R = "\<lambda>i. if i = d then {[]} else if i = s then plus_lang L
       else {u @ v | u v. path E i u re \<and> v \<in> star L}"
  have ne: "rs \<noteq> re" "rs \<noteq> d" "rs \<noteq> s" "re \<noteq> d" "re \<noteq> s" using f new by (auto simp: fragment_def)
  have rs: "?R rs = plus_lang L" using fragment_lang [OF f] ne by (auto simp: plus_lang_def conc_def)
  have re: "star L \<subseteq> ?R re" using ne by (auto intro: path_Nil)
  have "residual ?E d ?R"
    unfolding residual_def
  proof (intro conjI allI impI)
    show "[] \<in> ?R d" by simp
  next
    fix i j assume e: "(i, None, j) \<in> ?E"
    show "?R j \<subseteq> ?R i"
    proof (cases "(i, None, j) \<in> E")
      case True
      with fragment_edge [OF f] have "i \<in> insert rs N" "j \<in> insert re N" by auto
      with new have "i \<noteq> d" "i \<noteq> s" "j \<noteq> d" "j \<noteq> s" by auto
      with path_eps [OF True] show ?thesis by auto
    next
      case False
      with e consider "i = s" "j = rs" | "i = re" "j = rs" | "i = re" "j = d" by auto
      then show ?thesis
      proof cases
        case 1 then show ?thesis using rs new by simp
      next
        case 2
        have "plus_lang L \<subseteq> star L" by (auto simp: star_unfold)
        with 2 rs re show ?thesis by blast
      next
        case 3
        then show ?thesis using ne path_Nil [of E re] star_Nil [of L] by auto
      qed
    qed
  next
    fix i c j w assume e: "(i, Some c, j) \<in> ?E" and w: "w \<in> ?R j"
    then have "(i, Some c, j) \<in> E" by simp
    note step = path_char [OF this] and edge = fragment_edge [OF f this]
    with new have "i \<noteq> d" "i \<noteq> s" "j \<noteq> d" "j \<noteq> s" by auto
    with w obtain u v where "w = u @ v" "path E j u re" "v \<in> star L" by auto
    with step have "c # w = (c # u) @ v" "path E i (c # u) re" by auto
    with \<open>v \<in> star L\<close> \<open>i \<noteq> d\<close> \<open>i \<noteq> s\<close> show "c # w \<in> ?R i" by (metis (mono_tags, lifting) mem_Collect_eq)
  qed
  from residual_path [OF this, of s] have sound: "path ?E s w d \<Longrightarrow> w \<in> plus_lang L" for w using new by auto
  have inner: "path ?E rs u re" if "u \<in> L" for u
    using that fragment_lang [OF f, of u] path_mono [of E rs u re ?E] by auto
  have loop: "path ?E re v d" if "v \<in> star L" for v
    using that
  proof induction
    case star_Nil
    show ?case by (rule path_eps [OF _ path_Nil]) simp
  next
    case (star_append u v)
    from path_trans [OF inner [OF star_append(1)] star_append.IH] show ?case by (rule path_eps [rotated]) simp
  qed
  have "path ?E s w d" if "w \<in> plus_lang L" for w
  proof -
    from that obtain u v where w: "w = u @ v" "u \<in> L" "v \<in> star L" by (auto simp: plus_lang_def elim: concE)
    from path_trans [OF inner [OF w(2)] loop [OF w(3)]] show ?thesis unfolding w(1) by (rule path_eps [rotated]) simp
  qed
  with sound f new show ?thesis by (auto simp: fragment_def)
qed

lemma fragment_star:
  assumes "fragment E rs re N L" "s \<notin> insert rs (insert re N)" "d \<notin> insert rs (insert re N)" "s \<noteq> d"
  shows "fragment (E \<union> {(s, None, rs), (re, None, rs), (re, None, d), (s, None, d)}) s d
    (insert rs (insert re N)) (star L)"
  using fragment_optional [OF fragment_plus [OF assms]] by (simp add: star_unfold insert_commute)

section \<open>The actions of an automaton\<close>

text \<open>The edges stay inside the automaton.\<close>

definition nfa_closed :: "NFA \<Rightarrow> bool" where
  "nfa_closed nfa \<longleftrightarrow> nodes nfa \<noteq> [] \<and> (\<forall>(i, a, j) \<in> nfa_edges nfa. j < length (nodes nfa))"

text \<open>The actions a word triggers: those of the nodes that can be reached from the root by the
  word. Node 0 is the root.\<close>

definition nfa_accepts :: "NFA \<Rightarrow> input \<Rightarrow> uint64 set" where
  "nfa_accepts nfa w = (\<Union>i \<in> {i. i < length (nodes nfa) \<and> path (nfa_edges nfa) 0 w i}. set (actionsForNode nfa i))"

end
