(* ===== verification/Term.thy ===== *)
theory Term
  imports Fragments
begin

text \<open>
  \<^verbatim>\<open>Term.h\<close>: the terms of a parsed URL filter, the predicates the filter compiler asks of them,
  and the generation of the automaton of a term. The language of a term is defined apart, and
  the generated fragment is shown to lead from its source to its destination by exactly the
  words of that language.
\<close>

section \<open>Data\<close>

datatype AtomQuantifier = One | ZeroOrOne | ZeroOrMore | OneOrMore

text \<open>The two words of \<^verbatim>\<open>m_characters\<close> hold the characters 0 to 63 and 64 to 127.\<close>

record CharacterSet =
  m_inverted :: bool
  m_characters0 :: uint64
  m_characters1 :: uint64

datatype Term =
  EmptyTerm (m_quantifier: AtomQuantifier)
| CharacterSetTerm (characterSet: CharacterSet) (m_quantifier: AtomQuantifier)
| GroupTerm (group_terms: "Term list") (m_quantifier: AtomQuantifier)

definition emptyCharacterSet :: CharacterSet where
  "emptyCharacterSet = \<lparr>m_inverted = False, m_characters0 = 0, m_characters1 = 0\<rparr>"

text \<open>\<^verbatim>\<open>set\<close> and \<^verbatim>\<open>get\<close> release-assert that the character is ASCII: \<open>None\<close> is the crash.\<close>

definition cs_set :: "nat \<Rightarrow> CharacterSet \<Rightarrow> CharacterSet option" where
  "cs_set character cs =
     (if character < 128 then
        Some (if character div 64 = 0
              then cs\<lparr>m_characters0 := m_characters0 cs OR push_bit (character mod 64) 1\<rparr>
              else cs\<lparr>m_characters1 := m_characters1 cs OR push_bit (character mod 64) 1\<rparr>)
      else None)"

definition cs_get :: "CharacterSet \<Rightarrow> nat \<Rightarrow> bool option" where
  "cs_get cs character =
     (if character < 128 then
        Some ((if character div 64 = 0 then m_characters0 cs else m_characters1 cs)
              AND push_bit (character mod 64) 1 \<noteq> 0)
      else None)"

definition cs_invert :: "CharacterSet \<Rightarrow> CharacterSet" where
  "cs_invert cs = cs\<lparr>m_inverted := True\<rparr>"

text \<open>\<^verbatim>\<open>WTF::bitCount\<close> of both words.\<close>

definition word_bitCount :: "uint64 \<Rightarrow> nat" where
  "word_bitCount w = length (filter (bit w) [0..<64])"

definition cs_bitCount :: "CharacterSet \<Rightarrow> nat" where
  "cs_bitCount cs = word_bitCount (m_characters0 cs) + word_bitCount (m_characters1 cs)"

definition cs_hash :: "CharacterSet \<Rightarrow> uint32" where
  "cs_hash cs =
     pairIntHash (pairIntHash (intHash64 (m_characters0 cs)) (intHash64 (m_characters1 cs)))
       (if m_inverted cs then 1 else 0)"

section \<open>Construction\<close>

fun addCharacter :: "nat \<Rightarrow> bool \<Rightarrow> Term \<Rightarrow> Term option" where
  "addCharacter character isCaseSensitive (CharacterSetTerm cs q) =
     (if isCaseSensitive \<or> \<not> isASCIIAlpha character
      then do { cs' \<leftarrow> cs_set character cs; Some (CharacterSetTerm cs' q) }
      else do {
        cs' \<leftarrow> cs_set (toASCIIUpper character) cs;
        cs'' \<leftarrow> cs_set (toASCIILower character) cs';
        Some (CharacterSetTerm cs'' q)
      })"
| "addCharacter character isCaseSensitive t = Some t"

definition characterTerm :: "nat \<Rightarrow> bool \<Rightarrow> Term option" where
  "characterTerm character isCaseSensitive =
     addCharacter character isCaseSensitive (CharacterSetTerm emptyCharacterSet One)"

fun cs_setAll :: "nat list \<Rightarrow> CharacterSet \<Rightarrow> CharacterSet option" where
  "cs_setAll [] cs = Some cs"
| "cs_setAll (c # rest) cs = do { cs' \<leftarrow> cs_set c cs; cs_setAll rest cs' }"

definition universalTransitionTerm :: "Term option" where
  "universalTransitionTerm = do {
     cs \<leftarrow> cs_setAll [1..<128] emptyCharacterSet;
     Some (CharacterSetTerm cs One)
   }"

definition characterSetTerm :: "bool \<Rightarrow> Term" where
  "characterSetTerm isInverted =
     CharacterSetTerm (if isInverted then cs_invert emptyCharacterSet else emptyCharacterSet) One"

definition groupTerm :: Term where
  "groupTerm = GroupTerm [] One"

definition endOfLineAssertionTerm :: "Term option" where
  "endOfLineAssertionTerm = do {
     cs \<leftarrow> cs_set 0 (characterSet (characterSetTerm False));
     Some (CharacterSetTerm cs One)
   }"

fun extendGroupSubpattern :: "Term \<Rightarrow> Term \<Rightarrow> Term" where
  "extendGroupSubpattern term (GroupTerm ts q) = GroupTerm (ts @ [term]) q"
| "extendGroupSubpattern term t = t"

fun quantify :: "AtomQuantifier \<Rightarrow> Term \<Rightarrow> Term" where
  "quantify q (EmptyTerm _) = EmptyTerm q"
| "quantify q (CharacterSetTerm cs _) = CharacterSetTerm cs q"
| "quantify q (GroupTerm ts _) = GroupTerm ts q"

section \<open>Predicates\<close>

fun isValid :: "Term \<Rightarrow> bool" where
  "isValid (EmptyTerm _) = False"
| "isValid _ = True"

definition cs_isEndOfLine :: "CharacterSet \<Rightarrow> bool" where
  "cs_isEndOfLine cs \<longleftrightarrow> cs_bitCount cs = 1 \<and> cs_get cs 0 = Some True"

fun isEndOfLineAssertion :: "Term \<Rightarrow> bool" where
  "isEndOfLineAssertion (CharacterSetTerm cs q) = cs_isEndOfLine cs"
| "isEndOfLineAssertion _ = False"

fun matchesAtLeastOneCharacter :: "Term \<Rightarrow> bool" where
  "matchesAtLeastOneCharacter t =
     (if m_quantifier t = ZeroOrOne \<or> m_quantifier t = ZeroOrMore then False
      else if isEndOfLineAssertion t then False
      else (case t of
              GroupTerm ts q \<Rightarrow> list_ex matchesAtLeastOneCharacter ts
            | _ \<Rightarrow> True))"

definition cs_isUniversal :: "CharacterSet \<Rightarrow> bool" where
  "cs_isUniversal cs \<longleftrightarrow>
     (m_inverted cs \<and> cs_bitCount cs = 0) \<or>
     (\<not> m_inverted cs \<and> cs_bitCount cs = 127 \<and> cs_get cs 0 = Some False)"

fun isUniversalTransition :: "Term \<Rightarrow> bool" where
  "isUniversalTransition (EmptyTerm _) = False"
| "isUniversalTransition (CharacterSetTerm cs _) = cs_isUniversal cs"
| "isUniversalTransition (GroupTerm [t] _) = isUniversalTransition t"
| "isUniversalTransition (GroupTerm _ _) = False"

fun isKnownToMatchAnyString :: "Term \<Rightarrow> bool" where
  "isKnownToMatchAnyString (EmptyTerm _) = False"
| "isKnownToMatchAnyString (CharacterSetTerm cs q) =
     (isUniversalTransition (CharacterSetTerm cs q) \<and> q = ZeroOrMore)"
| "isKnownToMatchAnyString (GroupTerm [firstTermInGroup] q) =
     (if isKnownToMatchAnyString firstTermInGroup then True
      else if isUniversalTransition firstTermInGroup then
        (if q = ZeroOrMore then True
         else if q = ZeroOrOne \<and> m_quantifier firstTermInGroup = OneOrMore then True
         else if q = OneOrMore \<and> m_quantifier firstTermInGroup = ZeroOrOne then True
         else False)
      else False)"
| "isKnownToMatchAnyString (GroupTerm _ q) = False"

fun hasFixedLength :: "Term \<Rightarrow> bool" where
  "hasFixedLength (EmptyTerm _) = False"
| "hasFixedLength (CharacterSetTerm cs q) = (q = One)"
| "hasFixedLength (GroupTerm ts q) = (q = One \<and> list_all hasFixedLength ts)"

text \<open>\<^verbatim>\<open>operator==\<close> and \<^verbatim>\<open>hash\<close>. The group hash is a fold over the hashes of the terms.\<close>

definition cs_equal :: "CharacterSet \<Rightarrow> CharacterSet \<Rightarrow> bool" where
  "cs_equal a b \<longleftrightarrow> m_inverted b = m_inverted a \<and> m_characters0 b = m_characters0 a \<and>
     m_characters1 b = m_characters1 a"

definition group_hash_step :: "uint32 \<Rightarrow> uint32 \<Rightarrow> uint32" where
  "group_hash_step h termHash =
     (let h = push_bit 16 h XOR (push_bit 11 termHash XOR h) in h + drop_bit 11 h)"

fun quantifier_value :: "AtomQuantifier \<Rightarrow> uint32" where
  "quantifier_value One = 0"
| "quantifier_value ZeroOrOne = 1"
| "quantifier_value ZeroOrMore = 2"
| "quantifier_value OneOrMore = 3"

fun term_hash :: "Term \<Rightarrow> uint32" and group_hash :: "uint32 \<Rightarrow> Term list \<Rightarrow> uint32" where
  "term_hash (EmptyTerm q) = pairIntHash (push_bit 16 0 OR quantifier_value q) 52184393"
| "term_hash (CharacterSetTerm cs q) = pairIntHash (push_bit 16 1 OR quantifier_value q) (cs_hash cs)"
| "term_hash (GroupTerm ts q) = pairIntHash (push_bit 16 2 OR quantifier_value q) (group_hash 6421749 ts)"
| "group_hash h [] = h"
| "group_hash h (t # ts) = group_hash (group_hash_step h (term_hash t)) ts"

section \<open>Generating the graph\<close>

text \<open>The loops of \<^verbatim>\<open>generateSubgraphForAtom\<close> over a character set: \<open>skip p i\<close> advances while the
  character is below 128 and satisfies \<open>p\<close>, and \<open>addRanges\<close> adds a transition for each maximal
  run of characters that satisfy \<open>p\<close>.\<close>

function skip :: "(nat \<Rightarrow> bool) \<Rightarrow> nat \<Rightarrow> nat" where
  "skip p i = (if i < 128 \<and> p i then skip p (i + 1) else i)"
  by auto
termination by (relation "measure (\<lambda>(p, i). 128 - i)") auto

declare skip.simps [simp del]

lemma skip_bounds: "i \<le> skip p i" "i \<le> 128 \<Longrightarrow> skip p i \<le> 128"
proof -
  show "i \<le> skip p i" by (induction p i rule: skip.induct) (subst skip.simps, auto)
  show "i \<le> 128 \<Longrightarrow> skip p i \<le> 128" by (induction p i rule: skip.induct) (subst skip.simps, auto)
qed

function addRanges :: "(nat \<Rightarrow> bool) \<Rightarrow> nat \<Rightarrow> nat \<Rightarrow> NodeBuilder \<Rightarrow> NodeBuilder option" where
  "addRanges p i destination source =
     (let start = skip (\<lambda>c. \<not> p c) i
      in if 128 \<le> start then Some source
         else (let i' = skip p (start + 1)
               in do {
                 source' \<leftarrow> addTransition (int start) (int i' - 1) destination source;
                 addRanges p i' destination source'
               }))"
  by auto
termination
proof (relation "measure (\<lambda>(p, i, d, b). 128 - i)", goal_cases)
  case (2 p i d source start i' source')
  have "i < i'" using skip_bounds(1) [of i "\<lambda>c. \<not> p c"] skip_bounds(1) [of "start + 1" p] 2 by simp
  with 2 show ?case using skip_bounds(1) [of i "\<lambda>c. \<not> p c"] by auto
qed simp

declare addRanges.simps [simp del]

definition cs_bit :: "CharacterSet \<Rightarrow> nat \<Rightarrow> bool" where
  "cs_bit cs c \<longleftrightarrow> cs_get cs c = Some True"

definition generateCharacterSet :: "CharacterSet \<Rightarrow> NodeBuilder \<Rightarrow> nat \<Rightarrow> NodeBuilder option" where
  "generateCharacterSet cs source destination =
     (if \<not> m_inverted cs then addRanges (cs_bit cs) 0 destination source
      else addRanges (\<lambda>c. \<not> cs_bit cs c) 1 destination source)"

text \<open>\<^verbatim>\<open>generateGraph\<close> and \<^verbatim>\<open>generateSubgraphForAtom\<close>. The builders a function creates are
  destroyed, and so finalized, where their scope ends, in the reverse order of their creation.\<close>

function (sequential)
  generateGraph :: "Term \<Rightarrow> NFA \<Rightarrow> NodeBuilder \<Rightarrow> nat \<Rightarrow> (NFA \<times> NodeBuilder) option" and
  generateSubgraphForAtom :: "Term \<Rightarrow> NFA \<Rightarrow> NodeBuilder \<Rightarrow> nat \<Rightarrow> (NFA \<times> NodeBuilder) option" and
  generateGroupRest :: "Term list \<Rightarrow> NFA \<Rightarrow> NodeBuilder \<Rightarrow> nat \<Rightarrow> NFA option"
where
  "generateGraph t nfa source destination =
     (case m_quantifier t of
        One \<Rightarrow> generateSubgraphForAtom t nfa source destination
      | ZeroOrOne \<Rightarrow> do {
          (nfa, source) \<leftarrow> generateSubgraphForAtom t nfa source destination;
          source \<leftarrow> addEpsilonTransition destination source;
          Some (nfa, source)
        }
      | ZeroOrMore \<Rightarrow>
          (let (nfa, repeatStart) = newNodeBuilder nfa in do {
             source \<leftarrow> addEpsilonTransition (m_nodeId repeatStart) source;
             let (nfa, repeatEnd) = newNodeBuilder nfa;
             (nfa, repeatStart) \<leftarrow> generateSubgraphForAtom t nfa repeatStart (m_nodeId repeatEnd);
             repeatEnd \<leftarrow> addEpsilonTransition (m_nodeId repeatStart) repeatEnd;
             repeatEnd \<leftarrow> addEpsilonTransition destination repeatEnd;
             source \<leftarrow> addEpsilonTransition destination source;
             Some (destroyBuilder repeatStart (destroyBuilder repeatEnd nfa), source)
           })
      | OneOrMore \<Rightarrow>
          (let (nfa, repeatStart) = newNodeBuilder nfa in do {
             source \<leftarrow> addEpsilonTransition (m_nodeId repeatStart) source;
             let (nfa, repeatEnd) = newNodeBuilder nfa;
             (nfa, repeatStart) \<leftarrow> generateSubgraphForAtom t nfa repeatStart (m_nodeId repeatEnd);
             repeatEnd \<leftarrow> addEpsilonTransition (m_nodeId repeatStart) repeatEnd;
             repeatEnd \<leftarrow> addEpsilonTransition destination repeatEnd;
             Some (destroyBuilder repeatStart (destroyBuilder repeatEnd nfa), source)
           }))"
| "generateSubgraphForAtom (EmptyTerm q) nfa source destination = do {
     source \<leftarrow> addEpsilonTransition destination source;
     Some (nfa, source)
   }"
| "generateSubgraphForAtom (CharacterSetTerm cs q) nfa source destination = do {
     source \<leftarrow> generateCharacterSet cs source destination;
     Some (nfa, source)
   }"
| "generateSubgraphForAtom (GroupTerm [] q) nfa source destination = do {
     source \<leftarrow> addEpsilonTransition destination source;
     Some (nfa, source)
   }"
| "generateSubgraphForAtom (GroupTerm [t] q) nfa source destination = generateGraph t nfa source destination"
| "generateSubgraphForAtom (GroupTerm (t # ts) q) nfa source destination =
     (let (nfa, lastTarget) = newNodeBuilder nfa in do {
        (nfa, source) \<leftarrow> generateGraph t nfa source (m_nodeId lastTarget);
        lastTarget \<leftarrow> setActions [] lastTarget;
        nfa \<leftarrow> generateGroupRest ts nfa lastTarget destination;
        Some (nfa, source)
      })"
| "generateGroupRest [] nfa lastTarget destination = Some (destroyBuilder lastTarget nfa)"
| "generateGroupRest [lastTerm] nfa lastTarget destination = do {
     (nfa, lastTarget) \<leftarrow> generateGraph lastTerm nfa lastTarget destination;
     Some (destroyBuilder lastTarget nfa)
   }"
| "generateGroupRest (currentTerm # ts) nfa lastTarget destination =
     (let (nfa, newNode) = newNodeBuilder nfa in do {
        (nfa, lastTarget) \<leftarrow> generateGraph currentTerm nfa lastTarget (m_nodeId newNode);
        newNode \<leftarrow> setActions [] newNode;
        let (nfa, lastTarget) = assignBuilder lastTarget newNode nfa;
        generateGroupRest ts nfa lastTarget destination
      })"
  by pat_completeness auto
termination
  by (relation "measure (\<lambda>x. case x of Inl (t, _) \<Rightarrow> 2 * size t + 1
        | Inr (Inl (t, _)) \<Rightarrow> 2 * size t
        | Inr (Inr (ts, _)) \<Rightarrow> 2 * size_list size ts)") auto

text \<open>\<^verbatim>\<open>generateGraph\<close> with the actions of the end node, which it creates and returns.\<close>

definition generateGraphToEnd :: "Term \<Rightarrow> NFA \<Rightarrow> NodeBuilder \<Rightarrow> uint64 list
     \<Rightarrow> (NFA \<times> NodeBuilder \<times> NodeBuilder) option" where
  "generateGraphToEnd t nfa source finalActions =
     (let (nfa, newEnd) = newNodeBuilder nfa in do {
        (nfa, source) \<leftarrow> generateGraph t nfa source (m_nodeId newEnd);
        newEnd \<leftarrow> setActions finalActions newEnd;
        Some (nfa, source, newEnd)
      })"

section \<open>Languages of terms\<close>

definition cs_chars :: "CharacterSet \<Rightarrow> charval set" where
  "cs_chars cs = {int c | c. c < 128 \<and> (if m_inverted cs then c \<noteq> 0 \<and> \<not> cs_bit cs c else cs_bit cs c)}"

fun quantified :: "AtomQuantifier \<Rightarrow> lang \<Rightarrow> lang" where
  "quantified One L = L"
| "quantified ZeroOrOne L = insert [] L"
| "quantified ZeroOrMore L = star L"
| "quantified OneOrMore L = plus_lang L"

fun term_lang :: "Term \<Rightarrow> lang" where
  "term_lang (EmptyTerm q) = quantified q {[]}"
| "term_lang (CharacterSetTerm cs q) = quantified q {[c] | c. c \<in> cs_chars cs}"
| "term_lang (GroupTerm ts q) = quantified q (conc_all (map term_lang ts))"

fun atom_lang :: "Term \<Rightarrow> lang" where
  "atom_lang (EmptyTerm q) = {[]}"
| "atom_lang (CharacterSetTerm cs q) = {[c] | c. c \<in> cs_chars cs}"
| "atom_lang (GroupTerm ts q) = conc_all (map term_lang ts)"

lemma term_lang_atom: "term_lang t = quantified (m_quantifier t) (atom_lang t)"
  by (cases t) auto

section \<open>Character sets\<close>

lemma skip_passed: "i \<le> c \<Longrightarrow> c < skip p i \<Longrightarrow> p c \<and> c < 128"
proof (induction p i rule: skip.induct)
  case (1 p i)
  show ?case
  proof (cases "i < 128 \<and> p i")
    case True
    with 1 show ?thesis by (cases "c = i") (simp_all add: skip.simps [of p i])
  next
    case False
    with 1(2,3) show ?thesis by (subst (asm) skip.simps) auto
  qed
qed

lemma skip_stop: "skip p i < 128 \<Longrightarrow> \<not> p (skip p i)"
  by (induction p i rule: skip.induct) (metis skip.simps)

lemma addRanges_ok:
  assumes "builder_wf b" "i \<le> 128"
  shows "\<exists>b'. addRanges p i d b = Some b' \<and> builder_wf b' \<and> m_nodeId b' = m_nodeId b \<and>
    m_actions b' = m_actions b \<and> m_finalized b' = m_finalized b \<and>
    builder_edges b' = builder_edges b \<union> {(m_nodeId b, Some (int c), d) | c. i \<le> c \<and> c < 128 \<and> p c}"
  using assms
proof (induction p i d b rule: addRanges.induct)
  case (1 p i d b)
  define start where "start = skip (\<lambda>c. \<not> p c) i"
  define i' where "i' = skip p (start + 1)"
  have start: "i \<le> start" "start \<le> 128" "\<And>c. i \<le> c \<Longrightarrow> c < start \<Longrightarrow> \<not> p c"
    using skip_bounds [of i "\<lambda>c. \<not> p c"] skip_passed [of i _ "\<lambda>c. \<not> p c"] 1(3) by (auto simp: start_def)
  show ?case
  proof (cases "128 \<le> start")
    case True
    with start have "\<not> (i \<le> c \<and> c < 128 \<and> p c)" for c by auto
    with True 1(2) show ?thesis by (simp only: addRanges.simps [of p i] start_def Let_def) simp
  next
    case False
    have p: "p start" using skip_stop [of "\<lambda>c. \<not> p c" i] False by (simp add: start_def)
    have i': "start + 1 \<le> i'" "i' \<le> 128" "\<And>c. start + 1 \<le> c \<Longrightarrow> c < i' \<Longrightarrow> p c"
      using skip_bounds [of "start + 1" p] skip_passed [of "start + 1" _ p] False by (auto simp: i'_def)
    obtain b1 where b1: "addTransition (int start) (int i' - 1) d b = Some b1" "builder_wf b1"
      "m_nodeId b1 = m_nodeId b" "m_actions b1 = m_actions b" "m_finalized b1 = m_finalized b"
      "builder_edges b1 = builder_edges b \<union> {(m_nodeId b, Some c, d) | c. int start \<le> c \<and> c \<le> int i' - 1}"
      using addTransition_ok [OF 1(2), of "int start" "int i' - 1" d] i' by auto
    from "1.IH" [OF start_def False i'_def b1(1,2) i'(2)] obtain b2 where
      b2: "addRanges p i' d b1 = Some b2" "builder_wf b2" "m_nodeId b2 = m_nodeId b" "m_actions b2 = m_actions b"
        "m_finalized b2 = m_finalized b"
        "builder_edges b2 = builder_edges b1 \<union> {(m_nodeId b, Some (int c), d) | c. i' \<le> c \<and> c < 128 \<and> p c}"
      unfolding b1(3-5) by blast
    have run: "int start \<le> c \<and> c \<le> int i' - 1 \<longleftrightarrow> (\<exists>k. c = int k \<and> start \<le> k \<and> k < i')" for c
      by (auto intro: exI [of _ "nat c"])
    have "i \<le> c \<and> c < 128 \<and> p c \<longleftrightarrow> start \<le> c \<and> c < i' \<or> i' \<le> c \<and> c < 128 \<and> p c" for c
    proof (cases "c < start")
      case True
      with start(3) [of c] start(1) i'(1) show ?thesis by auto
    next
      case False
      show ?thesis
      proof (cases "c < i'")
        case True
        with \<open>\<not> c < start\<close> have "p c" using p i'(3) [of c] by (cases "c = start") auto
        with True \<open>\<not> c < start\<close> start(1) i'(2) show ?thesis by auto
      next
        case False
        with start(1) i'(1) show ?thesis by auto
      qed
    qed
    then have "builder_edges b2 = builder_edges b \<union> {(m_nodeId b, Some (int c), d) | c. i \<le> c \<and> c < 128 \<and> p c}"
      unfolding b2(6) b1(6) run by auto
    moreover have "addRanges p i d b = Some b2"
      using b1(1) b2(1) False by (subst addRanges.simps) (simp add: Let_def start_def i'_def)
    ultimately show ?thesis using b2(2-5) by blast
  qed
qed

lemma generateCharacterSet_ok:
  assumes "builder_wf b"
  shows "\<exists>b'. generateCharacterSet cs b d = Some b' \<and> builder_wf b' \<and> m_nodeId b' = m_nodeId b \<and>
    m_actions b' = m_actions b \<and> m_finalized b' = m_finalized b \<and>
    builder_edges b' = builder_edges b \<union> {(m_nodeId b, Some c, d) | c. c \<in> cs_chars cs}"
proof (cases "m_inverted cs")
  case True
  have "{(m_nodeId b, Some c, d) | c. c \<in> cs_chars cs}
      = {(m_nodeId b, Some (int c), d) | c. 1 \<le> c \<and> c < 128 \<and> \<not> cs_bit cs c}"
    using True by (auto simp: cs_chars_def)
  with True addRanges_ok [OF assms, of 1 "\<lambda>c. \<not> cs_bit cs c" d] show ?thesis
    by (simp add: generateCharacterSet_def)
next
  case False
  have "{(m_nodeId b, Some c, d) | c. c \<in> cs_chars cs}
      = {(m_nodeId b, Some (int c), d) | c. 0 \<le> c \<and> c < 128 \<and> cs_bit cs c}"
    using False by (auto simp: cs_chars_def)
  with False addRanges_ok [OF assms, of 0 "cs_bit cs" d] show ?thesis
    by (simp add: generateCharacterSet_def)
qed

section \<open>The generated fragment\<close>

text \<open>What a generator owes its caller: the automaton keeps its nodes and gains nodes without
  actions, the source builder gains edges, and the new edges are a fragment from the source to
  the destination for the language.\<close>

definition generated :: "NFA \<Rightarrow> NodeBuilder \<Rightarrow> nat \<Rightarrow> lang \<Rightarrow> NFA \<Rightarrow> NodeBuilder \<Rightarrow> bool" where
  "generated nfa source d L nfa' source' \<longleftrightarrow>
     nfa_wf nfa' \<and> builder_wf source' \<and> m_nodeId source' = m_nodeId source \<and>
     m_actions source' = m_actions source \<and> m_finalized source' = m_finalized source \<and>
     length (nodes nfa) \<le> length (nodes nfa') \<and> (\<forall>i < length (nodes nfa). same_node nfa nfa' i) \<and>
     (\<forall>i. length (nodes nfa) \<le> i \<longrightarrow> i < length (nodes nfa') \<longrightarrow> actionsForNode nfa' i = []) \<and>
     (\<exists>E1 E2. nfa_edges nfa' = nfa_edges nfa \<union> E1 \<and> builder_edges source' = builder_edges source \<union> E2 \<and>
        fragment (E1 \<union> E2) (m_nodeId source) d {length (nodes nfa)..<length (nodes nfa')} L)"

text \<open>What a caller provides.\<close>

definition generator_ready :: "NFA \<Rightarrow> NodeBuilder \<Rightarrow> nat \<Rightarrow> bool" where
  "generator_ready nfa source d \<longleftrightarrow> nfa_wf nfa \<and> builder_wf source \<and> \<not> m_finalized source \<and>
     m_nodeId source < length (nodes nfa) \<and> d < length (nodes nfa) \<and> m_nodeId source \<noteq> d"

definition generates :: "(NFA \<Rightarrow> NodeBuilder \<Rightarrow> nat \<Rightarrow> (NFA \<times> NodeBuilder) option) \<Rightarrow> lang \<Rightarrow> bool" where
  "generates g L \<longleftrightarrow> (\<forall>nfa source d. generator_ready nfa source d \<longrightarrow>
     (\<exists>nfa' source'. g nfa source d = Some (nfa', source') \<and> generated nfa source d L nfa' source'))"

lemma generatesE:
  assumes "generates g L" "generator_ready nfa source d"
  obtains nfa' source' where "g nfa source d = Some (nfa', source')" "generated nfa source d L nfa' source'"
  using assms unfolding generates_def by blast

lemma generated_same_nfa:
  assumes "generator_ready nfa source d" "builder_wf source'" "m_nodeId source' = m_nodeId source"
    "m_actions source' = m_actions source" "m_finalized source' = m_finalized source"
    "builder_edges source' = builder_edges source \<union> E" "fragment E (m_nodeId source) d {} L"
  shows "generated nfa source d L nfa source'"
  using assms unfolding generated_def generator_ready_def
  by (intro conjI exI [of _ "{}"] exI [of _ E]) auto

lemma generates_epsilon:
  "generates (\<lambda>nfa source d. do { source \<leftarrow> addEpsilonTransition d source; Some (nfa, source) }) {[]}"
  unfolding generates_def
proof (intro allI impI)
  fix nfa source d assume ready: "generator_ready nfa source d"
  then obtain b where b: "addEpsilonTransition d source = Some b" "builder_wf b" "m_nodeId b = m_nodeId source"
    "m_actions b = m_actions source" "m_finalized b = m_finalized source"
    "builder_edges b = builder_edges source \<union> {(m_nodeId source, None, d)}"
    using addEpsilonTransition_ok [of source d] by (auto simp: generator_ready_def)
  with generated_same_nfa [OF ready b(2-6) fragment_epsilon] ready
  show "\<exists>nfa' source'. (do { source \<leftarrow> addEpsilonTransition d source; Some (nfa, source) }) = Some (nfa', source') \<and>
      generated nfa source d {[]} nfa' source'"
    by (auto simp: generator_ready_def)
qed

lemma generates_characterSet:
  "generates (\<lambda>nfa source d. do { source \<leftarrow> generateCharacterSet cs source d; Some (nfa, source) })
     {[c] | c. c \<in> cs_chars cs}"
  unfolding generates_def
proof (intro allI impI)
  fix nfa source d assume ready: "generator_ready nfa source d"
  then obtain b where b: "generateCharacterSet cs source d = Some b" "builder_wf b" "m_nodeId b = m_nodeId source"
    "m_actions b = m_actions source" "m_finalized b = m_finalized source"
    "builder_edges b = builder_edges source \<union> {(m_nodeId source, Some c, d) | c. c \<in> cs_chars cs}"
    using generateCharacterSet_ok [of source cs d] by (auto simp: generator_ready_def)
  with generated_same_nfa [OF ready b(2-6) fragment_chars] ready
  show "\<exists>nfa' source'. (do { source \<leftarrow> generateCharacterSet cs source d; Some (nfa, source) }) = Some (nfa', source') \<and>
      generated nfa source d {[c] | c. c \<in> cs_chars cs} nfa' source'"
    by (auto simp: generator_ready_def)
qed

lemma generates_optional:
  assumes "generates g L"
  shows "generates (\<lambda>nfa source d. do {
     (nfa, source) \<leftarrow> g nfa source d; source \<leftarrow> addEpsilonTransition d source; Some (nfa, source) }) (insert [] L)"
  unfolding generates_def
proof (intro allI impI)
  fix nfa source d assume ready: "generator_ready nfa source d"
  with assms obtain nfa' source' where g: "g nfa source d = Some (nfa', source')"
    and gen: "generated nfa source d L nfa' source'" by (rule generatesE)
  from gen obtain E1 E2 where E: "nfa_edges nfa' = nfa_edges nfa \<union> E1"
    "builder_edges source' = builder_edges source \<union> E2"
    "fragment (E1 \<union> E2) (m_nodeId source) d {length (nodes nfa)..<length (nodes nfa')} L"
    by (auto simp: generated_def)
  from gen obtain b where b: "addEpsilonTransition d source' = Some b" "builder_wf b" "m_nodeId b = m_nodeId source"
    "m_actions b = m_actions source" "m_finalized b = m_finalized source"
    "builder_edges b = builder_edges source' \<union> {(m_nodeId source, None, d)}"
    using addEpsilonTransition_ok [of source' d] by (auto simp: generated_def)
  have "fragment (E1 \<union> (E2 \<union> {(m_nodeId source, None, d)})) (m_nodeId source) d
      {length (nodes nfa)..<length (nodes nfa')} (insert [] L)"
    using fragment_optional [OF E(3)] by (simp add: Un_assoc)
  moreover have "builder_edges b = builder_edges source \<union> (E2 \<union> {(m_nodeId source, None, d)})"
    using E(2) b(6) by (simp add: Un_assoc)
  ultimately have "generated nfa source d (insert [] L) nfa' b"
    using gen b(2-5) E(1) unfolding generated_def by blast
  with g b show "\<exists>nfa' source'. (do { (nfa, source) \<leftarrow> g nfa source d; source \<leftarrow> addEpsilonTransition d source;
       Some (nfa, source) }) = Some (nfa', source') \<and> generated nfa source d (insert [] L) nfa' source'"
    by auto
qed

definition generatePlus ::
  "(NFA \<Rightarrow> NodeBuilder \<Rightarrow> nat \<Rightarrow> (NFA \<times> NodeBuilder) option) \<Rightarrow> NFA \<Rightarrow> NodeBuilder \<Rightarrow> nat \<Rightarrow> (NFA \<times> NodeBuilder) option"
where
  "generatePlus g nfa source destination =
     (let (nfa, repeatStart) = newNodeBuilder nfa in do {
        source \<leftarrow> addEpsilonTransition (m_nodeId repeatStart) source;
        let (nfa, repeatEnd) = newNodeBuilder nfa;
        (nfa, repeatStart) \<leftarrow> g nfa repeatStart (m_nodeId repeatEnd);
        repeatEnd \<leftarrow> addEpsilonTransition (m_nodeId repeatStart) repeatEnd;
        repeatEnd \<leftarrow> addEpsilonTransition destination repeatEnd;
        Some (destroyBuilder repeatStart (destroyBuilder repeatEnd nfa), source)
      })"

text \<open>Finalizing a live builder whose node is still blank.\<close>

lemma destroyBuilder_ok:
  assumes "nfa_wf nfa" "m_nodeId b < length (nodes nfa)" "blank nfa (m_nodeId b)" "\<not> m_finalized b"
    "builder_wf b"
  shows "nfa_wf (destroyBuilder b nfa)" "length (nodes (destroyBuilder b nfa)) = length (nodes nfa)"
    "\<And>i. i < length (nodes nfa) \<Longrightarrow> i \<noteq> m_nodeId b \<Longrightarrow> same_node nfa (destroyBuilder b nfa) i"
    "actionsForNode (destroyBuilder b nfa) (m_nodeId b) = ht_values (m_actions b)"
    "nfa_edges (destroyBuilder b nfa) = nfa_edges nfa \<union> builder_edges b"
  using finalizeBuilder_ok [OF assms(1-3,5)] assms(4) by (simp_all add: destroyBuilder_def)

lemma generates_plus:
  assumes g: "generates g L"
  shows "generates (generatePlus g) (plus_lang L)"
  unfolding generates_def
proof (intro allI impI)
  fix nfa source d assume ready: "generator_ready nfa source d"
  let ?n = "length (nodes nfa)"
  have wf: "nfa_wf nfa" and src: "builder_wf source" "m_nodeId source < ?n" "d < ?n" "m_nodeId source \<noteq> d"
    using ready by (auto simp: generator_ready_def)
  obtain nfa1 rs where new1: "newNodeBuilder nfa = (nfa1, rs)" by (cases "newNodeBuilder nfa")
  note rs = newNodeBuilder_ok [OF new1 wf]
  obtain src1 where src1: "addEpsilonTransition ?n source = Some src1" "builder_wf src1"
    "m_nodeId src1 = m_nodeId source" "m_actions src1 = m_actions source" "m_finalized src1 = m_finalized source"
    "builder_edges src1 = builder_edges source \<union> {(m_nodeId source, None, ?n)}"
    using addEpsilonTransition_ok [OF src(1), of ?n] by auto
  obtain nfa2 re where new2: "newNodeBuilder nfa1 = (nfa2, re)" by (cases "newNodeBuilder nfa1")
  note re = newNodeBuilder_ok [OF new2 rs(1)]
  have "generator_ready nfa2 rs (m_nodeId re)" using rs re by (simp add: generator_ready_def)
  with g obtain nfa3 rs1 where g3: "g nfa2 rs (m_nodeId re) = Some (nfa3, rs1)"
    and gen: "generated nfa2 rs (m_nodeId re) L nfa3 rs1" by (rule generatesE)
  from gen obtain E1 E2 where E: "nfa_edges nfa3 = nfa_edges nfa2 \<union> E1" "builder_edges rs1 = E2"
    "fragment (E1 \<union> E2) ?n (Suc ?n) {Suc (Suc ?n)..<length (nodes nfa3)} L"
    using rs re by (auto simp: generated_def)
  have gen': "nfa_wf nfa3" "builder_wf rs1" "m_nodeId rs1 = ?n" "m_actions rs1 = m_actions rs" "\<not> m_finalized rs1"
    "Suc (Suc ?n) \<le> length (nodes nfa3)" "\<And>i. i < Suc (Suc ?n) \<Longrightarrow> same_node nfa2 nfa3 i"
    "\<And>i. Suc (Suc ?n) \<le> i \<Longrightarrow> i < length (nodes nfa3) \<Longrightarrow> actionsForNode nfa3 i = []"
    using gen rs re by (auto simp: generated_def)
  obtain re1 where re1: "addEpsilonTransition (m_nodeId rs1) re = Some re1" "builder_wf re1" "m_nodeId re1 = m_nodeId re"
    "m_actions re1 = m_actions re" "m_finalized re1 = m_finalized re"
    "builder_edges re1 = builder_edges re \<union> {(m_nodeId re, None, m_nodeId rs1)}"
    using addEpsilonTransition_ok [OF re(2)] by blast
  obtain re2 where re2: "addEpsilonTransition d re1 = Some re2" "builder_wf re2" "m_nodeId re2 = m_nodeId re"
    "m_actions re2 = m_actions re" "m_finalized re2 = m_finalized re"
    "builder_edges re2 = builder_edges re1 \<union> {(m_nodeId re, None, d)}"
    using addEpsilonTransition_ok [OF re1(2), of d] re1 by auto
  let ?nfa4 = "destroyBuilder re2 nfa3" and ?nfa5 = "destroyBuilder rs1 (destroyBuilder re2 nfa3)"
  have "blank nfa3 (m_nodeId re2)"
    using same_node_blank [OF gen'(7)] re(3,7) re2(3) rs(5) by auto
  then have d4: "nfa_wf ?nfa4" "length (nodes ?nfa4) = length (nodes nfa3)"
    "\<And>i. i < length (nodes nfa3) \<Longrightarrow> i \<noteq> Suc ?n \<Longrightarrow> same_node nfa3 ?nfa4 i"
    "actionsForNode ?nfa4 (Suc ?n) = []" "nfa_edges ?nfa4 = nfa_edges nfa3 \<union> builder_edges re2"
    using destroyBuilder_ok [OF gen'(1), of re2] re re2 rs(5) gen'(6) by auto
  have "same_node nfa1 nfa2 ?n" using re(9) [of ?n] rs(5) by simp
  moreover have "same_node nfa2 nfa3 ?n" by (rule gen'(7)) simp
  moreover have "same_node nfa3 ?nfa4 ?n" by (rule d4(3)) (use gen'(6) in auto)
  ultimately have "same_node nfa1 ?nfa4 ?n" by (meson same_node_trans)
  then have "blank ?nfa4 (m_nodeId rs1)" using same_node_blank rs(3,7) gen'(3) by simp
  then have d5: "nfa_wf ?nfa5" "length (nodes ?nfa5) = length (nodes nfa3)"
    "\<And>i. i < length (nodes nfa3) \<Longrightarrow> i \<noteq> ?n \<Longrightarrow> same_node ?nfa4 ?nfa5 i"
    "actionsForNode ?nfa5 ?n = []" "nfa_edges ?nfa5 = nfa_edges ?nfa4 \<union> builder_edges rs1"
    using destroyBuilder_ok [OF d4(1), of rs1] d4(2) gen' rs(8) by auto
  have old: "same_node nfa ?nfa5 i" if "i < ?n" for i
  proof -
    have "same_node nfa nfa1 i" "same_node nfa1 nfa2 i" "same_node nfa2 nfa3 i" "same_node nfa3 ?nfa4 i"
      "same_node ?nfa4 ?nfa5 i"
      using that rs(9) re(9) gen'(6,7) d4(3) d5(3) rs(5) by simp_all
    then show ?thesis by (meson same_node_trans)
  qed
  have acts: "actionsForNode ?nfa5 i = []" if i: "?n \<le> i" "i < length (nodes ?nfa5)" for i
  proof -
    consider "i = ?n" | "i = Suc ?n" | "Suc (Suc ?n) \<le> i" using i(1) by linarith
    then show ?thesis
    proof cases
      case 1 then show ?thesis using d5(4) by simp
    next
      case 2 then show ?thesis using d4(4) d5(3) [of i] i d5(2) by (simp add: same_node_def)
    next
      case 3 then show ?thesis using gen'(8) [of i] d4(3) [of i] d5(3) [of i] i d5(2) by (simp add: same_node_def)
    qed
  qed
  let ?F = "E1 \<union> E2 \<union> {(m_nodeId source, None, ?n), (Suc ?n, None, ?n), (Suc ?n, None, d)}"
  have frag: "fragment ?F (m_nodeId source) d (insert ?n (insert (Suc ?n) {Suc (Suc ?n)..<length (nodes nfa3)})) (plus_lang L)"
    by (rule fragment_plus [OF E(3)]) (use src in auto)
  have nodes: "insert ?n (insert (Suc ?n) {Suc (Suc ?n)..<length (nodes nfa3)}) = {?n..<length (nodes ?nfa5)}"
    using gen'(6) d5(2) by auto
  have edges: "nfa_edges ?nfa5 = nfa_edges nfa \<union> (E1 \<union> E2 \<union> {(Suc ?n, None, ?n), (Suc ?n, None, d)})"
    using d5(5) d4(5) re2(6) re1(6) re(3,6,10) rs(5,10) E(1,2) gen'(3) by auto
  have "generated nfa source d (plus_lang L) ?nfa5 src1"
    unfolding generated_def
  proof (intro conjI exI)
    show "nfa_edges ?nfa5 = nfa_edges nfa \<union> (E1 \<union> E2 \<union> {(Suc ?n, None, ?n), (Suc ?n, None, d)})" by (rule edges)
    show "builder_edges src1 = builder_edges source \<union> {(m_nodeId source, None, ?n)}" by (rule src1)
    show "fragment (E1 \<union> E2 \<union> {(Suc ?n, None, ?n), (Suc ?n, None, d)} \<union> {(m_nodeId source, None, ?n)})
        (m_nodeId source) d {?n..<length (nodes ?nfa5)} (plus_lang L)"
      using frag unfolding nodes by (simp add: insert_commute)
  qed (use src1 d5(1,2) gen'(6) old acts in auto)
  moreover have "generatePlus g nfa source d = Some (?nfa5, src1)"
    using new1 new2 src1(1) g3 re1(1) re2(1) rs(3) by (simp add: generatePlus_def)
  ultimately show "\<exists>nfa' source'. generatePlus g nfa source d = Some (nfa', source') \<and>
      generated nfa source d (plus_lang L) nfa' source'" by blast
qed

lemma generateGraph_quantified:
  "generateGraph t = (case m_quantifier t of
     One \<Rightarrow> generateSubgraphForAtom t
   | ZeroOrOne \<Rightarrow> (\<lambda>nfa source d. do { (nfa, source) \<leftarrow> generateSubgraphForAtom t nfa source d;
       source \<leftarrow> addEpsilonTransition d source; Some (nfa, source) })
   | ZeroOrMore \<Rightarrow> (\<lambda>nfa source d. do { (nfa, source) \<leftarrow> generatePlus (generateSubgraphForAtom t) nfa source d;
       source \<leftarrow> addEpsilonTransition d source; Some (nfa, source) })
   | OneOrMore \<Rightarrow> generatePlus (generateSubgraphForAtom t))"
proof (intro ext)
  fix nfa source d
  show "generateGraph t nfa source d = (case m_quantifier t of
     One \<Rightarrow> generateSubgraphForAtom t
   | ZeroOrOne \<Rightarrow> (\<lambda>nfa source d. do { (nfa, source) \<leftarrow> generateSubgraphForAtom t nfa source d;
       source \<leftarrow> addEpsilonTransition d source; Some (nfa, source) })
   | ZeroOrMore \<Rightarrow> (\<lambda>nfa source d. do { (nfa, source) \<leftarrow> generatePlus (generateSubgraphForAtom t) nfa source d;
       source \<leftarrow> addEpsilonTransition d source; Some (nfa, source) })
   | OneOrMore \<Rightarrow> generatePlus (generateSubgraphForAtom t)) nfa source d"
    by (cases "m_quantifier t")
      (simp_all add: generatePlus_def Let_def case_prod_beta split: Option.bind_split)
qed

declare generateGraph.simps [simp del]

lemma generates_graph:
  assumes "generates (generateSubgraphForAtom t) (atom_lang t)"
  shows "generates (generateGraph t) (term_lang t)"
  using assms generates_optional [OF assms] generates_plus [OF assms]
    generates_optional [OF generates_plus [OF assms]]
  by (cases "m_quantifier t") (simp_all add: generateGraph_quantified term_lang_atom star_unfold)

text \<open>The terms of a group after the first one: the builder they start from is finalized on the
  way.\<close>

definition generated_rest :: "NFA \<Rightarrow> NodeBuilder \<Rightarrow> nat \<Rightarrow> lang \<Rightarrow> NFA \<Rightarrow> bool" where
  "generated_rest nfa lt d L nfa' \<longleftrightarrow> nfa_wf nfa' \<and> length (nodes nfa) \<le> length (nodes nfa') \<and>
     (\<forall>i < length (nodes nfa). i \<noteq> m_nodeId lt \<longrightarrow> same_node nfa nfa' i) \<and>
     (\<forall>i. length (nodes nfa) \<le> i \<longrightarrow> i < length (nodes nfa') \<longrightarrow> actionsForNode nfa' i = []) \<and>
     actionsForNode nfa' (m_nodeId lt) = [] \<and>
     (\<exists>E. nfa_edges nfa' = nfa_edges nfa \<union> builder_edges lt \<union> E \<and>
        fragment E (m_nodeId lt) d {length (nodes nfa)..<length (nodes nfa')} L)"

definition rest_ready :: "NFA \<Rightarrow> NodeBuilder \<Rightarrow> nat \<Rightarrow> bool" where
  "rest_ready nfa lt d \<longleftrightarrow> generator_ready nfa lt d \<and> blank nfa (m_nodeId lt) \<and> ht_values (m_actions lt) = []"

lemma setActions_Nil [simp]: "setActions [] b = Some b"
  by (simp add: setActions_def hs_addAll_def)

lemma generated_destroy:
  assumes gen: "generated nfa lt d L nfa1 lt1" and ready: "rest_ready nfa lt d"
  shows "generated_rest nfa lt d L (destroyBuilder lt1 nfa1)"
proof -
  from gen obtain E1 E2 where E: "nfa_edges nfa1 = nfa_edges nfa \<union> E1"
    "builder_edges lt1 = builder_edges lt \<union> E2"
    "fragment (E1 \<union> E2) (m_nodeId lt) d {length (nodes nfa)..<length (nodes nfa1)} L"
    by (auto simp: generated_def)
  have id: "m_nodeId lt1 = m_nodeId lt" "m_nodeId lt < length (nodes nfa)" "length (nodes nfa) \<le> length (nodes nfa1)"
    using gen ready by (auto simp: generated_def rest_ready_def generator_ready_def)
  have "blank nfa1 (m_nodeId lt1)"
    using gen ready same_node_blank id by (auto simp: generated_def rest_ready_def)
  note d = destroyBuilder_ok [OF _ _ this]
  have d: "nfa_wf (destroyBuilder lt1 nfa1)" "length (nodes (destroyBuilder lt1 nfa1)) = length (nodes nfa1)"
    "\<And>i. i < length (nodes nfa1) \<Longrightarrow> i \<noteq> m_nodeId lt \<Longrightarrow> same_node nfa1 (destroyBuilder lt1 nfa1) i"
    "actionsForNode (destroyBuilder lt1 nfa1) (m_nodeId lt) = []"
    "nfa_edges (destroyBuilder lt1 nfa1) = nfa_edges nfa1 \<union> builder_edges lt1"
    using d gen ready id by (auto simp: generated_def rest_ready_def generator_ready_def)
  show ?thesis
    unfolding generated_rest_def
  proof (intro conjI exI)
    show "nfa_edges (destroyBuilder lt1 nfa1) = nfa_edges nfa \<union> builder_edges lt \<union> (E1 \<union> E2)"
      using d(5) E by auto
    show "fragment (E1 \<union> E2) (m_nodeId lt) d {length (nodes nfa)..<length (nodes (destroyBuilder lt1 nfa1))} L"
      using E(3) d(2) by simp
    show "\<forall>i < length (nodes nfa). i \<noteq> m_nodeId lt \<longrightarrow> same_node nfa (destroyBuilder lt1 nfa1) i"
      using gen d(3) id by (auto simp: generated_def intro: same_node_trans)
    show "\<forall>i. length (nodes nfa) \<le> i \<longrightarrow> i < length (nodes (destroyBuilder lt1 nfa1)) \<longrightarrow>
        actionsForNode (destroyBuilder lt1 nfa1) i = []"
      using gen d(2,3) id by (auto simp: generated_def same_node_def)
  qed (use d id in auto)
qed

lemma generateGroupRest_step:
  assumes new: "newNodeBuilder nfa = (nfa1, newNode)" and ready: "rest_ready nfa lt d"
    and gen: "generated nfa1 lt (m_nodeId newNode) L1 nfa2 lt2"
    and rest: "generated_rest (destroyBuilder lt2 nfa2) newNode d L2 nfa3"
  shows "generated_rest nfa lt d (conc L1 L2) nfa3"
proof -
  let ?n = "length (nodes nfa)" and ?nfa2 = "destroyBuilder lt2 nfa2"
  have wf: "nfa_wf nfa" "m_nodeId lt < ?n" "d < ?n" "m_nodeId lt \<noteq> d"
    using ready by (auto simp: rest_ready_def generator_ready_def)
  note nn = newNodeBuilder_ok [OF new wf(1)]
  have "rest_ready nfa1 lt (m_nodeId newNode)"
    using ready nn wf same_node_blank [OF nn(9) [OF wf(2)]] by (auto simp: rest_ready_def generator_ready_def)
  from generated_destroy [OF gen this] have one: "generated_rest nfa1 lt (m_nodeId newNode) L1 ?nfa2" .
  from one obtain E1 where E1: "nfa_edges ?nfa2 = nfa_edges nfa1 \<union> builder_edges lt \<union> E1"
    "fragment E1 (m_nodeId lt) ?n {Suc ?n..<length (nodes ?nfa2)} L1"
    using nn by (auto simp: generated_rest_def)
  from rest obtain E2 where E2: "nfa_edges nfa3 = nfa_edges ?nfa2 \<union> builder_edges newNode \<union> E2"
    "fragment E2 ?n d {length (nodes ?nfa2)..<length (nodes nfa3)} L2"
    using nn by (auto simp: generated_rest_def)
  have len: "Suc ?n \<le> length (nodes ?nfa2)" "length (nodes ?nfa2) \<le> length (nodes nfa3)"
    using one rest nn by (auto simp: generated_rest_def)
  have frag: "fragment (E1 \<union> E2) (m_nodeId lt) d
      (insert ?n ({Suc ?n..<length (nodes ?nfa2)} \<union> {length (nodes ?nfa2)..<length (nodes nfa3)})) (conc L1 L2)"
    by (rule fragment_seq [OF E1(2) E2(2)]) (use wf len in auto)
  have nodes: "insert ?n ({Suc ?n..<length (nodes ?nfa2)} \<union> {length (nodes ?nfa2)..<length (nodes nfa3)})
      = {?n..<length (nodes nfa3)}" using len by auto
  have keep: "same_node ?nfa2 nfa3 i" if "i < length (nodes ?nfa2)" "i \<noteq> ?n" for i
    using rest that nn by (auto simp: generated_rest_def)
  have fresh: "actionsForNode nfa3 i = []" if i: "?n \<le> i" "i < length (nodes nfa3)" for i
  proof -
    consider "i = ?n" | "Suc ?n \<le> i" "i < length (nodes ?nfa2)" | "length (nodes ?nfa2) \<le> i" using i(1) by linarith
    then show ?thesis
    proof cases
      case 1 then show ?thesis using rest nn by (auto simp: generated_rest_def)
    next
      case 2
      then have "actionsForNode ?nfa2 i = []" using one nn by (auto simp: generated_rest_def)
      with 2 keep [of i] show ?thesis by (simp add: same_node_def)
    next
      case 3 with i rest show ?thesis by (auto simp: generated_rest_def)
    qed
  qed
  show ?thesis
    unfolding generated_rest_def
  proof (intro conjI exI)
    show "nfa_edges nfa3 = nfa_edges nfa \<union> builder_edges lt \<union> (E1 \<union> E2)"
      using E1(1) E2(1) nn by auto
    show "fragment (E1 \<union> E2) (m_nodeId lt) d {?n..<length (nodes nfa3)} (conc L1 L2)"
      using frag unfolding nodes .
    show "\<forall>i < ?n. i \<noteq> m_nodeId lt \<longrightarrow> same_node nfa nfa3 i"
    proof (intro allI impI)
      fix i assume i: "i < ?n" "i \<noteq> m_nodeId lt"
      then have "same_node nfa nfa1 i" "same_node nfa1 ?nfa2 i" "same_node ?nfa2 nfa3 i"
        using nn one keep [of i] len by (auto simp: generated_rest_def)
      then show "same_node nfa nfa3 i" by (meson same_node_trans)
    qed
    have "actionsForNode ?nfa2 (m_nodeId lt) = []" "same_node ?nfa2 nfa3 (m_nodeId lt)"
      using one keep [of "m_nodeId lt"] wf len by (auto simp: generated_rest_def)
    then show "actionsForNode nfa3 (m_nodeId lt) = []" by (simp add: same_node_def)
    show "\<forall>i. ?n \<le> i \<longrightarrow> i < length (nodes nfa3) \<longrightarrow> actionsForNode nfa3 i = []" using fresh by blast
  qed (use rest len in \<open>auto simp: generated_rest_def\<close>)
qed

lemma generateGroupRest_ok:
  assumes "\<And>t. t \<in> set ts \<Longrightarrow> generates (generateGraph t) (term_lang t)" "ts \<noteq> []" "rest_ready nfa lt d"
  shows "\<exists>nfa'. generateGroupRest ts nfa lt d = Some nfa' \<and>
    generated_rest nfa lt d (conc_all (map term_lang ts)) nfa'"
  using assms
proof (induction ts arbitrary: nfa lt)
  case (Cons t ts)
  have g: "generates (generateGraph t) (term_lang t)" using Cons.prems(1) by simp
  have ready: "generator_ready nfa lt d" using Cons.prems(3) by (simp add: rest_ready_def)
  show ?case
  proof (cases ts)
    case Nil
    obtain nfa1 lt1 where "generateGraph t nfa lt d = Some (nfa1, lt1)" "generated nfa lt d (term_lang t) nfa1 lt1"
      using g ready by (rule generatesE)
    with Nil generated_destroy [OF _ Cons.prems(3)] show ?thesis by simp
  next
    case (Cons t' ts')
    obtain nfa1 newNode where new: "newNodeBuilder nfa = (nfa1, newNode)" by (cases "newNodeBuilder nfa")
    have wf: "nfa_wf nfa" "m_nodeId lt < length (nodes nfa)" "d < length (nodes nfa)"
      using ready by (auto simp: generator_ready_def)
    note nn = newNodeBuilder_ok [OF new wf(1)]
    have ready1: "generator_ready nfa1 lt (m_nodeId newNode)"
      using ready nn by (auto simp: generator_ready_def)
    with g obtain nfa2 lt2 where g2: "generateGraph t nfa1 lt (m_nodeId newNode) = Some (nfa2, lt2)"
      and gen: "generated nfa1 lt (m_nodeId newNode) (term_lang t) nfa2 lt2" by (rule generatesE)
    have "rest_ready nfa1 lt (m_nodeId newNode)"
      using ready1 Cons.prems(3) same_node_blank [OF nn(9) [OF wf(2)]] by (simp add: rest_ready_def)
    from generated_destroy [OF gen this]
    have one: "generated_rest nfa1 lt (m_nodeId newNode) (term_lang t) (destroyBuilder lt2 nfa2)" .
    have "same_node nfa1 (destroyBuilder lt2 nfa2) (m_nodeId newNode)"
      using one nn wf by (auto simp: generated_rest_def)
    then have "blank (destroyBuilder lt2 nfa2) (m_nodeId newNode)" using same_node_blank nn(7) by blast
    then have "rest_ready (destroyBuilder lt2 nfa2) newNode d"
      using one nn wf by (auto simp: rest_ready_def generator_ready_def generated_rest_def)
    from Cons.IH [OF _ _ this] Cons.prems(1) Cons obtain nfa3 where
      r3: "generateGroupRest ts (destroyBuilder lt2 nfa2) newNode d = Some nfa3"
      and rest: "generated_rest (destroyBuilder lt2 nfa2) newNode d (conc_all (map term_lang ts)) nfa3" by auto
    from generateGroupRest_step [OF new Cons.prems(3) gen rest] r3 g2 new Cons show ?thesis
      by (simp add: assignBuilder_eq)
  qed
qed simp

lemma generated_group:
  assumes new: "newNodeBuilder nfa = (nfa1, lt)" and ready: "generator_ready nfa source d"
    and gen: "generated nfa1 source (m_nodeId lt) L1 nfa2 source2" and rest: "generated_rest nfa2 lt d L2 nfa3"
  shows "generated nfa source d (conc L1 L2) nfa3 source2"
proof -
  let ?n = "length (nodes nfa)"
  have wf: "nfa_wf nfa" "m_nodeId source < ?n" "d < ?n" "m_nodeId source \<noteq> d"
    using ready by (auto simp: generator_ready_def)
  note nn = newNodeBuilder_ok [OF new wf(1)]
  from gen obtain E1 E2 where E: "nfa_edges nfa2 = nfa_edges nfa1 \<union> E1"
    "builder_edges source2 = builder_edges source \<union> E2"
    "fragment (E1 \<union> E2) (m_nodeId source) ?n {Suc ?n..<length (nodes nfa2)} L1"
    using nn by (auto simp: generated_def)
  from rest obtain E3 where E3: "nfa_edges nfa3 = nfa_edges nfa2 \<union> builder_edges lt \<union> E3"
    "fragment E3 ?n d {length (nodes nfa2)..<length (nodes nfa3)} L2"
    using nn by (auto simp: generated_rest_def)
  have len: "Suc ?n \<le> length (nodes nfa2)" "length (nodes nfa2) \<le> length (nodes nfa3)"
    using gen rest nn by (auto simp: generated_rest_def generated_def)
  have frag: "fragment (E1 \<union> E2 \<union> E3) (m_nodeId source) d
      (insert ?n ({Suc ?n..<length (nodes nfa2)} \<union> {length (nodes nfa2)..<length (nodes nfa3)})) (conc L1 L2)"
    by (rule fragment_seq [OF E(3) E3(2)]) (use wf len in auto)
  have nodes: "insert ?n ({Suc ?n..<length (nodes nfa2)} \<union> {length (nodes nfa2)..<length (nodes nfa3)})
      = {?n..<length (nodes nfa3)}" using len by auto
  have keep: "same_node nfa2 nfa3 i" if "i < length (nodes nfa2)" "i \<noteq> ?n" for i
    using rest that nn by (auto simp: generated_rest_def)
  have fresh: "actionsForNode nfa3 i = []" if i: "?n \<le> i" "i < length (nodes nfa3)" for i
  proof -
    consider "i = ?n" | "Suc ?n \<le> i" "i < length (nodes nfa2)" | "length (nodes nfa2) \<le> i" using i(1) by linarith
    then show ?thesis
    proof cases
      case 1 then show ?thesis using rest nn by (auto simp: generated_rest_def)
    next
      case 2
      then have "actionsForNode nfa2 i = []" using gen nn by (auto simp: generated_def)
      with 2 keep [of i] show ?thesis by (simp add: same_node_def)
    next
      case 3 with i rest show ?thesis by (auto simp: generated_rest_def)
    qed
  qed
  show ?thesis
    unfolding generated_def
  proof (intro conjI exI)
    show "nfa_edges nfa3 = nfa_edges nfa \<union> (E1 \<union> E3)" using E(1) E3(1) nn by auto
    show "builder_edges source2 = builder_edges source \<union> E2" by (rule E(2))
    show "fragment (E1 \<union> E3 \<union> E2) (m_nodeId source) d {?n..<length (nodes nfa3)} (conc L1 L2)"
      using frag unfolding nodes by (simp add: Un_assoc Un_commute [of E3])
    show "\<forall>i < ?n. same_node nfa nfa3 i"
    proof (intro allI impI)
      fix i assume i: "i < ?n"
      then have "same_node nfa nfa1 i" "same_node nfa1 nfa2 i" "same_node nfa2 nfa3 i"
        using nn gen keep [of i] len by (auto simp: generated_def)
      then show "same_node nfa nfa3 i" by (meson same_node_trans)
    qed
    show "\<forall>i. ?n \<le> i \<longrightarrow> i < length (nodes nfa3) \<longrightarrow> actionsForNode nfa3 i = []" using fresh by blast
  qed (use gen rest len in \<open>auto simp: generated_rest_def generated_def\<close>)
qed

lemma generates_group:
  assumes ts: "\<And>t. t \<in> set (t1 # t2 # ts) \<Longrightarrow> generates (generateGraph t) (term_lang t)"
  shows "generates (generateSubgraphForAtom (GroupTerm (t1 # t2 # ts) q)) (conc_all (map term_lang (t1 # t2 # ts)))"
  unfolding generates_def
proof (intro allI impI)
  fix nfa source d assume ready: "generator_ready nfa source d"
  obtain nfa1 lt where new: "newNodeBuilder nfa = (nfa1, lt)" by (cases "newNodeBuilder nfa")
  have wf: "nfa_wf nfa" "m_nodeId source < length (nodes nfa)" "d < length (nodes nfa)"
    using ready by (auto simp: generator_ready_def)
  note nn = newNodeBuilder_ok [OF new wf(1)]
  have "generator_ready nfa1 source (m_nodeId lt)" using ready nn by (auto simp: generator_ready_def)
  moreover have "generates (generateGraph t1) (term_lang t1)" using ts by simp
  ultimately obtain nfa2 source2 where g: "generateGraph t1 nfa1 source (m_nodeId lt) = Some (nfa2, source2)"
    and gen: "generated nfa1 source (m_nodeId lt) (term_lang t1) nfa2 source2" using generatesE by blast
  have "same_node nfa1 nfa2 (m_nodeId lt)" using gen nn by (auto simp: generated_def)
  then have "blank nfa2 (m_nodeId lt)" using same_node_blank nn(7) by blast
  then have "rest_ready nfa2 lt d"
    using gen nn wf by (auto simp: rest_ready_def generator_ready_def generated_def)
  from generateGroupRest_ok [OF ts _ this, of "t2 # ts"] obtain nfa3 where
    r: "generateGroupRest (t2 # ts) nfa2 lt d = Some nfa3"
    and rest: "generated_rest nfa2 lt d (conc_all (map term_lang (t2 # ts))) nfa3" by auto
  have "generateSubgraphForAtom (GroupTerm (t1 # t2 # ts) q) nfa source d = Some (nfa3, source2)"
    using new g r by simp
  with generated_group [OF new ready gen rest]
  show "\<exists>nfa' source'. generateSubgraphForAtom (GroupTerm (t1 # t2 # ts) q) nfa source d = Some (nfa', source') \<and>
      generated nfa source d (conc_all (map term_lang (t1 # t2 # ts))) nfa' source'" by auto
qed

lemma generates_term: "generates (generateGraph t) (term_lang t)"
proof (induction t)
  case (EmptyTerm q)
  have "generateSubgraphForAtom (EmptyTerm q)
      = (\<lambda>nfa source d. do { source \<leftarrow> addEpsilonTransition d source; Some (nfa, source) })"
    by (intro ext) simp
  with generates_epsilon show ?case by (intro generates_graph) simp
next
  case (CharacterSetTerm cs q)
  have "generateSubgraphForAtom (CharacterSetTerm cs q)
      = (\<lambda>nfa source d. do { source \<leftarrow> generateCharacterSet cs source d; Some (nfa, source) })"
    by (intro ext) simp
  with generates_characterSet show ?case by (intro generates_graph) simp
next
  case (GroupTerm ts q)
  show ?case
  proof (rule generates_graph)
    consider "ts = []" | t where "ts = [t]" | t1 t2 ts' where "ts = t1 # t2 # ts'"
      by (metis list.exhaust)
    then show "generates (generateSubgraphForAtom (GroupTerm ts q)) (atom_lang (GroupTerm ts q))"
    proof cases
      case 1
      have "generateSubgraphForAtom (GroupTerm [] q)
          = (\<lambda>nfa source d. do { source \<leftarrow> addEpsilonTransition d source; Some (nfa, source) })"
        by (intro ext) simp
      with 1 generates_epsilon show ?thesis by simp
    next
      case 2
      have "generateSubgraphForAtom (GroupTerm [t] q) = generateGraph t" by (intro ext) simp
      with 2 GroupTerm.IH show ?thesis by simp
    next
      case 3
      with generates_group [OF GroupTerm.IH, of t1 t2 ts'] show ?thesis by simp
    qed
  qed
qed

section \<open>Character sets as sets of characters\<close>

lemma and_push_bit_1: "(w AND push_bit n (1 :: uint64) \<noteq> 0) \<longleftrightarrow> n < 64 \<and> bit w n"
proof -
  have "bit (w AND push_bit n 1) m \<longleftrightarrow> m = n \<and> n < 64 \<and> bit w n" for m
    by (auto simp: bit_and_iff bit_exp_iff)
  then show ?thesis by (metis bit_eq_iff bit_0_eq bot_apply bot_bool_def)
qed

lemma cs_bit_iff:
  "cs_bit cs c \<longleftrightarrow> c < 128 \<and> bit (if c < 64 then m_characters0 cs else m_characters1 cs) (c mod 64)"
  by (simp only: cs_bit_def cs_get_def and_push_bit_1 div_eq_0_iff split: if_split) auto

lemma same_position:
  assumes "k < 128" "c < (128 :: nat)"
  shows "k = c \<longleftrightarrow> (k < 64 \<longleftrightarrow> c < 64) \<and> k mod 64 = c mod 64"
proof -
  have "n mod 64 = (if n < 64 then n else n - 64)" if "n < (128 :: nat)" for n
    using that by (simp add: mod_if)
  with assms show ?thesis by auto
qed

lemma cs_set_ok:
  assumes "c < 128"
  shows "\<exists>cs'. cs_set c cs = Some cs' \<and> m_inverted cs' = m_inverted cs \<and>
    (\<forall>k. cs_bit cs' k \<longleftrightarrow> k = c \<or> cs_bit cs k)"
proof -
  have or: "bit (w OR push_bit (c mod 64) 1) n \<longleftrightarrow> n = c mod 64 \<or> bit w n" for w :: uint64 and n
    by (auto simp: bit_or_iff bit_exp_iff)
  let ?cs = "if c < 64 then cs\<lparr>m_characters0 := m_characters0 cs OR push_bit (c mod 64) 1\<rparr>
             else cs\<lparr>m_characters1 := m_characters1 cs OR push_bit (c mod 64) 1\<rparr>"
  have "cs_set c cs = Some ?cs" using assms by (simp add: cs_set_def div_eq_0_iff)
  moreover have "cs_bit ?cs k \<longleftrightarrow> k = c \<or> cs_bit cs k" for k
  proof (cases "k < 128")
    case True
    show ?thesis
      unfolding same_position [OF True assms] cs_bit_iff using True or by (cases "c < 64"; cases "k < 64") auto
  next
    case False
    with assms show ?thesis by (auto simp: cs_bit_iff)
  qed
  ultimately show ?thesis by auto
qed

lemma cs_setAll_ok:
  assumes "\<forall>c \<in> set cs'. c < 128"
  shows "\<exists>r. cs_setAll cs' cs = Some r \<and> m_inverted r = m_inverted cs \<and>
    (\<forall>k. cs_bit r k \<longleftrightarrow> k \<in> set cs' \<or> cs_bit cs k)"
  using assms
proof (induction cs' arbitrary: cs)
  case (Cons c cs')
  obtain r where r: "cs_set c cs = Some r" "m_inverted r = m_inverted cs" "\<forall>k. cs_bit r k \<longleftrightarrow> k = c \<or> cs_bit cs k"
    using cs_set_ok [of c cs] Cons.prems by auto
  from Cons.IH [of r] Cons.prems r show ?case by auto
qed simp

lemma emptyCharacterSet_bits [simp]: "\<not> cs_bit emptyCharacterSet k" "\<not> m_inverted emptyCharacterSet"
  by (simp_all add: cs_bit_iff emptyCharacterSet_def)

text \<open>The count of the bits is the number of the characters.\<close>

lemma word_bitCount_card: "word_bitCount w = card {n. n < 64 \<and> bit w n}"
proof -
  have "word_bitCount w = card (set (filter (bit w) [0..<64]))"
    by (simp only: word_bitCount_def) (metis distinct_card distinct_filter distinct_upt)
  moreover have "set (filter (bit w) [0..<64]) = {n. n < 64 \<and> bit w n}" by auto
  ultimately show ?thesis by simp
qed

lemma cs_bitCount_card: "cs_bitCount cs = card {c. cs_bit cs c}"
proof -
  let ?A = "{n. n < 64 \<and> bit (m_characters0 cs) n}" and ?B = "{n. n < 64 \<and> bit (m_characters1 cs) n}"
  have "c \<in> {c. cs_bit cs c} \<longleftrightarrow> c \<in> ?A \<union> (+) 64 ` ?B" for c
  proof (cases "c < 64")
    case True
    then have "c \<notin> (+) 64 ` ?B" by auto
    with True show ?thesis by (simp add: cs_bit_iff)
  next
    case False
    then obtain d where c: "c = 64 + d" by (metis le_Suc_ex not_less)
    have "64 + d \<in> (+) 64 ` ?B \<longleftrightarrow> d \<in> ?B" by (rule inj_image_mem_iff) simp
    then show ?thesis by (auto simp: c cs_bit_iff)
  qed
  then have "{c. cs_bit cs c} = ?A \<union> (+) 64 ` ?B" by blast
  moreover have "card (?A \<union> (+) 64 ` ?B) = card ?A + card ((+) 64 ` ?B)" by (rule card_Un_disjoint) auto
  moreover have "card ((+) 64 ` ?B) = card ?B" by (rule card_image) simp
  ultimately show ?thesis by (simp only: cs_bitCount_def word_bitCount_card)
qed

lemma cs_bits_bounded: "{c. cs_bit cs c} \<subseteq> {..<128}"
  by (auto simp: cs_bit_iff)

lemma finite_cs_bits: "finite {c. cs_bit cs c}"
  using cs_bits_bounded finite_subset by blast

definition cs_bits :: "CharacterSet \<Rightarrow> nat set" where
  "cs_bits cs = {c. cs_bit cs c}"

lemma cs_bits_facts:
  "cs_bit cs c \<longleftrightarrow> c \<in> cs_bits cs" "finite (cs_bits cs)" "cs_bits cs \<subseteq> {..<128}" "cs_bitCount cs = card (cs_bits cs)"
  "cs_get cs 0 = Some (0 \<in> cs_bits cs)"
  using cs_bits_bounded [of cs] finite_cs_bits [of cs]
  by (auto simp: cs_bits_def cs_bitCount_card cs_bit_def cs_get_def)

lemma cs_isEndOfLine_bits: "cs_isEndOfLine cs \<longleftrightarrow> cs_bits cs = {0}"
  unfolding cs_isEndOfLine_def cs_bits_facts by (auto simp: card_1_singleton_iff)

lemma card_127: "S \<subseteq> {..<128} \<Longrightarrow> card S = 127 \<and> 0 \<notin> S \<longleftrightarrow> S = {1..<128 :: nat}"
proof (rule iffI)
  assume S: "S \<subseteq> {..<128}" "card S = 127 \<and> 0 \<notin> S"
  have "S \<subseteq> {1..<128}"
  proof
    fix c assume "c \<in> S"
    with S show "c \<in> {1..<128}" by (cases c) auto
  qed
  then show "S = {1..<128}" by (rule card_subset_eq [rotated]) (use S in auto)
qed auto

lemma cs_isUniversal_bits:
  "cs_isUniversal cs \<longleftrightarrow> (if m_inverted cs then cs_bits cs = {} else cs_bits cs = {1..<128})"
  using card_127 [OF cs_bits_facts(3)] cs_bits_facts(2) [of cs]
  unfolding cs_isUniversal_def cs_bits_facts(4,5) by auto

lemma cs_chars_iff:
  "c \<in> cs_chars cs \<longleftrightarrow> 0 \<le> c \<and> c < 128 \<and>
     (if m_inverted cs then c \<noteq> 0 \<and> nat c \<notin> cs_bits cs else nat c \<in> cs_bits cs)"
  unfolding cs_chars_def cs_bits_facts(1) by (auto intro!: exI [of _ "nat c"])

lemma cs_isUniversal_chars: "cs_isUniversal cs \<Longrightarrow> cs_chars cs = {1..127}"
  by (rule set_eqI) (auto simp: cs_isUniversal_bits cs_chars_iff split: if_splits)

section \<open>The predicates\<close>

lemma star_mono: "A \<subseteq> B \<Longrightarrow> star A \<subseteq> star B"
proof
  fix w assume AB: "A \<subseteq> B" and "w \<in> star A"
  from \<open>w \<in> star A\<close> show "w \<in> star B" by induction (use AB in \<open>auto intro: star_Nil star_append\<close>)
qed

lemma quantified_atom: "L \<subseteq> quantified q L"
  by (cases q) (auto simp: plus_lang_def star_single intro: concI [OF _ star_Nil, simplified])

definition urls :: lang where
  "urls = {w. set w \<subseteq> {1..127}}"

definition any_character :: lang where
  "any_character = {[c] | c. c \<in> {1..127}}"

lemma urls_star: "urls \<subseteq> star any_character"
proof
  fix w assume "w \<in> urls"
  then show "w \<in> star any_character"
  proof (induction w)
    case (Cons c w)
    then have "[c] \<in> any_character" "w \<in> star any_character" by (auto simp: urls_def any_character_def)
    then show ?case using star_append by fastforce
  qed (simp add: star_Nil)
qed

lemma isUniversalTransition_atom: "isUniversalTransition t \<Longrightarrow> any_character \<subseteq> atom_lang t"
proof (induction t rule: isUniversalTransition.induct)
  case (3 t q)
  then have "any_character \<subseteq> quantified (m_quantifier t) (atom_lang t)"
    using quantified_atom [of "atom_lang t" "m_quantifier t"] by simp
  then show ?case by (simp add: term_lang_atom [of t])
qed (auto simp: any_character_def cs_isUniversal_chars)

lemma isUniversalTransition_lang: "isUniversalTransition t \<Longrightarrow> any_character \<subseteq> term_lang t"
  using isUniversalTransition_atom quantified_atom unfolding term_lang_atom by blast

lemma plus_lang_optional: "any_character \<subseteq> A \<Longrightarrow> urls \<subseteq> insert [] (plus_lang A)"
  using urls_star star_mono star_unfold by blast

lemma plus_lang_with_empty: "[] \<in> A \<Longrightarrow> plus_lang A = star A"
proof -
  assume "[] \<in> A"
  then have "[] \<in> plus_lang A" using concI [of "[]" A "[]" "star A"] star_Nil by (simp add: plus_lang_def)
  then show ?thesis by (auto simp: star_unfold)
qed

text \<open>
  C7: a term that \<^verbatim>\<open>isKnownToMatchAnyString\<close> recognizes matches every string of
  the characters 1 to 127.
\<close>

theorem isKnownToMatchAnyString_sound:
  "isKnownToMatchAnyString t \<Longrightarrow> set w \<subseteq> {1..127} \<Longrightarrow> w \<in> term_lang t"
proof -
  have "isKnownToMatchAnyString t \<Longrightarrow> urls \<subseteq> term_lang t"
  proof (induction t rule: isKnownToMatchAnyString.induct)
    case (2 cs q)
    then have "any_character \<subseteq> atom_lang (CharacterSetTerm cs q)" using isUniversalTransition_atom [of "CharacterSetTerm cs q"] by simp
    with 2 order_trans [OF urls_star star_mono] show ?case by simp
  next
    case (3 t q)
    show ?case
    proof (cases "isKnownToMatchAnyString t")
      case True
      with 3 quantified_atom [of "term_lang t" q] show ?thesis by auto
    next
      case False
      with 3 have u: "isUniversalTransition t" and q: "q = ZeroOrMore \<or> q = ZeroOrOne \<and> m_quantifier t = OneOrMore \<or>
        q = OneOrMore \<and> m_quantifier t = ZeroOrOne" by (auto split: if_splits)
      note sub = isUniversalTransition_lang [OF u] isUniversalTransition_atom [OF u]
      from q show ?thesis
      proof (elim disjE conjE)
        assume "q = ZeroOrMore"
        with order_trans [OF urls_star star_mono [OF sub(1)]] show ?thesis by simp
      next
        assume "q = ZeroOrOne" "m_quantifier t = OneOrMore"
        with plus_lang_optional [OF sub(2)] show ?thesis by (simp add: term_lang_atom [of t])
      next
        assume "q = OneOrMore" "m_quantifier t = ZeroOrOne"
        then have "[] \<in> term_lang t" by (simp add: term_lang_atom [of t])
        then have "plus_lang (term_lang t) = star (term_lang t)" by (rule plus_lang_with_empty)
        with order_trans [OF urls_star star_mono [OF sub(1)]] \<open>q = OneOrMore\<close> show ?thesis by simp
      qed
    qed
  qed simp_all
  then show "isKnownToMatchAnyString t \<Longrightarrow> set w \<subseteq> {1..127} \<Longrightarrow> w \<in> term_lang t"
    by (auto simp: urls_def)
qed

text \<open>The terms the parser builds have no empty term inside a group.\<close>

fun hereditarilyValid :: "Term \<Rightarrow> bool" where
  "hereditarilyValid (EmptyTerm _) = False"
| "hereditarilyValid (CharacterSetTerm _ _) = True"
| "hereditarilyValid (GroupTerm ts _) = list_all hereditarilyValid ts"

lemma conc_all_Nil: "[] \<in> conc_all Ls \<longleftrightarrow> (\<forall>L \<in> set Ls. [] \<in> L)"
  by (induction Ls) (auto simp: conc_def)

lemma matchesAtLeastOneCharacter_nonempty:
  "hereditarilyValid t \<Longrightarrow> matchesAtLeastOneCharacter t \<Longrightarrow> [] \<notin> term_lang t"
proof (induction t)
  case (CharacterSetTerm cs q)
  then show ?case by (cases q) (auto simp: plus_lang_def elim!: concE split: if_splits)
next
  case (GroupTerm ts q)
  then obtain t where t: "t \<in> set ts" "matchesAtLeastOneCharacter t" and q: "q = One \<or> q = OneOrMore"
    by (cases q) (auto simp: list_ex_iff)
  from GroupTerm.prems t have "hereditarilyValid t" by (auto simp: list_all_iff)
  with GroupTerm.IH t have "[] \<notin> conc_all (map term_lang ts)" by (auto simp: conc_all_Nil)
  with q show ?case by (auto simp: plus_lang_def elim!: concE)
qed simp

lemma hasFixedLength_lengths: "hasFixedLength t \<Longrightarrow> \<exists>n. \<forall>w \<in> term_lang t. length w = n"
proof (induction t)
  case (GroupTerm ts q)
  have "\<exists>n. \<forall>w \<in> conc_all (map term_lang ts). length w = n" using GroupTerm
  proof (induction ts)
    case (Cons t ts)
    from Cons.prems obtain n where n: "\<forall>w \<in> term_lang t. length w = n" by fastforce
    from Cons.IH Cons.prems obtain m where m: "\<forall>w \<in> conc_all (map term_lang ts). length w = m" by fastforce
    from n m show ?case by (intro exI [of _ "n + m"]) (auto elim!: concE)
  qed simp
  with GroupTerm.prems show ?case by simp
qed auto

text \<open>The end of the URL is the character 0; only the assertion of the end of line matches it, and matches
  nothing else.\<close>

fun end_assertions_only :: "Term \<Rightarrow> bool" where
  "end_assertions_only (EmptyTerm _) = True"
| "end_assertions_only (CharacterSetTerm cs _) = (0 \<in> cs_bits cs \<longrightarrow> \<not> m_inverted cs \<and> cs_bits cs = {0})"
| "end_assertions_only (GroupTerm ts _) = list_all end_assertions_only ts"

definition has_character :: "charval list \<Rightarrow> bool" where
  "has_character w \<longleftrightarrow> (\<exists>c \<in> set w. c \<noteq> 0)"

lemma has_character_append [simp]: "has_character (u @ v) \<longleftrightarrow> has_character u \<or> has_character v"
  by (auto simp: has_character_def)

lemma conc_all_character:
  "L \<in> set Ls \<Longrightarrow> \<forall>w \<in> L. has_character w \<Longrightarrow> w \<in> conc_all Ls \<Longrightarrow> has_character w"
  by (induction Ls arbitrary: w) (auto elim!: concE)

lemma conc_all_no_character:
  "\<forall>L \<in> set Ls. \<exists>w \<in> L. \<not> has_character w \<Longrightarrow> \<exists>w \<in> conc_all Ls. \<not> has_character w"
proof (induction Ls)
  case (Cons L Ls)
  then obtain u v where "u \<in> L" "v \<in> conc_all Ls" "\<not> has_character u" "\<not> has_character v" by auto
  then show ?case by (intro bexI [of _ "u @ v"]) (auto intro: concI)
qed (simp add: has_character_def)

lemma quantified_character:
  "(\<forall>w \<in> quantified q L. has_character w) \<longleftrightarrow> q \<noteq> ZeroOrOne \<and> q \<noteq> ZeroOrMore \<and> (\<forall>w \<in> L. has_character w)"
proof -
  have e: "\<not> has_character []" by (simp add: has_character_def)
  have "(\<forall>w \<in> plus_lang L. has_character w) \<longleftrightarrow> (\<forall>w \<in> L. has_character w)"
  proof
    assume *: "\<forall>w \<in> plus_lang L. has_character w"
    have "w \<in> plus_lang L" if "w \<in> L" for w using concI [OF that star_Nil] by (simp add: plus_lang_def)
    with * show "\<forall>w \<in> L. has_character w" by blast
  qed (auto simp: plus_lang_def elim!: concE)
  with e star_Nil show ?thesis by (cases q) auto
qed

lemma matchesAtLeastOneCharacter_character:
  "hereditarilyValid t \<Longrightarrow> end_assertions_only t \<Longrightarrow>
   matchesAtLeastOneCharacter t \<longleftrightarrow> (\<forall>w \<in> term_lang t. has_character w)"
proof (induction t)
  case (CharacterSetTerm cs q)
  have "(\<forall>c \<in> cs_chars cs. c \<noteq> 0) \<longleftrightarrow> \<not> cs_isEndOfLine cs"
  proof -
    have "0 \<in> cs_chars cs \<longleftrightarrow> \<not> m_inverted cs \<and> 0 \<in> cs_bits cs" by (auto simp: cs_chars_def cs_bits_def)
    with CharacterSetTerm.prems(2) have "0 \<in> cs_chars cs \<longleftrightarrow> cs_isEndOfLine cs" by (auto simp: cs_isEndOfLine_bits)
    then show ?thesis by blast
  qed
  moreover have "(\<forall>w \<in> {[c] |c. c \<in> cs_chars cs}. has_character w) \<longleftrightarrow> (\<forall>c \<in> cs_chars cs. c \<noteq> 0)"
    by (auto simp: has_character_def)
  ultimately show ?case unfolding term_lang.simps quantified_character by simp
next
  case (GroupTerm ts q)
  have "list_ex matchesAtLeastOneCharacter ts \<longleftrightarrow> (\<forall>w \<in> conc_all (map term_lang ts). has_character w)"
  proof (cases "\<exists>t \<in> set ts. \<forall>w \<in> term_lang t. has_character w")
    case True
    then obtain t where t: "t \<in> set ts" "\<forall>w \<in> term_lang t. has_character w" by blast
    then have "matchesAtLeastOneCharacter t" using GroupTerm by (auto simp: list_all_iff)
    with t conc_all_character [of "term_lang t" "map term_lang ts"] show ?thesis by (auto simp: list_ex_iff simp del: matchesAtLeastOneCharacter.simps)
  next
    case False
    then have "\<not> matchesAtLeastOneCharacter t" if "t \<in> set ts" for t
      using that GroupTerm.IH [of t] GroupTerm.prems by (auto simp: list_all_iff simp del: matchesAtLeastOneCharacter.simps)
    moreover have "\<exists>w \<in> conc_all (map term_lang ts). \<not> has_character w"
      using False by (intro conc_all_no_character) auto
    ultimately show ?thesis by (auto simp: list_ex_iff simp del: matchesAtLeastOneCharacter.simps)
  qed
  then show ?case unfolding term_lang.simps quantified_character by simp
qed simp

text \<open>
  C8: a term whose groups have no empty term matches no empty string when
  \<^verbatim>\<open>matchesAtLeastOneCharacter\<close> says so. Where only assertions of the end of line match the character 0 that
  ends the URL, \<^verbatim>\<open>matchesAtLeastOneCharacter\<close> says so exactly if every string of the term has a
  character of the URL, so that the end alone does not count. The strings of a term have one length
  when \<^verbatim>\<open>hasFixedLength\<close> says so.
\<close>

theorem term_predicates_sound:
  assumes "hereditarilyValid t"
  shows "(matchesAtLeastOneCharacter t \<longrightarrow> [] \<notin> term_lang t) \<and>
    (end_assertions_only t \<longrightarrow> (matchesAtLeastOneCharacter t \<longleftrightarrow> (\<forall>w \<in> term_lang t. \<exists>c \<in> set w. c \<noteq> 0))) \<and>
    (hasFixedLength t \<longrightarrow> (\<exists>n. \<forall>w \<in> term_lang t. length w = n))"
  using matchesAtLeastOneCharacter_nonempty [OF assms] hasFixedLength_lengths [of t]
    matchesAtLeastOneCharacter_character [OF assms]
  unfolding has_character_def by blast

section \<open>The generated automaton\<close>

definition generateAutomaton :: "Term \<Rightarrow> uint64 list \<Rightarrow> NFA option" where
  "generateAutomaton t finalActions =
     (let (nfa, root) = newNodeBuilder emptyNFA in do {
        (nfa, root, newEnd) \<leftarrow> generateGraphToEnd t nfa root finalActions;
        Some (destroyBuilder root (destroyBuilder newEnd nfa))
      })"

lemma emptyNFA_wf: "nfa_wf emptyNFA" "nfa_edges emptyNFA = {}" "nodes emptyNFA = []"
  by (auto simp: nfa_wf_def emptyNFA_def nfa_edges_def)

text \<open>
  C1: the automaton of a term, generated from an empty one with the actions of its end
  node, triggers exactly these actions on exactly the strings of the language of the term.
\<close>

theorem generateGraph_language:
  "\<exists>nfa. generateAutomaton t as = Some nfa \<and> nfa_wf nfa \<and> nfa_closed nfa \<and>
     (\<forall>w. nfa_accepts nfa w = (if w \<in> term_lang t then set as else {}))"
proof -
  obtain nfa0 root where root: "newNodeBuilder emptyNFA = (nfa0, root)" by force
  obtain nfa1 new where new: "newNodeBuilder nfa0 = (nfa1, new)" by force
  note ok0 = newNodeBuilder_ok [OF root emptyNFA_wf(1)]
  note ok1 = newNodeBuilder_ok [OF new ok0(1)]
  have ids: "m_nodeId root = 0" "m_nodeId new = 1" "length (nodes nfa1) = 2" "nfa_edges nfa1 = {}"
    "builder_edges root = {}" "builder_edges new = {}"
    using ok0(3,5,6,10) ok1(3,5,6,10) by (simp_all add: emptyNFA_wf)
  have blank1: "blank nfa1 0" "blank nfa1 1"
    using ok1(7) same_node_blank [OF ok1(9) ok0(7)] by (simp_all add: ids ok0(5))
  have ready: "generator_ready nfa1 root (m_nodeId new)"
    unfolding generator_ready_def using ok0(2,4) ok1(1) by (simp add: ids)
  obtain nfa2 root2 where g: "generateGraph t nfa1 root (m_nodeId new) = Some (nfa2, root2)"
    and gen: "generated nfa1 root (m_nodeId new) (term_lang t) nfa2 root2"
    by (rule generatesE [OF generates_term ready])
  obtain new2 where new2: "setActions as new = Some new2" "builder_wf new2" "m_nodeId new2 = 1" "\<not> m_finalized new2"
    "builder_edges new2 = {}" "set (ht_values (m_actions new2)) = set as"
    using setActions_ok [OF ok1(2), of as] ok1(4,8) ids by auto
  obtain E1 E2 where E: "nfa_edges nfa2 = E1" "builder_edges root2 = E2"
    and frag: "fragment (E1 \<union> E2) 0 1 {2..<length (nodes nfa2)} (term_lang t)"
    using gen unfolding generated_def ids by auto
  have g2: "nfa_wf nfa2" "builder_wf root2" "m_nodeId root2 = 0" "m_actions root2 = m_actions root" "\<not> m_finalized root2"
    "2 \<le> length (nodes nfa2)"
    using gen ok0(4) unfolding generated_def ids by auto
  have keep: "same_node nfa1 nfa2 i" if "i < 2" for i
    using gen that unfolding generated_def ids by blast
  have blank2: "blank nfa2 0" "blank nfa2 1"
    using same_node_blank [OF keep blank1(1)] same_node_blank [OF keep blank1(2)] by simp_all
  have rest2: "actionsForNode nfa2 i = []" if "2 \<le> i" "i < length (nodes nfa2)" for i
    using gen that unfolding generated_def ids by auto
  define nfa3 where "nfa3 = destroyBuilder new2 nfa2"
  define nfa4 where "nfa4 = destroyBuilder root2 nfa3"
  have root0: "0 < length (nodes nfa2)" and end1: "1 < length (nodes nfa2)" using g2(6) by auto
  note d3 = destroyBuilder_ok [OF g2(1), of new2, unfolded new2(3), OF end1 blank2(2) new2(4,2), folded nfa3_def]
  have blank3: "blank nfa3 0" using same_node_blank [OF d3(3) blank2(1)] root0 by simp
  note d4 = destroyBuilder_ok [OF d3(1), of root2, unfolded g2(3) d3(2), OF root0 blank3 g2(5,2), folded nfa4_def]
  have actions: "set (actionsForNode nfa4 i) = (if i = 1 then set as else {})" if i: "i < length (nodes nfa4)" for i
  proof -
    have "actionsForNode nfa4 i = actionsForNode nfa3 i" if "i \<noteq> 0"
      using d4(3) [of i] i that d4(2) by (simp add: same_node_def)
    moreover have "actionsForNode nfa3 i = actionsForNode nfa2 i" if "i \<noteq> 1"
      using d3(3) [of i] i that d4(2) by (simp add: same_node_def)
    ultimately show ?thesis
      using d4(4) d3(4) g2(4) ok0(8) rest2 [of i] new2(6) i d4(2) by (cases "i = 0"; cases "i = 1") auto
  qed
  have "generateAutomaton t as = Some nfa4"
    using g new2(1) by (simp add: generateAutomaton_def generateGraphToEnd_def root new nfa3_def nfa4_def)
  moreover have edges: "nfa_edges nfa4 = E1 \<union> E2" using d4(5) d3(5) by (simp add: E new2(5))
  then have "nfa_closed nfa4"
    using fragment_edge [OF frag] end1 d4(2) by (auto simp: nfa_closed_def)
  moreover have "nfa_accepts nfa4 w = (if w \<in> term_lang t then set as else {})" for w
  proof -
    have "nfa_accepts nfa4 w = (if path (E1 \<union> E2) 0 w 1 then set as else {})"
      unfolding nfa_accepts_def edges using actions end1 d4(2) by (auto split: if_splits)
    then show ?thesis unfolding fragment_lang [OF frag] .
  qed
  ultimately show ?thesis using d4(1) by blast
qed

theorem isKnownToMatchAnyString_sound_witness:
  "\<exists>t. isKnownToMatchAnyString t \<and> [97, 98] \<in> term_lang t"
proof (intro exI conjI)
  show k: "isKnownToMatchAnyString (GroupTerm [CharacterSetTerm (cs_invert emptyCharacterSet) ZeroOrOne] OneOrMore)"
    by (simp add: cs_isUniversal_bits cs_bits_def cs_bit_iff cs_invert_def emptyCharacterSet_def)
  show "[97, 98] \<in> term_lang (GroupTerm [CharacterSetTerm (cs_invert emptyCharacterSet) ZeroOrOne] OneOrMore)"
    by (rule isKnownToMatchAnyString_sound [OF k]) simp
qed

theorem term_predicates_sound_witness:
  "[] \<notin> term_lang (GroupTerm [CharacterSetTerm (cs_invert emptyCharacterSet) One] One) \<and>
   term_lang (GroupTerm [CharacterSetTerm (cs_invert emptyCharacterSet) One] One) \<subseteq> {w. \<exists>c \<in> set w. c \<noteq> 0} \<and>
   (\<exists>n. term_lang (GroupTerm [CharacterSetTerm (cs_invert emptyCharacterSet) One] One) \<subseteq> {w. length w = n})"
proof -
  let ?t = "GroupTerm [CharacterSetTerm (cs_invert emptyCharacterSet) One] One"
  have v: "hereditarilyValid ?t" and m: "matchesAtLeastOneCharacter ?t" and h: "hasFixedLength ?t"
    and e: "end_assertions_only ?t"
    by (simp_all add: cs_isEndOfLine_bits cs_bits_def cs_bit_iff cs_invert_def emptyCharacterSet_def)
  from term_predicates_sound [OF v] m h e show ?thesis by blast
qed

end
