(* ===== verification/DFA.thy ===== *)
theory DFA
  imports Fragments
begin

text \<open>
  \<^verbatim>\<open>DFA.h\<close>, \<^verbatim>\<open>DFA.cpp\<close>, \<^verbatim>\<open>DFANode.h\<close>, \<^verbatim>\<open>DFANode.cpp\<close>: the deterministic automata, whose nodes are
  slices of the vectors of actions, ranges and destinations, and the choice of a fallback
  transition. A word leads from the root to at most one node, whose actions it triggers.
\<close>

section \<open>Data\<close>

record CharRange =
  cr_first :: charval
  cr_last :: charval

definition cr_size :: "CharRange \<Rightarrow> nat" where
  "cr_size r = nat (cr_last r - cr_first r + 1)"

text \<open>The lengths are fields of 16 and 8 bits; \<^verbatim>\<open>m_flags\<close> has the one flag \<^verbatim>\<open>IsKilled\<close>.\<close>

record DFANode =
  m_actionsStart :: nat
  m_transitionsStart :: nat
  m_actionsLength :: nat
  m_transitionsLength :: nat
  m_isKilled :: bool

record DFA =
  dfa_nodes :: "DFANode list"
  dfa_actions :: "uint64 list"
  transitionRanges :: "CharRange list"
  transitionDestinations :: "nat list"
  dfa_root :: nat

definition newDFANode :: DFANode where
  "newDFANode = \<lparr>m_actionsStart = 0, m_transitionsStart = 0, m_actionsLength = 0, m_transitionsLength = 0,
     m_isKilled = False\<rparr>"

definition newDFA :: DFA where
  "newDFA = \<lparr>dfa_nodes = [], dfa_actions = [], transitionRanges = [], transitionDestinations = [], dfa_root = 0\<rparr>"

definition dfa_empty :: DFA where
  "dfa_empty = newDFA\<lparr>dfa_nodes := dfa_nodes newDFA @ [newDFANode]\<rparr>"

section \<open>Nodes\<close>

text \<open>What the range iterators of a node show: each range with its target.\<close>

definition dfa_transitions :: "DFA \<Rightarrow> DFANode \<Rightarrow> nat rangeSeq" where
  "dfa_transitions dfa node =
     map (\<lambda>i. (cr_first (transitionRanges dfa ! i), cr_last (transitionRanges dfa ! i), transitionDestinations dfa ! i))
       [m_transitionsStart node ..< m_transitionsStart node + m_transitionsLength node]"

definition dfa_nodeActions :: "DFA \<Rightarrow> DFANode \<Rightarrow> uint64 list" where
  "dfa_nodeActions dfa node =
     map (\<lambda>i. dfa_actions dfa ! i) [m_actionsStart node ..< m_actionsStart node + m_actionsLength node]"

definition hasActions :: "DFANode \<Rightarrow> bool" where
  "hasActions node \<longleftrightarrow> m_actionsLength node \<noteq> 0"

definition containsTransition :: "charval \<Rightarrow> DFA \<Rightarrow> DFANode \<Rightarrow> bool" where
  "containsTransition transition dfa node =
     list_ex (\<lambda>i. cr_first (transitionRanges dfa ! i) \<le> transition \<and> cr_last (transitionRanges dfa ! i) \<ge> transition)
       [m_transitionsStart node ..< m_transitionsStart node + m_transitionsLength node]"

definition dfa_setActions :: "nat \<Rightarrow> nat \<Rightarrow> DFANode \<Rightarrow> DFANode" where
  "dfa_setActions start len node = node\<lparr>m_actionsStart := start, m_actionsLength := len mod 2 ^ 16\<rparr>"

definition dfa_setTransitions :: "nat \<Rightarrow> nat \<Rightarrow> DFANode \<Rightarrow> DFANode" where
  "dfa_setTransitions start len node = node\<lparr>m_transitionsStart := start, m_transitionsLength := len mod 2 ^ 8\<rparr>"

fun overwrite :: "nat list \<Rightarrow> 'a \<Rightarrow> 'a list \<Rightarrow> 'a list" where
  "overwrite [] v xs = xs"
| "overwrite (i # is) v xs = overwrite is v (xs[i := v])"

definition kill :: "nat \<Rightarrow> DFA \<Rightarrow> DFA" where
  "kill nodeId dfa =
     (let node = dfa_nodes dfa ! nodeId;
          transitionIndices = [m_transitionsStart node ..< m_transitionsStart node + m_transitionsLength node];
          actionIndices = [m_actionsStart node ..< m_actionsStart node + m_actionsLength node]
      in dfa\<lparr>transitionRanges := overwrite transitionIndices \<lparr>cr_first = -1, cr_last = -1\<rparr> (transitionRanges dfa),
             transitionDestinations := overwrite transitionIndices (2 ^ 32 - 1) (transitionDestinations dfa),
             dfa_actions := overwrite actionIndices (- 1) (dfa_actions dfa),
             dfa_nodes := (dfa_nodes dfa)[nodeId := \<lparr>m_actionsStart = 0, m_transitionsStart = 0,
               m_actionsLength = 0, m_transitionsLength = 0, m_isKilled = True\<rparr>]\<rparr>)"

definition resetTarget :: "nat \<Rightarrow> nat \<Rightarrow> DFA \<Rightarrow> DFA" where
  "resetTarget position newTarget dfa =
     dfa\<lparr>transitionDestinations := (transitionDestinations dfa)[position := newTarget]\<rparr>"

definition graphSize :: "DFA \<Rightarrow> nat" where
  "graphSize dfa = length (filter (\<lambda>node. \<not> m_isKilled node) (dfa_nodes dfa))"

section \<open>Fallback transitions\<close>

fun contiguousFrom :: "charval \<Rightarrow> nat rangeSeq \<Rightarrow> bool" where
  "contiguousFrom lastSeenCharacter [] = False"
| "contiguousFrom lastSeenCharacter ((f, l, t) # rest) =
     (if f \<noteq> lastSeenCharacter + 1 then False
      else if l = 127 then True
      else contiguousFrom l rest)"

fun fallbackPossible :: "nat rangeSeq \<Rightarrow> bool" where
  "fallbackPossible [] = False"
| "fallbackPossible ((f, l, t) # rest) =
     (if f = 0 then (if l = 127 then True else contiguousFrom l rest)
      else contiguousFrom 0 ((f, l, t) # rest))"

definition canUseFallbackTransition :: "DFA \<Rightarrow> DFANode \<Rightarrow> bool" where
  "canUseFallbackTransition dfa node = fallbackPossible (dfa_transitions dfa node)"

text \<open>\<^verbatim>\<open>histogram.add\<close> and the increment of a value that was there. The histogram is a local \<^verbatim>\<open>HashMap\<close> that
  is never iterated; it is modelled by the partial function that \<^verbatim>\<open>HashMap\<close> refines.\<close>

definition histogram_add :: "nat \<Rightarrow> nat \<Rightarrow> (nat \<rightharpoonup> nat) \<Rightarrow> (nat \<rightharpoonup> nat)" where
  "histogram_add target rangeSize h =
     (case h target of None \<Rightarrow> h(target \<mapsto> rangeSize) | Some v \<Rightarrow> h(target \<mapsto> v + rangeSize))"

fun bestFallback_loop :: "nat rangeSeq \<Rightarrow> (nat \<rightharpoonup> nat) \<Rightarrow> nat \<Rightarrow> nat \<Rightarrow> nat" where
  "bestFallback_loop [] histogram bestTarget bestTargetScore = bestTarget"
| "bestFallback_loop ((f, l, target) # rest) histogram bestTarget bestTargetScore =
     (let histogram' = histogram_add target (nat (l - f + 1)) histogram;
          score = (case histogram' target of Some v \<Rightarrow> v | None \<Rightarrow> 0)
      in if score > bestTargetScore then bestFallback_loop rest histogram' target score
         else bestFallback_loop rest histogram' bestTarget bestTargetScore)"

text \<open>\<open>None\<close> where the source dereferences the end of the ranges, which it asserts not to happen.\<close>

fun bestFallback_first :: "nat rangeSeq \<Rightarrow> nat option" where
  "bestFallback_first [] = None"
| "bestFallback_first ((f, l, target) # rest) =
     (let score = (if f = 0 then nat (l - f + 1) - 1 else nat (l - f + 1))
      in Some (bestFallback_loop rest [target \<mapsto> score] target score))"

fun bestFallback :: "nat rangeSeq \<Rightarrow> nat option" where
  "bestFallback [] = None"
| "bestFallback ((f, l, t) # rest) =
     (if f = 0 \<and> l = 0 then bestFallback_first rest else bestFallback_first ((f, l, t) # rest))"

definition bestFallbackTarget :: "DFA \<Rightarrow> DFANode \<Rightarrow> nat option" where
  "bestFallbackTarget dfa node = bestFallback (dfa_transitions dfa node)"

section \<open>Runs\<close>

definition node_wf_dfa :: "DFA \<Rightarrow> DFANode \<Rightarrow> bool" where
  "node_wf_dfa dfa node \<longleftrightarrow>
     m_transitionsStart node + m_transitionsLength node \<le> length (transitionRanges dfa) \<and>
     m_actionsStart node + m_actionsLength node \<le> length (dfa_actions dfa) \<and>
     m_transitionsLength node < 2 ^ 8 \<and> m_actionsLength node < 2 ^ 16 \<and>
     sorted_ranges 0 127 (dfa_transitions dfa node) \<and>
     (\<forall>(f, l, t) \<in> set (dfa_transitions dfa node). t < length (dfa_nodes dfa) \<and> \<not> m_isKilled (dfa_nodes dfa ! t))"

definition dfa_wf :: "DFA \<Rightarrow> bool" where
  "dfa_wf dfa \<longleftrightarrow> dfa_root dfa < length (dfa_nodes dfa) \<and> \<not> m_isKilled (dfa_nodes dfa ! dfa_root dfa) \<and>
     length (transitionDestinations dfa) = length (transitionRanges dfa) \<and>
     (\<forall>node \<in> set (dfa_nodes dfa). \<not> m_isKilled node \<longrightarrow> node_wf_dfa dfa node)"

definition dfa_step :: "DFA \<Rightarrow> nat \<Rightarrow> charval \<Rightarrow> nat option" where
  "dfa_step dfa s c = range_at (dfa_transitions dfa (dfa_nodes dfa ! s)) c"

fun dfa_run :: "DFA \<Rightarrow> nat \<Rightarrow> input \<Rightarrow> nat option" where
  "dfa_run dfa s [] = Some s"
| "dfa_run dfa s (c # w) = (case dfa_step dfa s c of None \<Rightarrow> None | Some t \<Rightarrow> dfa_run dfa t w)"

definition dfa_accepts_from :: "DFA \<Rightarrow> nat \<Rightarrow> input \<Rightarrow> uint64 set" where
  "dfa_accepts_from dfa s w =
     (case dfa_run dfa s w of None \<Rightarrow> {} | Some t \<Rightarrow> set (dfa_nodeActions dfa (dfa_nodes dfa ! t)))"

definition dfa_accepts :: "DFA \<Rightarrow> input \<Rightarrow> uint64 set" where
  "dfa_accepts dfa w = dfa_accepts_from dfa (dfa_root dfa) w"

section \<open>The fallback is sound\<close>

lemma contiguousFrom_covers:
  "sorted_ranges (m + 1) 127 ts \<Longrightarrow> m < 127 \<Longrightarrow> contiguousFrom m ts \<longleftrightarrow> (\<forall>c. m < c \<and> c \<le> 127 \<longrightarrow> range_at ts c \<noteq> None)"
proof (induction m ts rule: contiguousFrom.induct)
  case (1 m)
  then show ?case by (auto intro: exI [of _ 127])
next
  case (2 m f l t rest)
  then have s: "m + 1 \<le> f" "f \<le> l" "l \<le> 127" "sorted_ranges (l + 1) 127 rest" by auto
  consider "f \<noteq> m + 1" | "f = m + 1" "l = 127" | "f = m + 1" "l < 127" using s by fastforce
  then show ?case
  proof cases
    case 1
    with s have "range_at ((f, l, t) # rest) (m + 1) = None" using range_at_below [OF s(4), of "m + 1"] by simp
    with 1 2(3) show ?thesis by (auto intro!: exI [of _ "m + 1"])
  next
    case 2
    then show ?thesis by auto
  next
    case 3
    then have IH: "contiguousFrom l rest \<longleftrightarrow> (\<forall>c. l < c \<and> c \<le> 127 \<longrightarrow> range_at rest c \<noteq> None)"
      using "2.IH" s by simp
    have "(\<forall>c. m < c \<and> c \<le> 127 \<longrightarrow> range_at ((f, l, t) # rest) c \<noteq> None)
        \<longleftrightarrow> (\<forall>c. l < c \<and> c \<le> 127 \<longrightarrow> range_at rest c \<noteq> None)" (is "?L = ?R")
    proof
      assume L: ?L
      show ?R
      proof (intro allI impI)
        fix c assume "l < c \<and> c \<le> 127"
        with L [rule_format, of c] 3 s show "range_at rest c \<noteq> None" by (auto split: if_splits)
      qed
    next
      assume R: ?R
      show ?L
      proof (intro allI impI)
        fix c assume "m < c \<and> c \<le> 127"
        with R [rule_format, of c] 3 show "range_at ((f, l, t) # rest) c \<noteq> None" by auto
      qed
    qed
    with 3 IH show ?thesis by simp
  qed
qed

lemma fallbackPossible_covers:
  assumes "sorted_ranges 0 127 ts"
  shows "fallbackPossible ts \<longleftrightarrow> (\<forall>c \<in> {1..127}. range_at ts c \<noteq> None)"
proof (cases ts)
  case Nil
  then show ?thesis by (auto intro: bexI [of _ 1])
next
  case (Cons x rest)
  obtain f l t where x: "x = (f, l, t)" by (cases x) auto
  have s: "0 \<le> f" "f \<le> l" "l \<le> 127" "sorted_ranges (l + 1) 127 rest" using assms by (auto simp: Cons x)
  show ?thesis
  proof (cases "f = 0")
    case True
    have "(\<forall>c \<in> {1..127}. range_at ts c \<noteq> None) \<longleftrightarrow> (\<forall>c. l < c \<and> c \<le> 127 \<longrightarrow> range_at rest c \<noteq> None)"
    proof (intro iffI ballI allI impI)
      fix c :: charval assume a: "\<forall>c \<in> {1..127}. range_at ts c \<noteq> None" and c: "l < c \<and> c \<le> 127"
      then have "range_at ts c \<noteq> None" using s by auto
      with c show "range_at rest c \<noteq> None" by (simp add: Cons x)
    next
      fix c :: charval assume a: "\<forall>c. l < c \<and> c \<le> 127 \<longrightarrow> range_at rest c \<noteq> None" and c: "c \<in> {1..127}"
      then show "range_at ts c \<noteq> None" using True by (cases "c \<le> l") (auto simp: Cons x)
    qed
    with True s contiguousFrom_covers [OF s(4)] show ?thesis by (cases "l = 127") (auto simp: Cons x)
  next
    case False
    with s assms have "sorted_ranges (0 + 1) 127 ts" by (simp add: Cons x)
    from contiguousFrom_covers [OF this] False show ?thesis by (auto simp: Cons x)
  qed
qed

text \<open>The number of characters that lead to a target, and its computation from the ranges.\<close>

definition chars_to :: "nat rangeSeq \<Rightarrow> nat \<Rightarrow> nat" where
  "chars_to ts t = card {c \<in> {1..127}. range_at ts c = Some t}"

fun weight :: "nat rangeSeq \<Rightarrow> nat \<Rightarrow> nat" where
  "weight [] t = 0"
| "weight ((f, l, t') # ts) t = (if t' = t then nat (l - f + 1) else 0) + weight ts t"

lemma weight_chars_to: "sorted_ranges m 127 ts \<Longrightarrow> 1 \<le> m \<Longrightarrow> weight ts t = chars_to ts t"
proof (induction ts arbitrary: m)
  case (Cons x ts)
  obtain f l t' where x: "x = (f, l, t')" by (cases x) auto
  have s: "m \<le> f" "f \<le> l" "l \<le> 127" "sorted_ranges (l + 1) 127 ts" using Cons.prems by (auto simp: x)
  have below: "c \<le> l \<Longrightarrow> range_at ts c = None" for c by (rule range_at_below [OF s(4)]) simp
  have "{c \<in> {1..127}. range_at (x # ts) c = Some t}
      = (if t' = t then {f..l} else {}) \<union> {c \<in> {1..127}. range_at ts c = Some t}"
    using s Cons.prems(2) below by (auto simp: x)
  moreover have "(if t' = t then {f..l} else {}) \<inter> {c \<in> {1..127}. range_at ts c = Some t} = {}"
    using below by auto
  moreover have "finite {c \<in> {1..127}. range_at ts c = Some t}" by (rule finite_subset [of _ "{1..127}"]) auto
  moreover have "finite (if t' = t then {f..l} else {})" by simp
  ultimately have "chars_to (x # ts) t = card (if t' = t then {f..l} else {}) + chars_to ts t"
    unfolding chars_to_def by (metis card_Un_disjoint)
  moreover have "weight ts t = chars_to ts t" using Cons.IH [OF s(4)] s Cons.prems(2) by simp
  ultimately show ?case by (simp add: x)
qed (simp add: chars_to_def)

lemma bestFallback_loop_best:
  assumes "\<forall>t. (case histogram t of Some v \<Rightarrow> v | None \<Rightarrow> 0) = seen t" "seen best = score" "\<forall>t. seen t \<le> score"
    and "\<forall>(f, l, t) \<in> set ts. f \<le> l"
  shows "seen t + weight ts t \<le> seen (bestFallback_loop ts histogram best score)
      + weight ts (bestFallback_loop ts histogram best score)"
  using assms
proof (induction ts arbitrary: histogram seen best score t)
  case Nil
  then show ?case by simp
next
  case (Cons x ts)
  obtain f l g where x: "x = (f, l, g)" by (cases x) auto
  let ?n = "nat (l - f + 1)"
  let ?h = "histogram_add g ?n histogram" and ?seen = "seen(g := seen g + ?n)"
  have h: "\<forall>t. (case ?h t of Some v \<Rightarrow> v | None \<Rightarrow> 0) = ?seen t"
    using Cons.prems(1) by (auto simp: histogram_add_def split: option.splits) (metis option.simps(4,5))+
  have score: "(case ?h g of Some v \<Rightarrow> v | None \<Rightarrow> 0) = seen g + ?n" using h by simp
  have move: "?seen t + weight ts t = seen t + weight (x # ts) t" for t by (simp add: x)
  show ?case
  proof (cases "seen g + ?n > score")
    case True
    have "\<forall>t. ?seen t \<le> seen g + ?n" using Cons.prems(3) True by (auto intro: le_trans less_imp_le)
    from Cons.IH [OF h _ this, of g t] Cons.prems(4)
    have "?seen t + weight ts t \<le> ?seen (bestFallback_loop ts ?h g (seen g + ?n))
        + weight ts (bestFallback_loop ts ?h g (seen g + ?n))" by simp
    moreover have "bestFallback_loop (x # ts) histogram best score = bestFallback_loop ts ?h g (seen g + ?n)"
      using True score by (simp add: x Let_def)
    ultimately show ?thesis unfolding move by simp
  next
    case False
    have "f \<le> l" using Cons.prems(4) by (simp add: x)
    with False Cons.prems(2) have "best \<noteq> g" by auto
    then have b: "?seen best = score" "\<forall>t. ?seen t \<le> score" using Cons.prems(2,3) False by auto
    from Cons.IH [OF h b, of t] Cons.prems(4)
    have "?seen t + weight ts t \<le> ?seen (bestFallback_loop ts ?h best score)
        + weight ts (bestFallback_loop ts ?h best score)" by simp
    moreover have "bestFallback_loop (x # ts) histogram best score = bestFallback_loop ts ?h best score"
      using False score by (simp add: x Let_def)
    ultimately show ?thesis unfolding move by simp
  qed
qed

lemma sorted_ranges_ordered: "sorted_ranges m hi ts \<Longrightarrow> \<forall>(f, l, t) \<in> set ts. m \<le> f \<and> f \<le> l \<and> l \<le> hi"
proof (induction m hi ts rule: sorted_ranges.induct)
  case (2 m hi f l d xs)
  then show ?case by fastforce
qed simp

lemma bestFallback_first_best:
  assumes "sorted_ranges 0 127 ts" "ts \<noteq> []" "range_at ts 0 \<noteq> None \<longrightarrow> 1 \<le> fst (snd (hd ts))"
  shows "\<exists>best. bestFallback_first ts = Some best \<and> (\<forall>t. chars_to ts t \<le> chars_to ts best)"
proof -
  obtain f l g rest where ts: "ts = (f, l, g) # rest" using assms(2) by (cases ts) auto
  have s: "0 \<le> f" "f \<le> l" "l \<le> 127" "sorted_ranges (l + 1) 127 rest" using assms(1) by (auto simp: ts)
  define f' where "f' = (if f = 0 then 1 else f)"
  have f': "1 \<le> f'" "f' \<le> l" using s assms(3) by (auto simp: f'_def ts)
  let ?ts = "(f', l, g) # rest"
  have same: "chars_to ts t = chars_to ?ts t" for t
    by (auto simp: chars_to_def ts f'_def intro!: arg_cong [where f = card])
  have score: "(if f = 0 then nat (l - f + 1) - 1 else nat (l - f + 1)) = nat (l - f' + 1)"
    using s by (simp add: f'_def nat_add_distrib)
  let ?n = "nat (l - f' + 1)"
  let ?best = "bestFallback_loop rest [g \<mapsto> ?n] g ?n"
  have "(\<lambda>t. if t = g then ?n else 0) t + weight rest t
      \<le> (\<lambda>t. if t = g then ?n else 0) ?best + weight rest ?best" for t
    using sorted_ranges_ordered [OF s(4)] by (intro bestFallback_loop_best) auto
  then have "weight ?ts t \<le> weight ?ts ?best" for t by (simp add: eq_commute [of g])
  moreover have "sorted_ranges 1 127 ?ts" using f' s by simp
  ultimately have "chars_to ts t \<le> chars_to ts ?best" for t
    unfolding same by (simp only: weight_chars_to [symmetric])
  with score show ?thesis by (simp add: ts Let_def)
qed

lemma bestFallback_best:
  assumes s: "sorted_ranges 0 127 ts" and fp: "fallbackPossible ts"
  shows "\<exists>best. bestFallback ts = Some best \<and> (\<forall>t. chars_to ts t \<le> chars_to ts best)"
proof -
  obtain f l g rest where ts: "ts = (f, l, g) # rest" using fp by (cases ts) auto
  show ?thesis
  proof (cases "f = 0 \<and> l = 0")
    case True
    with fp s ts have "rest \<noteq> []" "sorted_ranges 1 127 rest" by (auto simp: ts)
    moreover then have "range_at rest 0 = None" by (intro range_at_below [of 1 127]) auto
    moreover have "chars_to ts t = chars_to rest t" for t using True by (auto simp: chars_to_def ts intro!: arg_cong [where f = card])
    ultimately show ?thesis
      using bestFallback_first_best [of rest] sorted_ranges_mono [of 1 127 rest 0] True by (simp add: ts)
  next
    case False
    then have "range_at ts 0 \<noteq> None \<longrightarrow> 1 \<le> fst (snd (hd ts))"
      using s range_at_below [of "l + 1" 127 rest 0] by (auto simp: ts)
    moreover have "bestFallback ts = bestFallback_first ts" using False by (auto simp: ts)
    ultimately show ?thesis using bestFallback_first_best [OF s] by (simp add: ts)
  qed
qed

text \<open>
  C9: for the sorted transitions of a node, \<^verbatim>\<open>canUseFallbackTransition\<close> says exactly whether every
  character from 1 to 127 has a transition, and then \<^verbatim>\<open>bestFallbackTarget\<close> is defined and is a target of
  the largest number of these characters.
\<close>

theorem fallback_correct:
  assumes "node_wf_dfa dfa node"
  shows "(canUseFallbackTransition dfa node \<longleftrightarrow>
      (\<forall>c \<in> {1..127}. range_at (dfa_transitions dfa node) c \<noteq> None)) \<and>
    (canUseFallbackTransition dfa node \<longrightarrow> (\<exists>best. bestFallbackTarget dfa node = Some best \<and>
      (\<forall>t. chars_to (dfa_transitions dfa node) t \<le> chars_to (dfa_transitions dfa node) best)))"
proof -
  define ts where "ts = dfa_transitions dfa node"
  have s: "sorted_ranges 0 127 ts" using assms by (simp add: node_wf_dfa_def ts_def)
  from fallbackPossible_covers [OF s] bestFallback_best [OF s] show ?thesis
    by (simp add: canUseFallbackTransition_def bestFallbackTarget_def ts_def)
qed

definition example_dfa :: DFA where
  "example_dfa = \<lparr>dfa_nodes = [\<lparr>m_actionsStart = 0, m_transitionsStart = 0, m_actionsLength = 1, m_transitionsLength = 3,
       m_isKilled = False\<rparr>, newDFANode],
     dfa_actions = [7], transitionRanges = [\<lparr>cr_first = 0, cr_last = 96\<rparr>, \<lparr>cr_first = 97, cr_last = 97\<rparr>,
       \<lparr>cr_first = 98, cr_last = 127\<rparr>],
     transitionDestinations = [0, 1, 0], dfa_root = 0\<rparr>"

lemma example_dfa_transitions:
  "dfa_transitions example_dfa (dfa_nodes example_dfa ! 0) = [(0, 96, 0), (97, 97, 1), (98, 127, 0)]"
  "dfa_transitions example_dfa newDFANode = []"
  by code_simp+

lemma example_dfa_wf: "node_wf_dfa example_dfa (dfa_nodes example_dfa ! 0)"
  unfolding node_wf_dfa_def example_dfa_transitions by (simp add: example_dfa_def newDFANode_def)

theorem fallback_correct_witness:
  "canUseFallbackTransition example_dfa (dfa_nodes example_dfa ! 0) \<and>
   bestFallbackTarget example_dfa (dfa_nodes example_dfa ! 0) = Some 0 \<and>
   chars_to (dfa_transitions example_dfa (dfa_nodes example_dfa ! 0)) 1
     \<le> chars_to (dfa_transitions example_dfa (dfa_nodes example_dfa ! 0)) 0"
proof -
  have c: "canUseFallbackTransition example_dfa (dfa_nodes example_dfa ! 0)"
    and b: "bestFallbackTarget example_dfa (dfa_nodes example_dfa ! 0) = Some 0"
    by (simp_all add: canUseFallbackTransition_def bestFallbackTarget_def example_dfa_transitions histogram_add_def)
  from fallback_correct [OF example_dfa_wf] c b show ?thesis by auto
qed

end
