(* ===== verification/NFAToDFA.thy ===== *)
theory NFAToDFA
  imports DFA
begin

text \<open>
  \<^verbatim>\<open>NFAToDFA.cpp\<close>: the subset construction. The epsilon closures are computed first; the sets of
  nodes that are reached are kept in a hash table that maps each set to its node of the new
  automaton. The result triggers the same actions on every word.
\<close>

section \<open>Epsilon closures\<close>

fun addTargets :: "nat list \<Rightarrow> nat HashSet \<Rightarrow> nat list \<Rightarrow> nat list \<Rightarrow> (nat HashSet \<times> nat list \<times> nat list) option" where
  "addTargets [] closure unprocessedNodes output = Some (closure, unprocessedNodes, output)"
| "addTargets (targetNodeId # rest) closure unprocessedNodes output = do {
     (closure, isNewEntry) \<leftarrow> hs_add idSetTraits targetNodeId closure;
     if isNewEntry then addTargets rest closure (unprocessedNodes @ [targetNodeId]) (output @ [targetNodeId])
     else addTargets rest closure unprocessedNodes output
   }"

partial_function (option) closure_loop ::
  "NFA \<Rightarrow> nat HashSet \<Rightarrow> nat list \<Rightarrow> nat list \<Rightarrow> nat list option" where
  "closure_loop nfa closure unprocessedNodes output = do {
     (closure, unprocessedNodes, output) \<leftarrow>
       addTargets (epsilonTargetsForNode nfa (last unprocessedNodes)) closure (butlast unprocessedNodes) output;
     if unprocessedNodes = [] then Some output
     else closure_loop nfa closure unprocessedNodes output
   }"

declare closure_loop.simps [code]

definition epsilonClosureExcludingSelf :: "NFA \<Rightarrow> nat \<Rightarrow> nat list option" where
  "epsilonClosureExcludingSelf nfa nodeId = do {
     closure \<leftarrow> hs_initializer idSetTraits [nodeId];
     closure_loop nfa closure [nodeId] []
   }"

definition resolveEpsilonClosures :: "NFA \<Rightarrow> (NFA \<times> nat list list) option" where
  "resolveEpsilonClosures nfa = do {
     nfaNodeClosures \<leftarrow> those (map (epsilonClosureExcludingSelf nfa) [0..<length (nodes nfa)]);
     Some (nfa\<lparr>epsilonTransitionsTargets := []\<rparr>, nfaNodeClosures)
   }"

text \<open>The closure of a node. The vector aborts on an index out of range; the targets of an
  automaton are nodes of it, so this does not occur and the closure is taken to be empty there.\<close>

definition closureOf :: "nat list list \<Rightarrow> nat \<Rightarrow> nat list" where
  "closureOf nfaNodeClosures nodeId = (if nodeId < length nfaNodeClosures then nfaNodeClosures ! nodeId else [])"

definition extendSetWithClosure :: "nat list list \<Rightarrow> nat \<Rightarrow> nat HashSet \<Rightarrow> nat HashSet option" where
  "extendSetWithClosure nfaNodeClosures nodeId s =
     (let nodeClosure = closureOf nfaNodeClosures nodeId
      in if nodeClosure \<noteq> [] then do { (s, _) \<leftarrow> hs_addAll idSetTraits nodeClosure s; Some s } else Some s)"

section \<open>The table of the sets of nodes\<close>

record UniqueNodeIdSetImpl =
  m_hash :: uint32
  m_dfaNodeId :: nat
  m_buffer :: "nat list"

definition newUniqueNodeIdSet :: "nat HashSet \<Rightarrow> uint32 \<Rightarrow> nat \<Rightarrow> UniqueNodeIdSetImpl" where
  "newUniqueNodeIdSet nodeIdSet hash dfaNodeId =
     \<lparr>m_hash = hash, m_dfaNodeId = dfaNodeId, m_buffer = ht_values nodeIdSet\<rparr>"

text \<open>\<^verbatim>\<open>operator==(const NodeIdSet&)\<close>; \<^verbatim>\<open>m_size\<close> is the length of the buffer.\<close>

definition uniqueNodeIdSet_equal :: "UniqueNodeIdSetImpl \<Rightarrow> nat HashSet \<Rightarrow> bool option" where
  "uniqueNodeIdSet_equal impl other =
     (if length (m_buffer impl) \<noteq> m_keyCount other then Some False
      else hs_subset idSetTraits (m_buffer impl) other)"

definition nodeIdSet_hash :: "nat HashSet \<Rightarrow> uint32" where
  "nodeIdSet_hash nodeIdSet =
     intHash32 (foldl (\<lambda>hash nodeId. hash + of_nat nodeId) 4207445155 (ht_values nodeIdSet))"

text \<open>The key of an entry is the set of its nodes: the hash is a sum, which does not depend on
  the order of the nodes, and the equality compares sets (lemmas \<open>nodeIdSet_hash_set\<close> and
  \<open>uniqueNodeIdSet_equal_set\<close>).\<close>

definition uniqueNodeIdSetTraits :: "(nat set, UniqueNodeIdSetImpl) HashTraits" where
  "uniqueNodeIdSetTraits =
     \<lparr>ht_hash = (\<lambda>S. intHash32 (4207445155 + (\<Sum>nodeId\<in>S. of_nat nodeId))),
      ht_extract = (\<lambda>impl. set (m_buffer impl)), minimumTableSize = 128, arithmetic = Unbounded\<rparr>"

fun collectActions :: "NFA \<Rightarrow> nat list \<Rightarrow> uint64 HashSet \<Rightarrow> uint64 HashSet option" where
  "collectActions nfa [] actions = Some actions"
| "collectActions nfa (nfaNodeId # ids) actions = do {
     (actions, _) \<leftarrow> hs_addAll actionSetTraits (actionsForNode nfa nfaNodeId) actions;
     collectActions nfa ids actions
   }"

text \<open>\<^verbatim>\<open>translate\<close> creates the node of the new automaton; it release-asserts that its actions can be
  counted in 16 bits.\<close>

definition translate :: "NFA \<Rightarrow> nat HashSet \<Rightarrow> DFA \<Rightarrow> DFA option" where
  "translate nfa nodeIdSet dfa = do {
     actions \<leftarrow> collectActions nfa (ht_values nodeIdSet) ht_empty;
     let actionsStart = length (dfa_actions dfa);
     let dfaActions = dfa_actions dfa @ ht_values actions;
     let actionsLength = length dfaActions - actionsStart;
     if actionsLength \<le> 65535 then
       Some (dfa\<lparr>dfa_actions := dfaActions,
                 dfa_nodes := dfa_nodes dfa @ [dfa_setActions actionsStart actionsLength newDFANode]\<rparr>)
     else None
   }"

text \<open>The entry that the iterator of an add result points to.\<close>

definition entryAt :: "'v HashTable \<Rightarrow> nat option \<Rightarrow> 'v option" where
  "entryAt table position =
     (case position of
        Some i \<Rightarrow> (case m_table table ! i of Live v \<Rightarrow> Some v | _ \<Rightarrow> None)
      | None \<Rightarrow> None)"

type_synonym UniqueNodeIdSetTable = "UniqueNodeIdSetImpl HashTable"

text \<open>\<^verbatim>\<open>uniqueNodeIdSetTable.add<NodeIdSetToUniqueNodeIdSetTranslator>\<close>: the translator runs when the
  set is new.\<close>

definition addUniqueSet :: "nat HashSet \<Rightarrow> NFA \<Rightarrow> DFA \<Rightarrow> UniqueNodeIdSetTable
     \<Rightarrow> (DFA \<times> UniqueNodeIdSetTable \<times> UniqueNodeIdSetImpl \<times> bool) option" where
  "addUniqueSet nodeIdSet nfa dfa table = do {
     (table, entry, isNewEntry) \<leftarrow> addPassingHashCode uniqueNodeIdSetTraits (set (ht_values nodeIdSet))
       (\<lambda>hash. newUniqueNodeIdSet nodeIdSet hash (length (dfa_nodes dfa))) table;
     dfa \<leftarrow> (if isNewEntry then translate nfa nodeIdSet dfa else Some dfa);
     impl \<leftarrow> entryAt table entry;
     Some (dfa, table, impl, isNewEntry)
   }"

definition getOrCreateDFANode :: "nat HashSet \<Rightarrow> NFA \<Rightarrow> DFA \<Rightarrow> UniqueNodeIdSetTable \<Rightarrow> UniqueNodeIdSetImpl list
     \<Rightarrow> (nat \<times> DFA \<times> UniqueNodeIdSetTable \<times> UniqueNodeIdSetImpl list) option" where
  "getOrCreateDFANode nfaNodeSet nfa dfa table unprocessedNodes = do {
     (dfa, table, impl, isNewEntry) \<leftarrow> addUniqueSet nfaNodeSet nfa dfa table;
     Some (m_dfaNodeId impl, dfa, table, if isNewEntry then unprocessedNodes @ [impl] else unprocessedNodes)
   }"

section \<open>Combining transitions\<close>

fun addWithClosure :: "nat list list \<Rightarrow> nat list \<Rightarrow> nat HashSet \<Rightarrow> nat HashSet option" where
  "addWithClosure closures [] result = Some result"
| "addWithClosure closures (nodeId # ids) result = do {
     (result, _) \<leftarrow> hs_add idSetTraits nodeId result;
     (result, _) \<leftarrow> hs_addAll idSetTraits (closureOf closures nodeId) result;
     addWithClosure closures ids result
   }"

fun extendWithClosure :: "nat list list \<Rightarrow> nat list \<Rightarrow> nat HashSet \<Rightarrow> nat HashSet option" where
  "extendWithClosure closures [] destination = Some destination"
| "extendWithClosure closures (nodeId # ids) destination = do {
     (destination, isNewEntry) \<leftarrow> hs_add idSetTraits nodeId destination;
     destination \<leftarrow> (if isNewEntry
       then do { (destination, _) \<leftarrow> hs_addAll idSetTraits (closureOf closures nodeId) destination; Some destination }
       else Some destination);
     extendWithClosure closures ids destination
   }"

text \<open>The set operations always return on well-formed tables, so their values are taken here.\<close>

definition closureConverter :: "nat list list \<Rightarrow> (nat HashSet, nat list) DataConverter" where
  "closureConverter closures =
     \<lparr>dc_convert = (\<lambda>iterable. the (addWithClosure closures iterable ht_empty)),
      dc_extend = (\<lambda>destination iterable. the (extendWithClosure closures iterable destination)),
      dc_copy = (\<lambda>s. the (ht_copy idSetTraits s))\<rparr>"

fun combineTransitions :: "NFA \<Rightarrow> nat list list \<Rightarrow> nat list \<Rightarrow> nat HashSet MutableRangeList
     \<Rightarrow> nat HashSet MutableRangeList option" where
  "combineTransitions nfa closures [] combinedRangeList = Some combinedRangeList"
| "combineTransitions nfa closures (nodeId # ids) combinedRangeList = do {
     combinedRangeList \<leftarrow> mrl_extend (closureConverter closures) combinedRangeList (transitionsForNode nfa nodeId);
     combineTransitions nfa closures ids combinedRangeList
   }"

definition createCombinedTransition :: "UniqueNodeIdSetImpl \<Rightarrow> NFA \<Rightarrow> nat list list
     \<Rightarrow> nat HashSet MutableRangeList option" where
  "createCombinedTransition sourceNodeSet nfa closures = combineTransitions nfa closures (m_buffer sourceNodeSet) []"

section \<open>The conversion\<close>

fun addDFATransitions :: "nat HashSet rangeSeq \<Rightarrow> NFA \<Rightarrow> DFA \<Rightarrow> UniqueNodeIdSetTable \<Rightarrow> UniqueNodeIdSetImpl list
     \<Rightarrow> (DFA \<times> UniqueNodeIdSetTable \<times> UniqueNodeIdSetImpl list) option" where
  "addDFATransitions [] nfa dfa table unprocessedNodes = Some (dfa, table, unprocessedNodes)"
| "addDFATransitions ((f, l, data) # ranges) nfa dfa table unprocessedNodes = do {
     (targetNodeId, dfa, table, unprocessedNodes) \<leftarrow> getOrCreateDFANode data nfa dfa table unprocessedNodes;
     addDFATransitions ranges nfa
       (dfa\<lparr>transitionRanges := transitionRanges dfa @ [\<lparr>cr_first = f, cr_last = l\<rparr>],
            transitionDestinations := transitionDestinations dfa @ [targetNodeId]\<rparr>)
       table unprocessedNodes
   }"

partial_function (option) convert_loop ::
  "NFA \<Rightarrow> nat list list \<Rightarrow> DFA \<Rightarrow> UniqueNodeIdSetTable \<Rightarrow> UniqueNodeIdSetImpl list \<Rightarrow> DFA option" where
  "convert_loop nfa closures dfa table unprocessedNodes = do {
     combinedRangeList \<leftarrow> createCombinedTransition (last unprocessedNodes) nfa closures;
     (dfa', table, unprocessed) \<leftarrow>
       addDFATransitions (mrl_elements combinedRangeList) nfa dfa table (butlast unprocessedNodes);
     let dfaNodeId = m_dfaNodeId (last unprocessedNodes);
     let transitionsStart = length (transitionRanges dfa);
     let transitionsLength = length (transitionRanges dfa') - transitionsStart;
     let dfa' = dfa'\<lparr>dfa_nodes := (dfa_nodes dfa')[dfaNodeId :=
           dfa_setTransitions transitionsStart (transitionsLength mod 2 ^ 8) (dfa_nodes dfa' ! dfaNodeId)]\<rparr>;
     if unprocessed = [] then Some dfa' else convert_loop nfa closures dfa' table unprocessed
   }"

declare convert_loop.simps [code]

definition convert :: "NFA \<Rightarrow> (DFA \<times> NFA) option" where
  "convert nfa = do {
     (nfa, closures) \<leftarrow> resolveEpsilonClosures nfa;
     root \<leftarrow> nfa_root nfa;
     initialSet \<leftarrow> hs_initializer idSetTraits [root];
     initialSet \<leftarrow> extendSetWithClosure closures root initialSet;
     (dfa, table, impl, _) \<leftarrow> addUniqueSet initialSet nfa newDFA ht_empty;
     dfa \<leftarrow> convert_loop nfa closures dfa table [impl];
     Some (dfa, nfa)
   }"

section \<open>Closures are reachability\<close>

definition eps :: "NFA \<Rightarrow> (nat \<times> nat) set" where
  "eps nfa = {(i, j). i < length (nodes nfa) \<and> j \<in> set (epsilonTargetsForNode nfa i)}"

definition eclosure :: "NFA \<Rightarrow> nat set \<Rightarrow> nat set" where
  "eclosure nfa S = (eps nfa)\<^sup>* `` S"

lemma eclosure_simps:
  "eclosure nfa {} = {}" "eclosure nfa (S \<union> T) = eclosure nfa S \<union> eclosure nfa T" "S \<subseteq> eclosure nfa S"
  "eclosure nfa (eclosure nfa S) = eclosure nfa S" "S \<subseteq> T \<Longrightarrow> eclosure nfa S \<subseteq> eclosure nfa T"
  by (auto simp: eclosure_def intro: rtrancl_trans)

lemma eclosure_least: "S \<subseteq> T \<Longrightarrow> eps nfa `` T \<subseteq> T \<Longrightarrow> eclosure nfa S \<subseteq> T"
proof
  fix j assume ST: "S \<subseteq> T" "eps nfa `` T \<subseteq> T" and "j \<in> eclosure nfa S"
  then obtain i where "i \<in> S" "(i, j) \<in> (eps nfa)\<^sup>*" by (auto simp: eclosure_def)
  from this(2) show "j \<in> T" by induction (use ST \<open>i \<in> S\<close> in auto)
qed

lemma eclosure_closed: "eps nfa `` S \<subseteq> S \<Longrightarrow> eclosure nfa S = S"
  using eclosure_least [of S S nfa] eclosure_simps(3) [of S nfa] by blast

lemma eclosure_image: "eps nfa `` eclosure nfa S \<subseteq> eclosure nfa S"
  by (auto simp: eclosure_def intro: rtrancl_into_rtrancl)

lemma addTargets_ok:
  assumes "ht_wf idSetTraits closure"
  shows "\<exists>closure' added. addTargets ts closure u out = Some (closure', u @ added, out @ added) \<and>
    ht_wf idSetTraits closure' \<and> set (ht_values closure') = set (ht_values closure) \<union> set ts \<and>
    set added = set ts - set (ht_values closure) \<and> distinct added"
  using assms
proof (induction ts arbitrary: closure u out)
  case (Cons t ts)
  obtain c where c: "hs_add idSetTraits t closure = Some (c, t \<notin> set (ht_values closure))" "ht_wf idSetTraits c"
    "set (ht_values c) = insert t (set (ht_values closure))" using ids.insert_one [OF Cons.prems] by blast
  show ?case
  proof (cases "t \<in> set (ht_values closure)")
    case True
    from Cons.IH [OF c(2), of u out] obtain c' added where
      "addTargets ts c u out = Some (c', u @ added, out @ added)" "ht_wf idSetTraits c'"
      "set (ht_values c') = set (ht_values c) \<union> set ts" "set added = set ts - set (ht_values c)" "distinct added"
      by blast
    with True c show ?thesis by auto
  next
    case False
    from Cons.IH [OF c(2), of "u @ [t]" "out @ [t]"] obtain c' added where
      "addTargets ts c (u @ [t]) (out @ [t]) = Some (c', (u @ [t]) @ added, (out @ [t]) @ added)" "ht_wf idSetTraits c'"
      "set (ht_values c') = set (ht_values c) \<union> set ts" "set added = set ts - set (ht_values c)" "distinct added"
      by blast
    with False c show ?thesis
      by (intro exI [of _ c'] exI [of _ "t # added"]) auto
  qed
qed simp

text \<open>The loop: every node in the closure is reachable, and the targets of every node in it that
  is not waiting are in it. The nodes not yet in the closure and those waiting become fewer.\<close>

definition closure_inv :: "NFA \<Rightarrow> nat \<Rightarrow> nat HashSet \<Rightarrow> nat list \<Rightarrow> nat list \<Rightarrow> bool" where
  "closure_inv nfa i closure unprocessed out \<longleftrightarrow>
     ht_wf idSetTraits closure \<and> set (ht_values closure) = insert i (set out) \<and> i \<notin> set out \<and> distinct out \<and>
     set unprocessed \<subseteq> set (ht_values closure) \<and> set (ht_values closure) \<subseteq> eclosure nfa {i} \<and>
     set (ht_values closure) \<subseteq> {..<length (nodes nfa)} \<and>
     eps nfa `` (set (ht_values closure) - set unprocessed) \<subseteq> set (ht_values closure)"

lemma closure_loop_ok:
  assumes "\<forall>(i, j) \<in> eps nfa. j < length (nodes nfa)"
    and "closure_inv nfa i closure unprocessed out" "unprocessed \<noteq> []"
  shows "\<exists>out'. closure_loop nfa closure unprocessed out = Some out' \<and> distinct out' \<and>
    set out' = eclosure nfa {i} - {i}"
  using assms(2,3)
proof (induction "length unprocessed + card ({..<length (nodes nfa)} - set (ht_values closure))"
    arbitrary: closure unprocessed out rule: less_induct)
  case less
  let ?C = "set (ht_values closure)" and ?n = "length (nodes nfa)"
  define t where "t = last unprocessed"
  define ts where "ts = epsilonTargetsForNode nfa t"
  have inv: "ht_wf idSetTraits closure" "?C = insert i (set out)" "i \<notin> set out" "distinct out"
    "set unprocessed \<subseteq> ?C" "?C \<subseteq> eclosure nfa {i}" "?C \<subseteq> {..<?n}" "eps nfa `` (?C - set unprocessed) \<subseteq> ?C"
    using less.prems(1) unfolding closure_inv_def by blast+
  have "t \<in> set unprocessed" using less.prems(2) by (simp add: t_def)
  then have t: "t \<in> ?C" "t < ?n" using inv(5,7) by auto
  obtain c added where add: "addTargets ts closure (butlast unprocessed) out = Some (c, butlast unprocessed @ added, out @ added)"
    and c: "ht_wf idSetTraits c" "set (ht_values c) = ?C \<union> set ts" "set added = set ts - ?C" "distinct added"
    using addTargets_ok [OF inv(1)] by blast
  have ts: "eps nfa `` {t} = set ts" using t(2) by (auto simp: eps_def ts_def)
  have un: "unprocessed = butlast unprocessed @ [t]" using less.prems(2) by (simp add: t_def)
  have mem: "set unprocessed = insert t (set (butlast unprocessed))"
    using arg_cong [OF un, of set] by simp
  have "closure_inv nfa i c (butlast unprocessed @ added) (out @ added)"
    unfolding closure_inv_def
  proof (intro conjI)
    show "set (ht_values c) \<subseteq> eclosure nfa {i}"
      unfolding c(2) using inv(6) t(1) ts eclosure_image [of nfa "{i}"] by blast
    show "set (ht_values c) \<subseteq> {..<?n}"
      unfolding c(2) using inv(7) ts assms(1) by blast
    show "eps nfa `` (set (ht_values c) - set (butlast unprocessed @ added)) \<subseteq> set (ht_values c)"
    proof
      fix y assume "y \<in> eps nfa `` (set (ht_values c) - set (butlast unprocessed @ added))"
      then obtain x where x: "(x, y) \<in> eps nfa" "x \<in> ?C" "x \<notin> set (butlast unprocessed)"
        using c(2,3) by auto
      show "y \<in> set (ht_values c)"
      proof (cases "x = t")
        case True
        with x ts c(2) show ?thesis by blast
      next
        case False
        with x mem have "x \<notin> set unprocessed" by simp
        with x inv(8) c(2) show ?thesis by blast
      qed
    qed
  qed (use inv(1-5) c mem in auto)
  moreover have "length (butlast unprocessed @ added) + card ({..<?n} - set (ht_values c))
      < length unprocessed + card ({..<?n} - ?C)"
  proof -
    have sub: "set added \<subseteq> {..<?n} - ?C" using c(3) ts assms(1) by blast
    have "{..<?n} - set (ht_values c) = ({..<?n} - ?C) - set added" using c(2,3) by blast
    then have "card ({..<?n} - set (ht_values c)) = card ({..<?n} - ?C) - length added"
      using card_Diff_subset [OF _ sub] c(4) by (simp add: distinct_card)
    moreover have "length added \<le> card ({..<?n} - ?C)"
      using card_mono [OF _ sub] c(4) by (simp add: distinct_card)
    ultimately show ?thesis using less.prems(2) by (cases unprocessed) auto
  qed
  ultimately have IH: "butlast unprocessed @ added \<noteq> [] \<Longrightarrow> \<exists>out'. closure_loop nfa c (butlast unprocessed @ added) (out @ added) = Some out' \<and>
    distinct out' \<and> set out' = eclosure nfa {i} - {i}" and fin: "closure_inv nfa i c (butlast unprocessed @ added) (out @ added)"
    using less.hyps by blast+
  have loop: "closure_loop nfa closure unprocessed out = (if butlast unprocessed @ added = [] then Some (out @ added)
      else closure_loop nfa c (butlast unprocessed @ added) (out @ added))"
    using add by (subst closure_loop.simps) (simp add: ts_def t_def)
  show ?case
  proof (cases "butlast unprocessed @ added = []")
    case True
    then have "eps nfa `` set (ht_values c) \<subseteq> set (ht_values c)" "set (ht_values c) \<subseteq> eclosure nfa {i}"
      "set (ht_values c) = insert i (set (out @ added))" "i \<notin> set (out @ added)" "distinct (out @ added)"
      using fin unfolding closure_inv_def True list.set Diff_empty by blast+
    moreover from this have "eclosure nfa {i} \<subseteq> set (ht_values c)" by (intro eclosure_least) auto
    ultimately have "set (out @ added) = eclosure nfa {i} - {i}" by auto
    with True loop \<open>distinct (out @ added)\<close> show ?thesis by simp
  next
    case False
    from IH [OF False] show ?thesis by (simp only: loop False if_False)
  qed
qed

definition closures_ok :: "NFA \<Rightarrow> nat list list \<Rightarrow> bool" where
  "closures_ok nfa closures \<longleftrightarrow> length closures = length (nodes nfa) \<and>
     (\<forall>i < length (nodes nfa). set (closures ! i) = eclosure nfa {i} - {i})"

lemma epsilonClosureExcludingSelf_ok:
  assumes bound: "\<forall>(i, j) \<in> eps nfa. j < length (nodes nfa)" and i: "i < length (nodes nfa)"
  shows "\<exists>out. epsilonClosureExcludingSelf nfa i = Some out \<and> distinct out \<and> set out = eclosure nfa {i} - {i}"
proof -
  obtain c where c: "hs_initializer idSetTraits [i] = Some c" "ht_wf idSetTraits c" "set (ht_values c) = {i}"
    using hs_initializer_ok [OF hs_traits_ok(1) hs_extract(1), of "[i]"] by auto
  have "closure_inv nfa i c [i] []"
    using c(2,3) i eclosure_simps(3) [of "{i}" nfa] by (simp add: closure_inv_def)
  from closure_loop_ok [OF bound this] c(1) show ?thesis by (simp add: epsilonClosureExcludingSelf_def)
qed

lemma those_map_ok: "\<forall>x \<in> set xs. \<exists>y. f x = Some y \<and> P x y \<Longrightarrow> \<exists>ys. those (map f xs) = Some ys \<and> list_all2 P xs ys"
  by (induction xs) auto

lemma resolveEpsilonClosures_ok:
  assumes "\<forall>(i, j) \<in> eps nfa. j < length (nodes nfa)"
  shows "\<exists>closures. resolveEpsilonClosures nfa = Some (nfa\<lparr>epsilonTransitionsTargets := []\<rparr>, closures) \<and>
    closures_ok nfa closures"
proof -
  have "\<forall>i \<in> set [0..<length (nodes nfa)]. \<exists>out. epsilonClosureExcludingSelf nfa i = Some out \<and>
      set out = eclosure nfa {i} - {i}"
    using epsilonClosureExcludingSelf_ok [OF assms] by fastforce
  from those_map_ok [OF this] obtain cs where
    "those (map (epsilonClosureExcludingSelf nfa) [0..<length (nodes nfa)]) = Some cs"
    "list_all2 (\<lambda>i out. set out = eclosure nfa {i} - {i}) [0..<length (nodes nfa)] cs" by blast
  then show ?thesis
    by (auto simp: resolveEpsilonClosures_def closures_ok_def list_all2_conv_all_nth)
qed

lemma closureOf_ok:
  assumes "closures_ok nfa closures"
  shows "insert i (set (closureOf closures i)) = eclosure nfa {i}"
proof (cases "i < length (nodes nfa)")
  case True
  then show ?thesis using assms eclosure_simps(3) [of "{i}" nfa] by (auto simp: closures_ok_def closureOf_def)
next
  case False
  then have "eps nfa `` {i} \<subseteq> {i}" by (auto simp: eps_def)
  with False assms show ?thesis by (simp add: eclosure_closed closureOf_def closures_ok_def)
qed

section \<open>The converter meets its contract\<close>

definition closed_set :: "NFA \<Rightarrow> nat HashSet \<Rightarrow> bool" where
  "closed_set nfa s \<longleftrightarrow> ht_wf idSetTraits s \<and> eclosure nfa (set (ht_values s)) = set (ht_values s)"

lemma add_closure_ok:
  assumes "closures_ok nfa closures" "closed_set nfa s"
  shows "\<exists>s1 s2 b. hs_add idSetTraits i s = Some (s1, i \<notin> set (ht_values s)) \<and>
    set (ht_values s1) = insert i (set (ht_values s)) \<and> ht_wf idSetTraits s1 \<and>
    hs_addAll idSetTraits (closureOf closures i) s1 = Some (s2, b) \<and>
    closed_set nfa s2 \<and> set (ht_values s2) = set (ht_values s) \<union> eclosure nfa {i}"
proof -
  have s: "ht_wf idSetTraits s" "eclosure nfa (set (ht_values s)) = set (ht_values s)"
    using assms(2) by (simp_all add: closed_set_def)
  obtain s1 where s1: "hs_add idSetTraits i s = Some (s1, i \<notin> set (ht_values s))" "ht_wf idSetTraits s1"
    "set (ht_values s1) = insert i (set (ht_values s))" using ids.insert_one [OF s(1)] by blast
  obtain s2 where s2: "hs_addAll idSetTraits (closureOf closures i) s1
      = Some (s2, \<not> set (closureOf closures i) \<subseteq> set (ht_values s1))" "ht_wf idSetTraits s2"
    "set (ht_values s2) = set (closureOf closures i) \<union> set (ht_values s1)"
    using hs_addAll_ok [OF hs_traits_ok(1) hs_extract(1) s1(2)] by blast
  have e: "set (ht_values s2) = set (ht_values s) \<union> eclosure nfa {i}"
    using closureOf_ok [OF assms(1), of i] s1(3) s2(3) by auto
  then have "closed_set nfa s2" using s s2(2) by (simp add: closed_set_def eclosure_simps)
  with s1 s2 e show ?thesis by blast
qed

lemma addWithClosure_ok:
  assumes "closures_ok nfa closures" "closed_set nfa s"
  shows "\<exists>s'. addWithClosure closures ids s = Some s' \<and> closed_set nfa s' \<and>
    set (ht_values s') = set (ht_values s) \<union> eclosure nfa (set ids)"
  using assms(2)
proof (induction ids arbitrary: s)
  case Nil
  then show ?case by (simp add: eclosure_simps)
next
  case (Cons i ids)
  obtain s1 s2 b where s2: "hs_add idSetTraits i s = Some (s1, i \<notin> set (ht_values s))"
    "hs_addAll idSetTraits (closureOf closures i) s1 = Some (s2, b)" "closed_set nfa s2"
    "set (ht_values s2) = set (ht_values s) \<union> eclosure nfa {i}" using add_closure_ok [OF assms(1) Cons.prems, of i] by blast
  from Cons.IH [OF s2(3)] obtain s' where s': "addWithClosure closures ids s2 = Some s'" "closed_set nfa s'"
    "set (ht_values s') = set (ht_values s2) \<union> eclosure nfa (set ids)" by blast
  have "eclosure nfa (set (i # ids)) = eclosure nfa {i} \<union> eclosure nfa (set ids)"
    using eclosure_simps(2) [of nfa "{i}" "set ids"] by simp
  with s2 s' show ?case by (auto simp: Un_assoc)
qed

lemma extendWithClosure_ok:
  assumes "closures_ok nfa closures" "closed_set nfa s"
  shows "\<exists>s'. extendWithClosure closures ids s = Some s' \<and> closed_set nfa s' \<and>
    set (ht_values s') = set (ht_values s) \<union> eclosure nfa (set ids)"
  using assms(2)
proof (induction ids arbitrary: s)
  case Nil
  then show ?case by (simp add: eclosure_simps)
next
  case (Cons i ids)
  obtain s1 s2 b where s2: "hs_add idSetTraits i s = Some (s1, i \<notin> set (ht_values s))"
    "set (ht_values s1) = insert i (set (ht_values s))" "ht_wf idSetTraits s1"
    "hs_addAll idSetTraits (closureOf closures i) s1 = Some (s2, b)" "closed_set nfa s2"
    "set (ht_values s2) = set (ht_values s) \<union> eclosure nfa {i}" using add_closure_ok [OF assms(1) Cons.prems, of i] by blast
  define s3 where "s3 = (if i \<notin> set (ht_values s) then s2 else s1)"
  have inside: "eclosure nfa {i} \<subseteq> set (ht_values s)" if "i \<in> set (ht_values s)"
    using eclosure_simps(5) [of "{i}" "set (ht_values s)" nfa] that Cons.prems by (auto simp: closed_set_def)
  have s3: "closed_set nfa s3" "set (ht_values s3) = set (ht_values s) \<union> eclosure nfa {i}"
  proof -
    show "set (ht_values s3) = set (ht_values s) \<union> eclosure nfa {i}"
      using s2 inside by (auto simp: s3_def)
    show "closed_set nfa s3"
      using s2 Cons.prems by (auto simp: s3_def closed_set_def insert_absorb)
  qed
  from Cons.IH [OF s3(1)] obtain s' where s': "extendWithClosure closures ids s3 = Some s'" "closed_set nfa s'"
    "set (ht_values s') = set (ht_values s3) \<union> eclosure nfa (set ids)" by blast
  have "eclosure nfa (set (i # ids)) = eclosure nfa {i} \<union> eclosure nfa (set ids)"
    using eclosure_simps(2) [of nfa "{i}" "set ids"] by simp
  moreover have "extendWithClosure closures (i # ids) s = extendWithClosure closures ids s3"
    using s2(1,4) by (simp add: s3_def)
  ultimately show ?case using s' s3(2) by (auto simp: Un_assoc)
qed

lemma closureConverter_contract:
  assumes "closures_ok nfa closures"
  shows "range_data (closureConverter closures) (closed_set nfa) (\<lambda>s. set (ht_values s))
    (\<lambda>ids. eclosure nfa (set ids)) (\<lambda>S ids. S \<union> eclosure nfa (set ids))"
proof (unfold_locales, goal_cases)
  case (1 ids)
  obtain s where "addWithClosure closures ids ht_empty = Some s" "closed_set nfa s"
    using addWithClosure_ok [OF assms, of ht_empty ids] by (auto simp: closed_set_def ht_wf_empty eclosure_simps)
  then show ?case by (simp add: closureConverter_def)
next
  case (2 ids)
  obtain s where "addWithClosure closures ids ht_empty = Some s" "set (ht_values s) = eclosure nfa (set ids)"
    using addWithClosure_ok [OF assms, of ht_empty ids] by (auto simp: closed_set_def ht_wf_empty eclosure_simps)
  then show ?case by (simp add: closureConverter_def)
next
  case (3 d ids)
  from extendWithClosure_ok [OF assms this, of ids] obtain s where "extendWithClosure closures ids d = Some s"
    "closed_set nfa s" "set (ht_values s) = set (ht_values d) \<union> eclosure nfa (set ids)" by blast
  then show ?case by (simp add: closureConverter_def)
next
  case (4 d ids)
  from extendWithClosure_ok [OF assms this, of ids] obtain s where "extendWithClosure closures ids d = Some s"
    "closed_set nfa s" "set (ht_values s) = set (ht_values d) \<union> eclosure nfa (set ids)" by blast
  then show ?case by (simp add: closureConverter_def)
next
  case (5 d)
  then obtain s where "ht_copy idSetTraits d = Some s" "ht_wf idSetTraits s" "set (ht_values s) = set (ht_values d)"
    using hs_copy_ok [OF hs_traits_ok(1), of d] by (auto simp: closed_set_def)
  with 5 show ?case by (simp add: closureConverter_def closed_set_def)
next
  case (6 d)
  then obtain s where "ht_copy idSetTraits d = Some s" "set (ht_values s) = set (ht_values d)"
    using hs_copy_ok [OF hs_traits_ok(1), of d] by (auto simp: closed_set_def)
  then show ?case by (simp add: closureConverter_def)
qed

section \<open>Paths and sets of nodes\<close>

definition delta :: "NFA \<Rightarrow> nat set \<Rightarrow> charval \<Rightarrow> nat set" where
  "delta nfa S c = eclosure nfa {j. \<exists>i \<in> S. (i, Some c, j) \<in> nfa_edges nfa}"

fun deltas :: "NFA \<Rightarrow> nat set \<Rightarrow> input \<Rightarrow> nat set" where
  "deltas nfa S [] = S"
| "deltas nfa S (c # w) = deltas nfa (delta nfa S c) w"

lemma eps_edge: "(i, None, j) \<in> nfa_edges nfa \<longleftrightarrow> (i, j) \<in> eps nfa"
  by (auto simp: nfa_edges_def node_edges_def range_edges_def eps_def)

lemma eps_path: "(i, j) \<in> (eps nfa)\<^sup>* \<Longrightarrow> path (nfa_edges nfa) j w k \<Longrightarrow> path (nfa_edges nfa) i w k"
  by (induction rule: converse_rtrancl_induct) (auto intro: path_eps simp: eps_edge)

lemma deltas_empty: "deltas nfa {} w = {}"
  by (induction w) (simp_all add: delta_def eclosure_simps)

lemma path_deltas: "path (nfa_edges nfa) i w k \<Longrightarrow> i \<in> S \<Longrightarrow> eclosure nfa S = S \<Longrightarrow> k \<in> deltas nfa S w"
proof (induction arbitrary: S rule: path.induct)
  case (path_eps i j w k)
  then have "j \<in> eclosure nfa S" using eclosure_image [of nfa S] by (auto simp: eps_edge)
  with path_eps show ?case by simp
next
  case (path_char i c j w k)
  have "j \<in> delta nfa S c"
    using path_char eclosure_simps(3) [of "{j. \<exists>i \<in> S. (i, Some c, j) \<in> nfa_edges nfa}" nfa] by (auto simp: delta_def)
  with path_char show ?case by (simp add: delta_def eclosure_simps)
qed simp

lemma deltas_path: "k \<in> deltas nfa S w \<Longrightarrow> \<exists>i \<in> S. path (nfa_edges nfa) i w k"
proof (induction w arbitrary: S)
  case Nil
  then show ?case by (auto intro: path_Nil)
next
  case (Cons c w)
  then obtain j where j: "j \<in> delta nfa S c" "path (nfa_edges nfa) j w k" by auto
  then obtain i j' where "i \<in> S" "(i, Some c, j') \<in> nfa_edges nfa" "(j', j) \<in> (eps nfa)\<^sup>*"
    by (auto simp: delta_def eclosure_def)
  with j show ?case by (auto intro: path_char eps_path)
qed

lemma deltas_correct: "deltas nfa (eclosure nfa {i}) w = {k. path (nfa_edges nfa) i w k}"
proof (intro set_eqI iffI)
  fix k assume "k \<in> deltas nfa (eclosure nfa {i}) w"
  then obtain j where "(i, j) \<in> (eps nfa)\<^sup>*" "path (nfa_edges nfa) j w k"
    using deltas_path by (force simp: eclosure_def)
  then show "k \<in> {k. path (nfa_edges nfa) i w k}" by (auto intro: eps_path)
next
  fix k assume "k \<in> {k. path (nfa_edges nfa) i w k}"
  then show "k \<in> deltas nfa (eclosure nfa {i}) w"
    using path_deltas [of nfa i w k "eclosure nfa {i}"] eclosure_simps(3,4) by auto
qed

lemma eclosure_bounded: "nfa_closed nfa \<Longrightarrow> S \<subseteq> {..<length (nodes nfa)} \<Longrightarrow> eclosure nfa S \<subseteq> {..<length (nodes nfa)}"
  by (rule eclosure_least) (auto simp: nfa_closed_def eps_edge [symmetric])

lemma delta_bounded: "nfa_closed nfa \<Longrightarrow> delta nfa S c \<subseteq> {..<length (nodes nfa)}"
  unfolding delta_def by (rule eclosure_bounded) (auto simp: nfa_closed_def)

section \<open>The combined transitions\<close>

lemma cleared_nfa [simp]:
  "transitionsForNode (nfa\<lparr>epsilonTransitionsTargets := ts\<rparr>) = transitionsForNode nfa"
  "actionsForNode (nfa\<lparr>epsilonTransitionsTargets := ts\<rparr>) = actionsForNode nfa"
  by (simp_all add: fun_eq_iff transitionsForNode_def actionsForNode_def)

definition targets_at :: "NFA \<Rightarrow> nat \<Rightarrow> charval \<Rightarrow> nat set" where
  "targets_at nfa i c = (case range_at (transitionsForNode nfa i) c of None \<Rightarrow> {} | Some js \<Rightarrow> eclosure nfa (set js))"

definition combined_at :: "nat HashSet MutableRangeList \<Rightarrow> charval \<Rightarrow> nat set option" where
  "combined_at R c = map_option (\<lambda>s. set (ht_values s)) (range_at (mrl_elements R) c)"

definition combined_wf :: "NFA \<Rightarrow> nat HashSet MutableRangeList \<Rightarrow> bool" where
  "combined_wf nfa R \<longleftrightarrow> mrl_wf R \<and> sorted_ranges 0 127 (mrl_elements R) \<and> good_ranges (closed_set nfa) (mrl_elements R)"

lemma combineTransitions_ok:
  assumes "nfa_wf nfa" "closures_ok nfa closures" "combined_wf nfa R" "set ids \<subseteq> {..<length (nodes nfa)}"
  shows "\<exists>R'. combineTransitions nfa closures ids R = Some R' \<and> combined_wf nfa R' \<and>
    (\<forall>c. case combined_at R' c of
           None \<Rightarrow> combined_at R c = None \<and> (\<forall>i \<in> set ids. targets_at nfa i c = {})
         | Some S \<Rightarrow> S = (case combined_at R c of None \<Rightarrow> {} | Some S0 \<Rightarrow> S0) \<union> (\<Union>i \<in> set ids. targets_at nfa i c))"
  using assms(3,4)
proof (induction ids arbitrary: R)
  case Nil
  then show ?case by (auto split: option.splits)
next
  case (Cons i ids)
  have "sorted_ranges 0 127 (transitionsForNode nfa i)" using assms(1) Cons.prems(2) by (simp add: nfa_wf_def)
  moreover have "mrl_wf R" "sorted_ranges 0 127 (mrl_elements R)" "good_ranges (closed_set nfa) (mrl_elements R)"
    using Cons.prems(1) by (simp_all add: combined_wf_def)
  ultimately obtain R1 where R1: "mrl_extend (closureConverter closures) R (transitionsForNode nfa i) = Some R1"
    "mrl_wf R1" "sorted_ranges 0 127 (mrl_elements R1)" "good_ranges (closed_set nfa) (mrl_elements R1)"
    and at: "\<And>c. combined_at R1 c = merge_at (\<lambda>ids. eclosure nfa (set ids)) (\<lambda>S ids. S \<union> eclosure nfa (set ids))
      (combined_at R c) (range_at (transitionsForNode nfa i) c)"
    unfolding combined_at_def using range_data.extend_meaning [OF closureConverter_contract [OF assms(2)]] by blast
  have step: "combined_at R1 c = (if combined_at R c = None \<and> range_at (transitionsForNode nfa i) c = None then None
      else Some ((case combined_at R c of None \<Rightarrow> {} | Some S0 \<Rightarrow> S0) \<union> targets_at nfa i c))" for c
    unfolding at by (auto simp: targets_at_def split: option.splits)
  have "combined_wf nfa R1" using R1 by (simp add: combined_wf_def)
  from Cons.IH [OF this] Cons.prems(2) obtain R' where R': "combineTransitions nfa closures ids R1 = Some R'" "combined_wf nfa R'"
    and IH: "\<And>c. case combined_at R' c of
           None \<Rightarrow> combined_at R1 c = None \<and> (\<forall>i \<in> set ids. targets_at nfa i c = {})
         | Some S \<Rightarrow> S = (case combined_at R1 c of None \<Rightarrow> {} | Some S0 \<Rightarrow> S0) \<union> (\<Union>i \<in> set ids. targets_at nfa i c)"
    by auto
  have "case combined_at R' c of
           None \<Rightarrow> combined_at R c = None \<and> (\<forall>i \<in> set (i # ids). targets_at nfa i c = {})
         | Some S \<Rightarrow> S = (case combined_at R c of None \<Rightarrow> {} | Some S0 \<Rightarrow> S0) \<union> (\<Union>i \<in> set (i # ids). targets_at nfa i c)" for c
  proof (cases "combined_at R c = None \<and> range_at (transitionsForNode nfa i) c = None")
    case True
    with IH [of c] step [of c] show ?thesis by (auto simp: targets_at_def split: option.splits)
  next
    case False
    with IH [of c] step [of c] show ?thesis by (auto split: option.splits)
  qed
  with R1(1) R' show ?case by simp
qed

lemma delta_targets:
  assumes "nfa_wf nfa" "S \<subseteq> {..<length (nodes nfa)}"
  shows "delta nfa S c = (\<Union>i \<in> S. targets_at nfa i c)"
proof -
  have edge: "(i, Some c, j) \<in> nfa_edges nfa \<longleftrightarrow> (\<exists>js. range_at (transitionsForNode nfa i) c = Some js \<and> j \<in> set js)"
    if "i \<in> S" for i j
  proof -
    have i: "i < length (nodes nfa)" using assms(2) that by auto
    then have s: "sorted_ranges 0 127 (transitionsForNode nfa i)" using assms(1) by (simp add: nfa_wf_def)
    have "(i, Some c, j) \<in> nfa_edges nfa \<longleftrightarrow> (i, Some c, j) \<in> range_edges i (transitionsForNode nfa i)"
      using i by (auto simp: nfa_edges_def node_edges_def range_edges_def)
    then show ?thesis by (simp add: range_edges_at [OF s])
  qed
  have "{j. \<exists>i \<in> S. (i, Some c, j) \<in> nfa_edges nfa}
      = (\<Union>i \<in> S. case range_at (transitionsForNode nfa i) c of None \<Rightarrow> {} | Some js \<Rightarrow> set js)"
    using edge by (fastforce split: option.splits)
  moreover have "eclosure nfa (\<Union>i \<in> S. A i) = (\<Union>i \<in> S. eclosure nfa (A i))" for A
    by (auto simp: eclosure_def)
  moreover have "targets_at nfa i c
      = eclosure nfa (case range_at (transitionsForNode nfa i) c of None \<Rightarrow> {} | Some js \<Rightarrow> set js)" for i
    by (simp add: targets_at_def eclosure_simps split: option.split)
  ultimately show ?thesis by (simp only: delta_def)
qed

lemma createCombinedTransition_ok:
  assumes "nfa_wf nfa" "closures_ok nfa closures" "set (m_buffer impl) \<subseteq> {..<length (nodes nfa)}"
  shows "\<exists>R. createCombinedTransition impl nfa closures = Some R \<and> combined_wf nfa R \<and>
    (\<forall>c. case combined_at R c of None \<Rightarrow> delta nfa (set (m_buffer impl)) c = {}
       | Some S \<Rightarrow> S = delta nfa (set (m_buffer impl)) c)"
proof -
  have "combined_wf nfa []" by (simp add: combined_wf_def mrl_wf_def mrl_elements_def)
  from combineTransitions_ok [OF assms(1,2) this assms(3)] obtain R where
    R: "combineTransitions nfa closures (m_buffer impl) [] = Some R" "combined_wf nfa R"
    "\<And>c. case combined_at R c of
           None \<Rightarrow> combined_at [] c = None \<and> (\<forall>i \<in> set (m_buffer impl). targets_at nfa i c = {})
         | Some S \<Rightarrow> S = (case combined_at [] c of None \<Rightarrow> {} | Some S0 \<Rightarrow> S0) \<union> (\<Union>i \<in> set (m_buffer impl). targets_at nfa i c)"
    by blast
  have "combined_at [] c = None" for c by (simp add: combined_at_def mrl_elements_def)
  then have "case combined_at R c of None \<Rightarrow> delta nfa (set (m_buffer impl)) c = {}
       | Some S \<Rightarrow> S = delta nfa (set (m_buffer impl)) c" for c
    using R(3) [of c] by (simp add: delta_targets [OF assms(1,3)] split: option.splits)
  with R(1,2) show ?thesis by (auto simp: createCombinedTransition_def)
qed

section \<open>The table of sets\<close>

lemma uniqueNodeIdSetTraits_ok: "traits_ok uniqueNodeIdSetTraits"
  by (auto simp: traits_ok_def uniqueNodeIdSetTraits_def pow2_def intro: exI [of _ 7])

lemma nodeIdSet_hash_set:
  assumes "ht_wf idSetTraits s"
  shows "nodeIdSet_hash s = ht_hash uniqueNodeIdSetTraits (set (ht_values s))"
proof -
  have "distinct (ht_values s)" using assms by (rule ids.elems_distinct)
  moreover have "foldl (\<lambda>hash nodeId. hash + of_nat nodeId) h xs = h + (\<Sum>nodeId\<leftarrow>xs. of_nat nodeId)" for h :: uint32 and xs
    by (induction xs arbitrary: h) (simp_all add: add.assoc)
  ultimately show ?thesis
    by (simp add: nodeIdSet_hash_def uniqueNodeIdSetTraits_def sum_list_distinct_conv_sum_set)
qed

lemma uniqueNodeIdSet_equal_set:
  assumes "ht_wf idSetTraits s" "ht_wf idSetTraits other"
  shows "uniqueNodeIdSet_equal (newUniqueNodeIdSet s h i) other = Some (set (ht_values s) = set (ht_values other))"
proof -
  have "m_keyCount s = length (ht_values s)" using assms(1) by (simp add: ht_wf_def)
  then have "uniqueNodeIdSet_equal (newUniqueNodeIdSet s h i) other = hs_equal idSetTraits s other"
    by (simp add: uniqueNodeIdSet_equal_def newUniqueNodeIdSet_def hs_equal_def)
  then show ?thesis by (simp add: hs_equal_ok [OF hs_extract(1) assms])
qed

definition set_actions :: "NFA \<Rightarrow> nat set \<Rightarrow> uint64 set" where
  "set_actions nfa S = (\<Union>i \<in> S. set (actionsForNode nfa i))"

lemma collectActions_ok:
  assumes "ht_wf actionSetTraits s"
  shows "\<exists>s'. collectActions nfa ids s = Some s' \<and> ht_wf actionSetTraits s' \<and>
    set (ht_values s') = set (ht_values s) \<union> set_actions nfa (set ids)"
  using assms
proof (induction ids arbitrary: s)
  case (Cons i ids)
  obtain s1 b where s1: "hs_addAll actionSetTraits (actionsForNode nfa i) s = Some (s1, b)" "ht_wf actionSetTraits s1"
    "set (ht_values s1) = set (actionsForNode nfa i) \<union> set (ht_values s)"
    using hs_addAll_ok [OF hs_traits_ok(2) hs_extract(2) Cons.prems] by blast
  from Cons.IH [OF s1(2)] obtain s' where "collectActions nfa ids s1 = Some s'" "ht_wf actionSetTraits s'"
    "set (ht_values s') = set (ht_values s1) \<union> set_actions nfa (set ids)" by blast
  with s1 show ?case by (auto simp: set_actions_def)
qed (simp add: set_actions_def)

lemma set_actions_bound: "set_actions nfa S \<subseteq> set (nfa_actions nfa)"
  using set_slice by (fastforce simp: set_actions_def actionsForNode_def Let_def)

lemma translate_ok:
  assumes "card (set (nfa_actions nfa)) \<le> 65535"
  shows "\<exists>as. translate nfa s dfa = Some (dfa\<lparr>dfa_actions := dfa_actions dfa @ as,
      dfa_nodes := dfa_nodes dfa @ [dfa_setActions (length (dfa_actions dfa)) (length as) newDFANode]\<rparr>) \<and>
    length as \<le> 65535 \<and> set as = set_actions nfa (set (ht_values s))"
proof -
  obtain a where a: "collectActions nfa (ht_values s) ht_empty = Some a" "ht_wf actionSetTraits a"
    "set (ht_values a) = set_actions nfa (set (ht_values s))"
    using collectActions_ok [OF ht_wf_empty(1), of nfa "ht_values s"] by (auto simp: ht_wf_empty(2))
  have "length (ht_values a) = card (set (ht_values a))" using acts.elems_distinct [OF a(2)] by (simp add: distinct_card)
  also have "\<dots> \<le> card (set (nfa_actions nfa))" unfolding a(3) by (intro card_mono set_actions_bound) simp
  finally have "length (ht_values a) \<le> 65535" using assms by simp
  with a show ?thesis by (intro exI [of _ "ht_values a"]) (simp add: translate_def)
qed

section \<open>Growing the automaton\<close>

definition dfa_extends :: "DFA \<Rightarrow> DFA \<Rightarrow> bool" where
  "dfa_extends dfa dfa' \<longleftrightarrow> (\<exists>ns. dfa_nodes dfa' = dfa_nodes dfa @ ns) \<and> (\<exists>as. dfa_actions dfa' = dfa_actions dfa @ as) \<and>
     (\<exists>rs. transitionRanges dfa' = transitionRanges dfa @ rs) \<and>
     (\<exists>ds. transitionDestinations dfa' = transitionDestinations dfa @ ds)"

lemma dfa_extends_refl: "dfa_extends dfa dfa"
  by (simp add: dfa_extends_def)

lemma dfa_extends_trans: "dfa_extends a b \<Longrightarrow> dfa_extends b c \<Longrightarrow> dfa_extends a c"
  by (auto simp: dfa_extends_def)

lemma dfa_extends_node:
  assumes "dfa_extends dfa dfa'"
  shows "i < length (dfa_nodes dfa) \<Longrightarrow> dfa_nodes dfa' ! i = dfa_nodes dfa ! i"
    "m_actionsStart node + m_actionsLength node \<le> length (dfa_actions dfa) \<Longrightarrow>
       dfa_nodeActions dfa' node = dfa_nodeActions dfa node"
    "m_transitionsStart node + m_transitionsLength node \<le> length (transitionRanges dfa) \<Longrightarrow>
       length (transitionDestinations dfa) = length (transitionRanges dfa) \<Longrightarrow>
       dfa_transitions dfa' node = dfa_transitions dfa node"
  using assms by (auto simp: dfa_extends_def dfa_nodeActions_def dfa_transitions_def nth_append)

definition subset_node :: "NFA \<Rightarrow> nat set \<Rightarrow> DFA \<Rightarrow> DFANode \<Rightarrow> bool" where
  "subset_node nfa S dfa node \<longleftrightarrow> \<not> m_isKilled node \<and> m_actionsLength node < 2 ^ 16 \<and>
     m_actionsStart node + m_actionsLength node \<le> length (dfa_actions dfa) \<and>
     set (dfa_nodeActions dfa node) = set_actions nfa S"

definition impl_ok :: "nat set list \<Rightarrow> UniqueNodeIdSetImpl \<Rightarrow> bool" where
  "impl_ok sets impl \<longleftrightarrow> m_dfaNodeId impl < length sets \<and> set (m_buffer impl) = sets ! m_dfaNodeId impl"

text \<open>The node \<open>i\<close> of the automaton stands for the set \<open>sets ! i\<close>, and the table holds these sets.\<close>

definition subset_inv :: "NFA \<Rightarrow> nat set list \<Rightarrow> DFA \<Rightarrow> UniqueNodeIdSetTable \<Rightarrow> bool" where
  "subset_inv nfa sets dfa table \<longleftrightarrow>
     ht_wf uniqueNodeIdSetTraits table \<and> length sets = length (dfa_nodes dfa) \<and>
     (\<forall>impl \<in> set (ht_values table). impl_ok sets impl) \<and> ht_keys uniqueNodeIdSetTraits table = set sets \<and>
     distinct sets \<and> (\<forall>S \<in> set sets. S \<subseteq> {..<length (nodes nfa)}) \<and>
     length (transitionDestinations dfa) = length (transitionRanges dfa) \<and> dfa_root dfa = 0 \<and>
     (\<forall>i < length sets. subset_node nfa (sets ! i) dfa (dfa_nodes dfa ! i))"

lemma impl_ok_append: "impl_ok sets impl \<Longrightarrow> impl_ok (sets @ new) impl"
  by (auto simp: impl_ok_def nth_append)

lemma subset_node_extends: "subset_node nfa S dfa node \<Longrightarrow> dfa_extends dfa dfa' \<Longrightarrow> subset_node nfa S dfa' node"
  using dfa_extends_node(2) [of dfa dfa' node] by (auto simp: subset_node_def dfa_extends_def)

lemma unique_extract: "ht_extract uniqueNodeIdSetTraits impl = set (m_buffer impl)"
  by (simp add: uniqueNodeIdSetTraits_def)

lemma new_subset_node:
  assumes "length as \<le> 65535" "set as = set_actions nfa S"
  shows "subset_node nfa S (dfa\<lparr>dfa_actions := dfa_actions dfa @ as, dfa_nodes := ns\<rparr>)
    (dfa_setActions (length (dfa_actions dfa)) (length as) newDFANode)"
proof -
  have "map ((!) (dfa_actions dfa @ as)) [length (dfa_actions dfa)..<length (dfa_actions dfa) + length as] = as"
    by (intro nth_equalityI) auto
  with assms show ?thesis
    by (simp add: subset_node_def dfa_setActions_def newDFANode_def dfa_nodeActions_def)
qed

lemma addUniqueSet_ok:
  assumes inv: "subset_inv nfa sets dfa table" and few: "card (set (nfa_actions nfa)) \<le> 65535"
    and s: "set (ht_values s) \<subseteq> {..<length (nodes nfa)}" (is "?S \<subseteq> _")
  shows "\<exists>dfa' table' impl. addUniqueSet s nfa dfa table = Some (dfa', table', impl, ?S \<notin> set sets) \<and>
    subset_inv nfa (if ?S \<in> set sets then sets else sets @ [?S]) dfa' table' \<and> dfa_extends dfa dfa' \<and>
    impl_ok (if ?S \<in> set sets then sets else sets @ [?S]) impl \<and> set (m_buffer impl) = ?S \<and>
    transitionRanges dfa' = transitionRanges dfa \<and> transitionDestinations dfa' = transitionDestinations dfa"
proof -
  have i: "ht_wf uniqueNodeIdSetTraits table" "length sets = length (dfa_nodes dfa)"
     "\<forall>impl \<in> set (ht_values table). impl_ok sets impl" "ht_keys uniqueNodeIdSetTraits table = set sets"
     "distinct sets" "\<forall>S \<in> set sets. S \<subseteq> {..<length (nodes nfa)}"
     "length (transitionDestinations dfa) = length (transitionRanges dfa)" "dfa_root dfa = 0"
     "\<forall>i < length sets. subset_node nfa (sets ! i) dfa (dfa_nodes dfa ! i)"
    using inv unfolding subset_inv_def by blast+
  define v where "v = newUniqueNodeIdSet s (ht_hash uniqueNodeIdSetTraits ?S) (length (dfa_nodes dfa))"
  have v: "ht_extract uniqueNodeIdSetTraits v = ?S" by (simp add: unique_extract v_def newUniqueNodeIdSet_def)
  obtain t e where t: "ht_add uniqueNodeIdSetTraits ?S v table = Some (t, e, ?S \<notin> set sets)" "ht_wf uniqueNodeIdSetTraits t"
    "mset (ht_values t) = (if ?S \<in> set sets then mset (ht_values table) else add_mset v (mset (ht_values table)))"
    using ht_add_ok [OF uniqueNodeIdSetTraits_ok i(1) v] i(4) by auto
  have vals: "set (ht_values t) = (if ?S \<in> set sets then set (ht_values table) else insert v (set (ht_values table)))"
    using arg_cong [OF t(3), of set_mset] by (auto split: if_splits)
  obtain p impl where p: "e = Some p" "live_at t p impl" "ht_extract uniqueNodeIdSetTraits impl = ?S"
    using ht_add_entry [OF uniqueNodeIdSetTraits_ok i(1) v t(1)] by blast
  have entry: "entryAt t e = Some impl" using p by (simp add: entryAt_def live_at_def)
  have mem: "impl \<in> set (ht_values t)"
    using p(2) by (auto simp: live_at_def ht_values_def set_table_values simp del: set_concat)
  have buffer: "set (m_buffer impl) = ?S" using p(3) by (simp add: unique_extract)
  show ?thesis
  proof (cases "?S \<in> set sets")
    case True
    have "ht_keys uniqueNodeIdSetTraits t = set sets" using vals True i(4) by (simp add: ht_keys_def)
    then have "subset_inv nfa sets dfa t"
      unfolding subset_inv_def using i t(2) vals True by simp
    moreover have "addUniqueSet s nfa dfa table = Some (dfa, t, impl, False)"
      using t(1) True entry by (simp add: addUniqueSet_def addPassingHashCode_eq v_def)
    ultimately show ?thesis using True buffer dfa_extends_refl mem vals i(3) by auto
  next
    case False
    obtain as where as: "translate nfa s dfa = Some (dfa\<lparr>dfa_actions := dfa_actions dfa @ as,
      dfa_nodes := dfa_nodes dfa @ [dfa_setActions (length (dfa_actions dfa)) (length as) newDFANode]\<rparr>)"
      (is "_ = Some ?dfa") "length as \<le> 65535" "set as = set_actions nfa ?S"
      using translate_ok [OF few] by blast
    have ext: "dfa_extends dfa ?dfa" by (auto simp: dfa_extends_def)
    have "impl_ok (sets @ [?S]) v" by (simp add: impl_ok_def v_def newUniqueNodeIdSet_def i(2) [symmetric])
    then have impls: "impl_ok (sets @ [?S]) w" if "w \<in> set (ht_values t)" for w
      using that vals False i(3) impl_ok_append [of sets w "[?S]"] by auto
    have "subset_node nfa ((sets @ [?S]) ! k) ?dfa (dfa_nodes ?dfa ! k)" if "k < length (sets @ [?S])" for k
    proof (cases "k < length sets")
      case True
      with i(2,9) subset_node_extends [OF _ ext] show ?thesis by (simp add: nth_append)
    next
      case False
      with that have "k = length sets" by simp
      with new_subset_node [OF as(2,3)] i(2) show ?thesis by (simp add: nth_append)
    qed
    moreover have "ht_keys uniqueNodeIdSetTraits t = set (sets @ [?S])"
      using vals False i(4) v by (simp add: ht_keys_def)
    ultimately have "subset_inv nfa (sets @ [?S]) ?dfa t"
      unfolding subset_inv_def using i t(2) impls False s by auto
    moreover have "addUniqueSet s nfa dfa table = Some (?dfa, t, impl, True)"
      using t(1) False entry as(1) by (simp add: addUniqueSet_def addPassingHashCode_eq v_def)
    ultimately show ?thesis using False buffer ext impls [OF mem] by auto
  qed
qed

section \<open>Adding the transitions of a node\<close>

lemma subset_inv_ranges:
  assumes "subset_inv nfa sets dfa table"
  shows "subset_inv nfa sets (dfa\<lparr>transitionRanges := transitionRanges dfa @ [r],
    transitionDestinations := transitionDestinations dfa @ [t]\<rparr>) table" (is "subset_inv nfa sets ?dfa table")
proof -
  have "dfa_extends dfa ?dfa" by (simp add: dfa_extends_def)
  from subset_node_extends [OF _ this] assms show ?thesis by (simp add: subset_inv_def)
qed

definition targets_ok :: "nat set list \<Rightarrow> nat HashSet rangeSeq \<Rightarrow> nat list \<Rightarrow> bool" where
  "targets_ok sets ranges ts \<longleftrightarrow>
     list_all2 (\<lambda>(f, l, s) t. t < length sets \<and> sets ! t = set (ht_values s)) ranges ts"

lemma targets_ok_append: "targets_ok sets ranges ts \<Longrightarrow> targets_ok (sets @ new) ranges ts"
  unfolding targets_ok_def by (erule list_all2_mono) (auto simp: nth_append)

lemma addDFATransitions_ok:
  assumes "subset_inv nfa sets dfa table" and few: "card (set (nfa_actions nfa)) \<le> 65535"
    and "\<forall>(f, l, s) \<in> set ranges. set (ht_values s) \<subseteq> {..<length (nodes nfa)}"
  shows "\<exists>dfa' table' q ts new. addDFATransitions ranges nfa dfa table queue = Some (dfa', table', queue @ q) \<and>
    subset_inv nfa (sets @ new) dfa' table' \<and> dfa_extends dfa dfa' \<and> length q = length new \<and>
    (\<forall>impl \<in> set q. impl_ok (sets @ new) impl) \<and>
    {length sets..<length (sets @ new)} \<subseteq> m_dfaNodeId ` set q \<and>
    transitionRanges dfa' = transitionRanges dfa @ map (\<lambda>(f, l, s). \<lparr>cr_first = f, cr_last = l\<rparr>) ranges \<and>
    transitionDestinations dfa' = transitionDestinations dfa @ ts \<and> targets_ok (sets @ new) ranges ts"
  using assms(1,3)
proof (induction ranges arbitrary: dfa table queue sets)
  case Nil
  then show ?case by (auto simp: dfa_extends_refl targets_ok_def intro!: exI [of _ "[]"])
next
  case (Cons r ranges)
  obtain f l s where r: "r = (f, l, s)" by (cases r) auto
  let ?S = "set (ht_values s)"
  define sets1 where "sets1 = (if ?S \<in> set sets then sets else sets @ [?S])"
  have "?S \<subseteq> {..<length (nodes nfa)}" using Cons.prems(2) by (simp add: r)
  from addUniqueSet_ok [OF Cons.prems(1) few this] obtain dfa1 table1 impl where
    u: "addUniqueSet s nfa dfa table = Some (dfa1, table1, impl, ?S \<notin> set sets)"
    and inv1: "subset_inv nfa sets1 dfa1 table1" and ext1: "dfa_extends dfa dfa1"
    and impl: "impl_ok sets1 impl" "set (m_buffer impl) = ?S"
    and same: "transitionRanges dfa1 = transitionRanges dfa" "transitionDestinations dfa1 = transitionDestinations dfa"
    unfolding sets1_def by blast
  define queue1 where "queue1 = (if ?S \<in> set sets then [] else [impl])"
  define new1 where "new1 = (if ?S \<in> set sets then [] else [?S])"
  have sets1: "sets1 = sets @ new1" by (simp add: sets1_def new1_def)
  let ?dfa2 = "dfa1\<lparr>transitionRanges := transitionRanges dfa1 @ [\<lparr>cr_first = f, cr_last = l\<rparr>],
    transitionDestinations := transitionDestinations dfa1 @ [m_dfaNodeId impl]\<rparr>"
  have go: "addDFATransitions (r # ranges) nfa dfa table queue = addDFATransitions ranges nfa ?dfa2 table1 (queue @ queue1)"
    using u by (simp add: r getOrCreateDFANode_def queue1_def)
  from Cons.IH [OF subset_inv_ranges [OF inv1, where r = "\<lparr>cr_first = f, cr_last = l\<rparr>" and t = "m_dfaNodeId impl"], of "queue @ queue1"]
    Cons.prems(2) obtain dfa' table' q ts new where
    IH: "addDFATransitions ranges nfa ?dfa2 table1 (queue @ queue1) = Some (dfa', table', (queue @ queue1) @ q)"
    "subset_inv nfa (sets1 @ new) dfa' table'" "dfa_extends ?dfa2 dfa'" "length q = length new"
    "\<forall>impl \<in> set q. impl_ok (sets1 @ new) impl"
    "{length sets1..<length (sets1 @ new)} \<subseteq> m_dfaNodeId ` set q"
    "transitionRanges dfa' = transitionRanges ?dfa2 @ map (\<lambda>(f, l, s). \<lparr>cr_first = f, cr_last = l\<rparr>) ranges"
    "transitionDestinations dfa' = transitionDestinations ?dfa2 @ ts" "targets_ok (sets1 @ new) ranges ts"
    by auto
  have "dfa_extends dfa1 ?dfa2" by (simp add: dfa_extends_def)
  with ext1 IH(3) have ext: "dfa_extends dfa dfa'" by (meson dfa_extends_trans)
  have fresh: "{length sets..<length sets1} \<subseteq> m_dfaNodeId ` set queue1"
  proof (cases "?S \<in> set sets")
    case False
    have "distinct sets1" using inv1 by (simp add: subset_inv_def)
    moreover have "sets1 ! length sets = ?S" "length sets < length sets1" using False by (simp_all add: sets1_def)
    ultimately have "m_dfaNodeId impl = length sets"
      using impl by (simp add: impl_ok_def distinct_conv_nth) metis
    with False show ?thesis by (simp add: sets1_def queue1_def atLeastLessThanSuc)
  qed (simp add: sets1_def)
  have "\<forall>impl \<in> set (queue1 @ q). impl_ok (sets1 @ new) impl"
    using IH(5) impl_ok_append [OF impl(1)] by (auto simp: queue1_def)
  moreover have "{length sets..<length (sets1 @ new)} \<subseteq> m_dfaNodeId ` set (queue1 @ q)"
  proof
    fix k assume "k \<in> {length sets..<length (sets1 @ new)}"
    then show "k \<in> m_dfaNodeId ` set (queue1 @ q)"
      using subsetD [OF fresh, of k] subsetD [OF IH(6), of k] by (cases "k < length sets1") (auto simp: image_Un)
  qed
  moreover have "targets_ok (sets1 @ new) (r # ranges) (m_dfaNodeId impl # ts)"
    using IH(9) impl impl_ok_append [OF impl(1), of new] by (simp add: targets_ok_def r impl_ok_def)
  moreover have "length (queue1 @ q) = length (new1 @ new)" using IH(4) by (simp add: queue1_def new1_def)
  ultimately show ?case
    using go IH(1,2,7,8) ext same
    by (intro exI [of _ dfa'] exI [of _ table'] exI [of _ "queue1 @ q"] exI [of _ "m_dfaNodeId impl # ts"] exI [of _ "new1 @ new"])
      (simp add: sets1 r)
qed

section \<open>The loop of the conversion\<close>

definition node_done :: "NFA \<Rightarrow> nat set list \<Rightarrow> DFA \<Rightarrow> nat \<Rightarrow> bool" where
  "node_done nfa sets dfa i \<longleftrightarrow>
     (let node = dfa_nodes dfa ! i; ts = dfa_transitions dfa node
      in m_transitionsStart node + m_transitionsLength node \<le> length (transitionRanges dfa) \<and>
         m_transitionsLength node < 2 ^ 8 \<and> sorted_ranges 0 127 ts \<and> (\<forall>(f, l, t) \<in> set ts. t < length sets) \<and>
         (\<forall>c. case range_at ts c of None \<Rightarrow> delta nfa (sets ! i) c = {} | Some j \<Rightarrow> sets ! j = delta nfa (sets ! i) c))"

lemma node_done_extends:
  assumes "node_done nfa sets dfa i" "dfa_extends dfa dfa'" "i < length sets" "length sets = length (dfa_nodes dfa)"
    "length (transitionDestinations dfa) = length (transitionRanges dfa)"
  shows "node_done nfa (sets @ new) dfa' i"
proof -
  let ?node = "dfa_nodes dfa ! i" and ?ts = "dfa_transitions dfa (dfa_nodes dfa ! i)"
  have d: "m_transitionsStart ?node + m_transitionsLength ?node \<le> length (transitionRanges dfa)"
     "m_transitionsLength ?node < 2 ^ 8" "sorted_ranges 0 127 ?ts" "\<forall>(f, l, t) \<in> set ?ts. t < length sets"
     "\<And>c. case range_at ?ts c of None \<Rightarrow> delta nfa (sets ! i) c = {} | Some j \<Rightarrow> sets ! j = delta nfa (sets ! i) c"
    using assms(1) unfolding node_done_def Let_def by blast+
  have node: "dfa_nodes dfa' ! i = ?node" using dfa_extends_node(1) [OF assms(2)] assms(3,4) by simp
  have ts: "dfa_transitions dfa' ?node = ?ts" by (rule dfa_extends_node(3) [OF assms(2) d(1) assms(5)])
  have target: "j < length sets" if "range_at ?ts c = Some j" for c j
    using that d(4) range_at_in [OF d(3), of c j] by auto
  have "case range_at ?ts c of None \<Rightarrow> delta nfa ((sets @ new) ! i) c = {} | Some j \<Rightarrow> (sets @ new) ! j = delta nfa ((sets @ new) ! i) c" for c
    using d(5) [of c] target [of c] assms(3) by (auto simp: nth_append split: option.splits)
  moreover have "length (transitionRanges dfa) \<le> length (transitionRanges dfa')"
    using assms(2) by (auto simp: dfa_extends_def)
  ultimately show ?thesis
    unfolding node_done_def Let_def node ts using d(1-4) by (auto simp: less_le_trans)
qed

lemma sorted_ranges_length: "sorted_ranges m hi xs \<Longrightarrow> m \<le> hi + 1 \<Longrightarrow> int (length xs) \<le> hi + 1 - m"
proof (induction m hi xs rule: sorted_ranges.induct)
  case (2 m hi f l d xs)
  then show ?case by fastforce
qed simp

lemma targets_ok_ranges:
  assumes "targets_ok sets ranges ts"
  shows "sorted_ranges m hi (map2 (\<lambda>(f, l, s) t. (f, l, t)) ranges ts) = sorted_ranges m hi ranges"
    "case range_at ranges c of None \<Rightarrow> range_at (map2 (\<lambda>(f, l, s) t. (f, l, t)) ranges ts) c = None
     | Some s \<Rightarrow> \<exists>t. range_at (map2 (\<lambda>(f, l, s) t. (f, l, t)) ranges ts) c = Some t \<and> t < length sets \<and> sets ! t = set (ht_values s)"
    "\<forall>(f, l, t) \<in> set (map2 (\<lambda>(f, l, s) t. (f, l, t)) ranges ts). t < length sets"
  using assms unfolding targets_ok_def
  by (induction arbitrary: m rule: list_all2_induct) (auto split: option.splits if_splits)

lemma cleared_conversion:
  fixes nfa :: NFA and ts :: "nat list"
  defines "nfa' \<equiv> nfa\<lparr>epsilonTransitionsTargets := ts\<rparr>"
  shows "createCombinedTransition impl nfa' closures = createCombinedTransition impl nfa closures"
    "addUniqueSet s nfa' dfa table = addUniqueSet s nfa dfa table"
    "addDFATransitions ranges nfa' dfa table queue = addDFATransitions ranges nfa dfa table queue"
proof -
  have "combineTransitions nfa' closures is = combineTransitions nfa closures is" for "is"
    by (induction "is") (rule ext, simp add: nfa'_def)+
  then show "createCombinedTransition impl nfa' closures = createCombinedTransition impl nfa closures"
    by (simp add: createCombinedTransition_def)
  have "collectActions nfa' is a = collectActions nfa is a" for "is" a
    by (induction "is" arbitrary: a) (simp_all add: nfa'_def)
  then have t: "translate nfa' = translate nfa" by (intro ext) (simp add: translate_def)
  have u: "addUniqueSet s nfa' dfa table = addUniqueSet s nfa dfa table" for s dfa table
    unfolding addUniqueSet_def t by (rule refl)
  show "addUniqueSet s nfa' dfa table = addUniqueSet s nfa dfa table" by (rule u)
  have "addDFATransitions ranges nfa' = addDFATransitions ranges nfa"
  proof (induction ranges)
    case (Cons r ranges)
    obtain f l s where r: "r = (f, l, s)" by (cases r) auto
    show ?case unfolding r by (intro ext) (unfold addDFATransitions.simps getOrCreateDFANode_def u Cons.IH, rule refl)
  qed (intro ext, simp)
  then show "addDFATransitions ranges nfa' dfa table queue = addDFATransitions ranges nfa dfa table queue" by simp
qed

definition convert_inv :: "NFA \<Rightarrow> nat set list \<Rightarrow> DFA \<Rightarrow> UniqueNodeIdSetTable \<Rightarrow> UniqueNodeIdSetImpl list \<Rightarrow> bool" where
  "convert_inv nfa sets dfa table queue \<longleftrightarrow> subset_inv nfa sets dfa table \<and> (\<forall>impl \<in> set queue. impl_ok sets impl) \<and>
     (\<forall>i < length sets. i \<in> m_dfaNodeId ` set queue \<or> node_done nfa sets dfa i)"

lemma subset_inv_length: "subset_inv nfa sets dfa table \<Longrightarrow> length sets \<le> 2 ^ length (nodes nfa)"
proof -
  assume inv: "subset_inv nfa sets dfa table"
  then have "set sets \<subseteq> Pow {..<length (nodes nfa)}" "distinct sets" by (auto simp: subset_inv_def)
  then have "length sets \<le> card (Pow {..<length (nodes nfa)})"
    using card_mono [of "Pow {..<length (nodes nfa)}" "set sets"] by (simp add: distinct_card)
  then show ?thesis by (simp add: card_Pow)
qed

lemma dfa_transitions_new:
  assumes "transitionRanges dfa = R @ map (\<lambda>(f, l, s). \<lparr>cr_first = f, cr_last = l\<rparr>) ranges"
    "transitionDestinations dfa = D @ ts" "length D = length R" "length ts = length ranges"
    "m_transitionsStart node = length R" "m_transitionsLength node = length ranges"
  shows "dfa_transitions dfa node = map2 (\<lambda>(f, l, s) t. (f, l, t)) ranges ts"
proof (rule nth_equalityI)
  fix k assume "k < length (dfa_transitions dfa node)"
  then have "k < length ranges" using assms(6) by (simp add: dfa_transitions_def)
  with assms show "dfa_transitions dfa node ! k = map2 (\<lambda>(f, l, s) t. (f, l, t)) ranges ts ! k"
    by (simp add: dfa_transitions_def nth_append split: prod.split)
qed (use assms in \<open>simp add: dfa_transitions_def\<close>)

text \<open>One round of the loop: the transitions of the last set of the queue are added to its node.\<close>

lemma convert_step:
  assumes nfa: "nfa_wf nfa" "nfa_closed nfa" "closures_ok nfa closures" and few: "card (set (nfa_actions nfa)) \<le> 65535"
    and inv: "convert_inv nfa sets dfa table (queue @ [impl])"
  shows "\<exists>R dfa1 table' q new dfa'. createCombinedTransition impl nfa closures = Some R \<and>
    addDFATransitions (mrl_elements R) nfa dfa table queue = Some (dfa1, table', queue @ q) \<and>
    dfa' = dfa1\<lparr>dfa_nodes := (dfa_nodes dfa1)[m_dfaNodeId impl := dfa_setTransitions (length (transitionRanges dfa))
      ((length (transitionRanges dfa1) - length (transitionRanges dfa)) mod 2 ^ 8) (dfa_nodes dfa1 ! m_dfaNodeId impl)]\<rparr> \<and>
    length q = length new \<and> convert_inv nfa (sets @ new) dfa' table' (queue @ q)"
proof -
  have i: "subset_inv nfa sets dfa table" "impl_ok sets impl" "\<forall>impl \<in> set queue. impl_ok sets impl"
    "\<forall>i < length sets. i \<in> insert (m_dfaNodeId impl) (m_dfaNodeId ` set queue) \<or> node_done nfa sets dfa i"
    using inv by (simp_all add: convert_inv_def)
  let ?id = "m_dfaNodeId impl"
  have id: "?id < length sets" "set (m_buffer impl) = sets ! ?id" using i(2) by (simp_all add: impl_ok_def)
  have "sets ! ?id \<subseteq> {..<length (nodes nfa)}" using i(1) id(1) by (auto simp: subset_inv_def)
  with createCombinedTransition_ok [OF nfa(1,3), of impl, unfolded id(2)] obtain R where
    R: "createCombinedTransition impl nfa closures = Some R" "combined_wf nfa R"
    "\<And>c. case combined_at R c of None \<Rightarrow> delta nfa (sets ! ?id) c = {} | Some S \<Rightarrow> S = delta nfa (sets ! ?id) c"
    by blast
  let ?ranges = "mrl_elements R"
  have sorted: "sorted_ranges 0 127 ?ranges" using R(2) by (simp add: combined_wf_def)
  have len: "length ?ranges < 2 ^ 8" using sorted_ranges_length [OF sorted] by simp
  have "set (ht_values s) \<subseteq> {..<length (nodes nfa)}" if "(f, l, s) \<in> set ?ranges" for f l s
  proof -
    have "f \<le> l" using sorted_ranges_ordered [OF sorted] that by auto
    with that have "range_at ?ranges f = Some s" by (auto simp: range_at_in [OF sorted])
    with R(3) [of f] have "set (ht_values s) = delta nfa (sets ! ?id) f" by (simp add: combined_at_def)
    with delta_bounded [OF nfa(2)] show ?thesis by simp
  qed
  then have "\<forall>(f, l, s) \<in> set ?ranges. set (ht_values s) \<subseteq> {..<length (nodes nfa)}" by auto
  from addDFATransitions_ok [OF i(1) few this, of queue] obtain dfa1 table' q ts new where
    a: "addDFATransitions ?ranges nfa dfa table queue = Some (dfa1, table', queue @ q)"
    and inv1: "subset_inv nfa (sets @ new) dfa1 table'" and ext: "dfa_extends dfa dfa1" and q: "length q = length new"
      "\<forall>impl \<in> set q. impl_ok (sets @ new) impl" "{length sets..<length (sets @ new)} \<subseteq> m_dfaNodeId ` set q"
    and tr: "transitionRanges dfa1 = transitionRanges dfa @ map (\<lambda>(f, l, s). \<lparr>cr_first = f, cr_last = l\<rparr>) ?ranges"
      "transitionDestinations dfa1 = transitionDestinations dfa @ ts" and ts: "targets_ok (sets @ new) ?ranges ts"
    by blast
  define node where "node = dfa_setTransitions (length (transitionRanges dfa))
      ((length (transitionRanges dfa1) - length (transitionRanges dfa)) mod 2 ^ 8) (dfa_nodes dfa1 ! ?id)"
  define dfa' where "dfa' = dfa1\<lparr>dfa_nodes := (dfa_nodes dfa1)[?id := node]\<rparr>"
  have nodes: "m_transitionsStart node = length (transitionRanges dfa)" "m_transitionsLength node = length ?ranges"
    using len by (simp_all add: node_def dfa_setTransitions_def tr)
  have lens: "length (transitionDestinations dfa) = length (transitionRanges dfa)" "length sets = length (dfa_nodes dfa)"
    using i(1) by (simp_all add: subset_inv_def)
  have "length ts = length ?ranges" using ts by (simp add: targets_ok_def list_all2_lengthD)
  then have trans: "dfa_transitions dfa' node = map2 (\<lambda>(f, l, s) t. (f, l, t)) ?ranges ts"
    using nodes lens(1) by (intro dfa_transitions_new [where R = "transitionRanges dfa" and D = "transitionDestinations dfa"])
      (simp_all add: dfa'_def tr)
  have idn: "?id < length (dfa_nodes dfa1)" using inv1 id(1) by (simp add: subset_inv_def)
  have "case range_at (dfa_transitions dfa' node) c of None \<Rightarrow> delta nfa ((sets @ new) ! ?id) c = {}
      | Some j \<Rightarrow> (sets @ new) ! j = delta nfa ((sets @ new) ! ?id) c" for c
    using R(3) [of c] targets_ok_ranges(2) [OF ts, of c] id(1)
    by (auto simp: trans combined_at_def nth_append split: option.splits)
  then have fin: "node_done nfa (sets @ new) dfa' ?id"
    unfolding node_done_def Let_def using idn targets_ok_ranges [OF ts] sorted len nodes
    by (simp add: trans [unfolded dfa'_def] dfa'_def tr)
  have node_ok: "subset_node nfa S dfa' n" if "subset_node nfa S dfa1 n" for S n
    using that by (simp add: subset_node_def dfa'_def dfa_nodeActions_def)
  have sub: "subset_node nfa S dfa' node" if "subset_node nfa S dfa1 (dfa_nodes dfa1 ! ?id)" for S
    using that by (simp add: subset_node_def dfa'_def dfa_nodeActions_def node_def dfa_setTransitions_def)
  have inv': "subset_inv nfa (sets @ new) dfa' table'"
  proof -
    have "subset_node nfa ((sets @ new) ! k) dfa' (dfa_nodes dfa' ! k)" if "k < length (sets @ new)" for k
    proof -
      have "subset_node nfa ((sets @ new) ! k) dfa1 (dfa_nodes dfa1 ! k)" using inv1 that unfolding subset_inv_def by blast
      then show ?thesis using node_ok sub idn by (cases "k = ?id") (auto simp: dfa'_def)
    qed
    with inv1 show ?thesis by (simp add: subset_inv_def dfa'_def)
  qed
  have rest: "k \<in> m_dfaNodeId ` set (queue @ q) \<or> node_done nfa (sets @ new) dfa' k" if k: "k < length (sets @ new)" for k
  proof (cases "k < length sets \<and> k \<notin> m_dfaNodeId ` set queue \<and> k \<noteq> ?id")
    case True
    with i(4) have "node_done nfa sets dfa k" by auto
    from node_done_extends [OF this ext _ lens(2,1), of new] True have "node_done nfa (sets @ new) dfa1 k" by simp
    with True show ?thesis by (simp add: node_done_def dfa'_def dfa_transitions_def Let_def)
  next
    case False
    with k subsetD [OF q(3), of k] fin show ?thesis by (auto simp: not_less)
  qed
  have "\<forall>impl \<in> set (queue @ q). impl_ok (sets @ new) impl" using q(2) i(3) impl_ok_append by auto
  with inv' rest have "convert_inv nfa (sets @ new) dfa' table' (queue @ q)" by (simp only: convert_inv_def) blast
  with R(1) a q(1) dfa'_def [unfolded node_def] show ?thesis by blast
qed

lemma convert_loop_ok:
  assumes nfa: "nfa_wf nfa" "nfa_closed nfa" "closures_ok nfa closures" and few: "card (set (nfa_actions nfa)) \<le> 65535"
    and "convert_inv nfa sets dfa table queue" "queue \<noteq> []"
  shows "\<exists>dfa' table' new. convert_loop (nfa\<lparr>epsilonTransitionsTargets := ts\<rparr>) closures dfa table queue = Some dfa' \<and>
    convert_inv nfa (sets @ new) dfa' table' []"
  using assms(5,6)
proof (induction "2 ^ length (nodes nfa) - length sets + length queue" arbitrary: sets dfa table queue rule: less_induct)
  case less
  define impl where "impl = last queue"
  have queue: "queue = butlast queue @ [impl]" using less.prems(2) by (simp add: impl_def)
  with less.prems(1) have "convert_inv nfa sets dfa table (butlast queue @ [impl])" by simp
  from convert_step [OF nfa few this] obtain R dfa1 table' q new dfa' where
    s: "createCombinedTransition impl nfa closures = Some R"
    "addDFATransitions (mrl_elements R) nfa dfa table (butlast queue) = Some (dfa1, table', butlast queue @ q)"
    "dfa' = dfa1\<lparr>dfa_nodes := (dfa_nodes dfa1)[m_dfaNodeId impl := dfa_setTransitions (length (transitionRanges dfa))
      ((length (transitionRanges dfa1) - length (transitionRanges dfa)) mod 2 ^ 8) (dfa_nodes dfa1 ! m_dfaNodeId impl)]\<rparr>"
    "length q = length new" "convert_inv nfa (sets @ new) dfa' table' (butlast queue @ q)" by blast
  have loop: "convert_loop (nfa\<lparr>epsilonTransitionsTargets := ts\<rparr>) closures dfa table queue =
      (if butlast queue @ q = [] then Some dfa'
       else convert_loop (nfa\<lparr>epsilonTransitionsTargets := ts\<rparr>) closures dfa' table' (butlast queue @ q))"
    by (subst convert_loop.simps)
      (simp only: cleared_conversion s(1,2) impl_def [symmetric] Option.bind.bind_lunit prod.case Let_def s(3) [symmetric])
  show ?case
  proof (cases "butlast queue @ q = []")
    case True
    with s(5) loop show ?thesis by auto
  next
    case False
    have "length (sets @ new) \<le> 2 ^ length (nodes nfa)"
      using s(5) subset_inv_length unfolding convert_inv_def by blast
    moreover have "length queue = Suc (length (butlast queue))" using less.prems(2) by (cases queue) auto
    ultimately have "2 ^ length (nodes nfa) - length (sets @ new) + length (butlast queue @ q)
        < 2 ^ length (nodes nfa) - length sets + length queue" using s(4) by simp
    from less.hyps [OF this s(5) False] obtain dfa2 table2 new2 where
      "convert_loop (nfa\<lparr>epsilonTransitionsTargets := ts\<rparr>) closures dfa' table' (butlast queue @ q) = Some dfa2"
      "convert_inv nfa ((sets @ new) @ new2) dfa2 table2 []" by blast
    moreover from loop have "convert_loop (nfa\<lparr>epsilonTransitionsTargets := ts\<rparr>) closures dfa table queue =
      convert_loop (nfa\<lparr>epsilonTransitionsTargets := ts\<rparr>) closures dfa' table' (butlast queue @ q)"
      by (simp only: False if_False)
    ultimately show ?thesis by (intro exI [of _ dfa2] exI [of _ table2] exI [of _ "new @ new2"]) simp
  qed
qed

section \<open>The automata agree\<close>

lemma convert_inv_run:
  assumes "convert_inv nfa sets dfa table []" "i < length sets"
  shows "case dfa_run dfa i w of None \<Rightarrow> deltas nfa (sets ! i) w = {}
    | Some j \<Rightarrow> j < length sets \<and> sets ! j = deltas nfa (sets ! i) w"
  using assms(2)
proof (induction w arbitrary: i)
  case (Cons c w)
  let ?ts = "dfa_transitions dfa (dfa_nodes dfa ! i)"
  have d: "sorted_ranges 0 127 ?ts" "\<forall>(f, l, t) \<in> set ?ts. t < length sets"
    "case range_at ?ts c of None \<Rightarrow> delta nfa (sets ! i) c = {} | Some j \<Rightarrow> sets ! j = delta nfa (sets ! i) c"
    using assms(1) Cons.prems by (auto simp: convert_inv_def node_done_def Let_def)
  show ?case
  proof (cases "range_at ?ts c")
    case None
    with d(3) show ?thesis by (simp add: dfa_step_def deltas_empty)
  next
    case (Some j)
    with d have "j < length sets" using range_at_in [OF d(1), of c j] by auto
    with Cons.IH [of j] Some d(3) show ?thesis by (simp add: dfa_step_def split: option.splits)
  qed
qed simp

lemma convert_inv_wf:
  assumes "convert_inv nfa sets dfa table []" "sets \<noteq> []"
  shows "dfa_wf dfa"
proof -
  have i: "length sets = length (dfa_nodes dfa)" "length (transitionDestinations dfa) = length (transitionRanges dfa)"
    "dfa_root dfa = 0" "\<And>i. i < length sets \<Longrightarrow> subset_node nfa (sets ! i) dfa (dfa_nodes dfa ! i)"
    "\<And>i. i < length sets \<Longrightarrow> node_done nfa sets dfa i"
    using assms(1) by (simp_all add: convert_inv_def subset_inv_def)
  have "node_wf_dfa dfa (dfa_nodes dfa ! k)" if "k < length sets" for k
  proof -
    have "\<forall>(f, l, t) \<in> set (dfa_transitions dfa (dfa_nodes dfa ! k)). t < length (dfa_nodes dfa) \<and> \<not> m_isKilled (dfa_nodes dfa ! t)"
      using i(5) [OF that] i(4) i(1) by (fastforce simp: node_done_def Let_def subset_node_def)
    with i(4,5) [OF that] show ?thesis by (simp add: node_wf_dfa_def node_done_def Let_def subset_node_def)
  qed
  moreover have "\<not> m_isKilled (dfa_nodes dfa ! 0)" using i(4) [of 0] assms(2) by (simp add: subset_node_def)
  ultimately show ?thesis
    using i assms(2) by (auto simp: dfa_wf_def in_set_conv_nth)
qed

lemma convert_inv_facts:
  assumes "convert_inv nfa sets dfa table []" "j < length sets"
  shows "sets ! j \<subseteq> {..<length (nodes nfa)}" "set (dfa_nodeActions dfa (dfa_nodes dfa ! j)) = set_actions nfa (sets ! j)"
  using assms nth_mem [OF assms(2)] unfolding convert_inv_def subset_inv_def subset_node_def by blast+

text \<open>
  C2: the subset construction ends on every well-formed automaton whose distinct actions can be
  counted in 16 bits, with a well-formed deterministic automaton that triggers the same actions
  on every word; the epsilon transitions of the source are cleared.
\<close>

theorem convert_correct:
  assumes "nfa_wf nfa" "nfa_closed nfa" "card (set (nfa_actions nfa)) \<le> 65535"
  shows "\<exists>dfa. convert nfa = Some (dfa, nfa\<lparr>epsilonTransitionsTargets := []\<rparr>) \<and> dfa_wf dfa \<and>
    (\<forall>w. dfa_accepts dfa w = nfa_accepts nfa w)"
proof -
  let ?n = "length (nodes nfa)"
  have n: "0 < ?n" using assms(2) by (auto simp: nfa_closed_def)
  have "\<forall>(i, j) \<in> eps nfa. j < ?n" using assms(2) by (auto simp: nfa_closed_def eps_edge [symmetric])
  then obtain closures where c: "resolveEpsilonClosures nfa = Some (nfa\<lparr>epsilonTransitionsTargets := []\<rparr>, closures)"
    "closures_ok nfa closures" using resolveEpsilonClosures_ok by blast
  obtain s0 where s0: "hs_initializer idSetTraits [0] = Some s0" "ht_wf idSetTraits s0" "set (ht_values s0) = {0}"
    using hs_initializer_ok [OF hs_traits_ok(1) hs_extract(1), of "[0]"] by auto
  obtain s1 where s1: "extendSetWithClosure closures 0 s0 = Some s1" "set (ht_values s1) = eclosure nfa {0}"
  proof -
    obtain s b where "hs_addAll idSetTraits (closureOf closures 0) s0 = Some (s, b)"
      "set (ht_values s) = set (closureOf closures 0) \<union> set (ht_values s0)"
      using hs_addAll_ok [OF hs_traits_ok(1) hs_extract(1) s0(2)] by blast
    with closureOf_ok [OF c(2), of 0] s0(3) that show thesis
      by (cases "closureOf closures 0 = []") (auto simp: extendSetWithClosure_def)
  qed
  have bound: "set (ht_values s1) \<subseteq> {..<?n}"
    unfolding s1(2) by (rule eclosure_bounded [OF assms(2)]) (use n in simp)
  have "subset_inv nfa [] newDFA ht_empty"
    by (simp add: subset_inv_def ht_wf_empty newDFA_def ht_keys_def)
  from addUniqueSet_ok [OF this assms(3) bound] obtain dfa0 table0 impl where
    u: "addUniqueSet s1 nfa newDFA ht_empty = Some (dfa0, table0, impl, True)"
    "subset_inv nfa [eclosure nfa {0}] dfa0 table0" "impl_ok [eclosure nfa {0}] impl"
    by (auto simp: s1(2))
  have "convert_inv nfa [eclosure nfa {0}] dfa0 table0 [impl]"
    using u(2,3) by (simp add: convert_inv_def impl_ok_def)
  from convert_loop_ok [OF assms(1,2) c(2) assms(3) this, of "[]"] obtain dfa table new where
    l: "convert_loop (nfa\<lparr>epsilonTransitionsTargets := []\<rparr>) closures dfa0 table0 [impl] = Some dfa"
    "convert_inv nfa (eclosure nfa {0} # new) dfa table []" by auto
  have "convert nfa = Some (dfa, nfa\<lparr>epsilonTransitionsTargets := []\<rparr>)"
    using c(1) s0(1) s1(1) u(1) l(1) n
    by (simp add: convert_def nfa_root_def cleared_conversion)
  moreover have "dfa_accepts dfa w = nfa_accepts nfa w" for w
  proof -
    let ?sets = "eclosure nfa {0} # new"
    have root: "dfa_root dfa = 0" using l(2) by (simp add: convert_inv_def subset_inv_def)
    have "case dfa_run dfa 0 w of None \<Rightarrow> {k. path (nfa_edges nfa) 0 w k} = {}
      | Some j \<Rightarrow> j < length ?sets \<and> ?sets ! j = {k. path (nfa_edges nfa) 0 w k}"
      using convert_inv_run [OF l(2), of 0 w] unfolding nth_Cons_0 deltas_correct by simp
    note run = this
    show ?thesis
    proof (cases "dfa_run dfa 0 w")
      case (Some j)
      with run have j: "j < length ?sets" "?sets ! j = {k. path (nfa_edges nfa) 0 w k}" by simp_all
      from convert_inv_facts [OF l(2) j(1)] show ?thesis
        unfolding j(2) by (auto simp: dfa_accepts_def dfa_accepts_from_def root Some nfa_accepts_def set_actions_def)
    qed (use run in \<open>auto simp: dfa_accepts_def dfa_accepts_from_def root nfa_accepts_def\<close>)
  qed
  ultimately show ?thesis using convert_inv_wf [OF l(2)] by blast
qed

definition example_nfa :: NFA where
  "example_nfa = \<lparr>nodes = [defaultNode\<lparr>rangesEnd := 1, epsilonTransitionTargetsEnd := 1\<rparr>, defaultNode\<lparr>actionEnd := 1\<rparr>],
     transitions = [\<lparr>targetStart = 0, targetEnd = 2, ir_first = 97, ir_last = 99\<rparr>], targets = [0, 1],
     epsilonTransitionsTargets = [1], nfa_actions = [5]\<rparr>"

lemma example_nfa_nodes:
  "transitionsForNode example_nfa 0 = [(97, 99, [0, 1])]" "transitionsForNode example_nfa (Suc 0) = []"
  "epsilonTargetsForNode example_nfa 0 = [1]" "epsilonTargetsForNode example_nfa (Suc 0) = []"
  by (simp_all add: example_nfa_def transitionsForNode_def epsilonTargetsForNode_def slice_def defaultNode_def Let_def)

lemma example_nfa_ok: "nfa_wf example_nfa" "nfa_closed example_nfa" "card (set (nfa_actions example_nfa)) \<le> 65535"
proof -
  have len: "length (nodes example_nfa) = 2" by (simp add: example_nfa_def)
  have "sorted_ranges 0 127 (transitionsForNode example_nfa i)" if "i < 2" for i
    using that by (auto simp: less_2_cases_iff example_nfa_nodes)
  moreover have "\<forall>node \<in> set (nodes example_nfa). node_wf example_nfa node"
    "\<forall>r \<in> set (transitions example_nfa). targetStart r \<le> targetEnd r \<and> targetEnd r \<le> length (targets example_nfa)"
    by (simp_all add: example_nfa_def node_wf_def defaultNode_def)
  ultimately show "nfa_wf example_nfa" by (simp add: nfa_wf_def len)
  have "j < 2" if "(i, a, j) \<in> nfa_edges example_nfa" for i a j
  proof -
    from that obtain k where "k < 2" "(i, a, j) \<in> node_edges example_nfa k" by (auto simp: nfa_edges_def len)
    then show ?thesis by (auto simp: less_2_cases_iff node_edges_def range_edges_def example_nfa_nodes)
  qed
  moreover have "nodes example_nfa \<noteq> []" by (simp add: example_nfa_def)
  ultimately show "nfa_closed example_nfa" by (auto simp: nfa_closed_def len)
  show "card (set (nfa_actions example_nfa)) \<le> 65535" by (simp add: example_nfa_def)
qed

theorem convert_correct_witness:
  "\<exists>dfa. convert example_nfa = Some (dfa, example_nfa\<lparr>epsilonTransitionsTargets := []\<rparr>) \<and> dfa_wf dfa \<and>
     dfa_accepts dfa [97, 99] = nfa_accepts example_nfa [97, 99]"
  using convert_correct [OF example_nfa_ok] by blast

end
