(* ===== verification/StringHasher.thy ===== *)
theory StringHasher
  imports HashFunctions "HOL-Library.Monad_Syntax"
begin

text \<open>
  \<^verbatim>\<open>WTF/wtf/StringHasher.h\<close>: the hash of a string, computed two characters at a time. A hasher that was
  fed an odd number of characters keeps the last one. Characters of 8 bits are converted to 16 bits.
\<close>

section \<open>Operations\<close>

type_synonym UChar = "16 word"
type_synonym LChar = "8 word"

record StringHasher =
  sh_hash :: uint32
  m_hasPendingCharacter :: bool
  m_pendingCharacter :: UChar

definition stringHashingStartValue :: uint32 where
  "stringHashingStartValue = 0x9E3779B9"

definition newStringHasher :: StringHasher where
  "newStringHasher = \<lparr>sh_hash = stringHashingStartValue, m_hasPendingCharacter = False, m_pendingCharacter = 0\<rparr>"

definition mixPair :: "UChar \<Rightarrow> UChar \<Rightarrow> uint32 \<Rightarrow> uint32" where
  "mixPair a b hash =
     (let x = hash + ucast a;
          x = push_bit 16 x XOR (push_bit 11 (ucast b) XOR x)
      in x + drop_bit 11 x)"

definition addPairAssumingAligned :: "UChar \<Rightarrow> UChar \<Rightarrow> StringHasher \<Rightarrow> StringHasher" where
  "addPairAssumingAligned a b h = h\<lparr>sh_hash := mixPair a b (sh_hash h)\<rparr>"

definition hasher_addCharacter :: "UChar \<Rightarrow> StringHasher \<Rightarrow> StringHasher" where
  "hasher_addCharacter character h =
     (if m_hasPendingCharacter h
      then addPairAssumingAligned (m_pendingCharacter h) character (h\<lparr>m_hasPendingCharacter := False\<rparr>)
      else h\<lparr>m_pendingCharacter := character, m_hasPendingCharacter := True\<rparr>)"

definition addPair :: "UChar \<Rightarrow> UChar \<Rightarrow> StringHasher \<Rightarrow> StringHasher" where
  "addPair a b h =
     (if m_hasPendingCharacter h
      then (addPairAssumingAligned (m_pendingCharacter h) a h)\<lparr>m_pendingCharacter := b\<rparr>
      else addPairAssumingAligned a b h)"

text \<open>The characters of an array of a given length, and those of an array that ends with a zero; \<open>None\<close> is
  a read behind the array.\<close>

fun addCharactersAssumingAligned :: "('c \<Rightarrow> UChar) \<Rightarrow> 'c list \<Rightarrow> StringHasher \<Rightarrow> StringHasher" where
  "addCharactersAssumingAligned converter (a # b # data) h =
     addCharactersAssumingAligned converter data (addPairAssumingAligned (converter a) (converter b) h)"
| "addCharactersAssumingAligned converter [a] h = hasher_addCharacter (converter a) h"
| "addCharactersAssumingAligned converter [] h = h"

fun addTerminatedAssumingAligned :: "('c::zero \<Rightarrow> UChar) \<Rightarrow> 'c list \<Rightarrow> StringHasher \<Rightarrow> StringHasher option" where
  "addTerminatedAssumingAligned converter [] h = None"
| "addTerminatedAssumingAligned converter [a] h = (if a = 0 then Some h else None)"
| "addTerminatedAssumingAligned converter (a # b # data) h =
     (if a = 0 then Some h
      else if b = 0 then Some (hasher_addCharacter (converter a) h)
      else addTerminatedAssumingAligned converter data (addPairAssumingAligned (converter a) (converter b) h))"

definition addCharacters :: "('c \<Rightarrow> UChar) \<Rightarrow> 'c list \<Rightarrow> StringHasher \<Rightarrow> StringHasher" where
  "addCharacters converter data h =
     (case data of
        c # rest \<Rightarrow>
          if m_hasPendingCharacter h
          then addCharactersAssumingAligned converter rest
                 (addPairAssumingAligned (m_pendingCharacter h) (converter c) (h\<lparr>m_hasPendingCharacter := False\<rparr>))
          else addCharactersAssumingAligned converter data h
      | [] \<Rightarrow> addCharactersAssumingAligned converter [] h)"

definition addTerminated :: "('c::zero \<Rightarrow> UChar) \<Rightarrow> 'c list \<Rightarrow> StringHasher \<Rightarrow> StringHasher option" where
  "addTerminated converter data h =
     (case data of
        [] \<Rightarrow> None
      | c # rest \<Rightarrow>
          if m_hasPendingCharacter h \<and> c \<noteq> 0
          then addTerminatedAssumingAligned converter rest
                 (addPairAssumingAligned (m_pendingCharacter h) (converter c) (h\<lparr>m_hasPendingCharacter := False\<rparr>))
          else addTerminatedAssumingAligned converter data h)"

definition avalancheBits :: "StringHasher \<Rightarrow> uint32" where
  "avalancheBits h =
     (let result = sh_hash h;
          result = (if m_hasPendingCharacter h then
                      let r = result + ucast (m_pendingCharacter h);
                          r = r XOR push_bit 11 r
                      in r + drop_bit 17 r
                    else result);
          result = result XOR push_bit 3 result;
          result = result + drop_bit 5 result;
          result = result XOR push_bit 2 result;
          result = result + drop_bit 15 result
      in result XOR push_bit 10 result)"

definition flagCount :: nat where
  "flagCount = 8"

definition hashWithTop8BitsMasked :: "StringHasher \<Rightarrow> uint32" where
  "hashWithTop8BitsMasked h =
     (let result = avalancheBits h AND (push_bit (32 - flagCount) 1 - 1)
      in if result = 0 then drop_bit flagCount 0x80000000 else result)"

definition hasher_hash :: "StringHasher \<Rightarrow> uint32" where
  "hasher_hash h = (let result = avalancheBits h in if result = 0 then 0x80000000 else result)"

definition computeHashAndMaskTop8Bits :: "('c \<Rightarrow> UChar) \<Rightarrow> 'c list \<Rightarrow> uint32" where
  "computeHashAndMaskTop8Bits converter data =
     hashWithTop8BitsMasked (addCharactersAssumingAligned converter data newStringHasher)"

definition computeTerminatedHashAndMaskTop8Bits :: "('c::zero \<Rightarrow> UChar) \<Rightarrow> 'c list \<Rightarrow> uint32 option" where
  "computeTerminatedHashAndMaskTop8Bits converter data =
     map_option hashWithTop8BitsMasked (addTerminatedAssumingAligned converter data newStringHasher)"

definition computeHash :: "('c \<Rightarrow> UChar) \<Rightarrow> 'c list \<Rightarrow> uint32" where
  "computeHash converter data = hasher_hash (addCharactersAssumingAligned converter data newStringHasher)"

definition computeTerminatedHash :: "('c::zero \<Rightarrow> UChar) \<Rightarrow> 'c list \<Rightarrow> uint32 option" where
  "computeTerminatedHash converter data = map_option hasher_hash (addTerminatedAssumingAligned converter data newStringHasher)"

text \<open>\<^verbatim>\<open>defaultConverter\<close> for the two widths.\<close>

definition defaultConverter :: "UChar \<Rightarrow> UChar" where
  "defaultConverter c = c"

definition defaultConverter8 :: "LChar \<Rightarrow> UChar" where
  "defaultConverter8 c = ucast c"

section \<open>The hash does not depend on how the characters are fed\<close>

text \<open>What counts of a hasher: the pending character only where there is one.\<close>

definition hasher_view :: "StringHasher \<Rightarrow> uint32 \<times> UChar option" where
  "hasher_view h = (sh_hash h, if m_hasPendingCharacter h then Some (m_pendingCharacter h) else None)"

lemma hasher_addCharacter_view: "hasher_view h = hasher_view g \<Longrightarrow> hasher_view (hasher_addCharacter c h) = hasher_view (hasher_addCharacter c g)"
  by (auto simp: hasher_view_def hasher_addCharacter_def addPairAssumingAligned_def split: if_splits)

lemma fold_addCharacter_view: "hasher_view h = hasher_view g \<Longrightarrow> hasher_view (fold hasher_addCharacter cs h) = hasher_view (fold hasher_addCharacter cs g)"
proof (induction cs arbitrary: h g)
  case (Cons c cs)
  from Cons.IH [OF hasher_addCharacter_view [OF Cons.prems]] show ?case by simp
qed simp

lemma avalancheBits_view: "hasher_view h = hasher_view g \<Longrightarrow> avalancheBits h = avalancheBits g"
proof -
  assume v: "hasher_view h = hasher_view g"
  then have "sh_hash h = sh_hash g" "m_hasPendingCharacter h = m_hasPendingCharacter g"
    "m_hasPendingCharacter g \<Longrightarrow> m_pendingCharacter h = m_pendingCharacter g" by (auto simp: hasher_view_def split: if_splits)
  then show ?thesis unfolding avalancheBits_def by (cases "m_hasPendingCharacter g") (simp_all only: if_True if_False refl)
qed

lemma hash_view:
  assumes "hasher_view h = hasher_view g"
  shows "hasher_hash h = hasher_hash g" "hashWithTop8BitsMasked h = hashWithTop8BitsMasked g"
  by (simp_all add: hasher_hash_def hashWithTop8BitsMasked_def avalancheBits_view [OF assms])

lemma addPairAssumingAligned_view:
  "\<not> m_hasPendingCharacter h \<Longrightarrow> hasher_view (addPairAssumingAligned a b h) = hasher_view (hasher_addCharacter b (hasher_addCharacter a h))"
  by (simp add: hasher_view_def hasher_addCharacter_def addPairAssumingAligned_def)

lemma aligned_pending [simp]: "m_hasPendingCharacter (addPairAssumingAligned a b h) = m_hasPendingCharacter h"
  by (simp add: addPairAssumingAligned_def)

lemma addCharactersAssumingAligned_view:
  "\<not> m_hasPendingCharacter h \<Longrightarrow>
   hasher_view (addCharactersAssumingAligned converter data h) = hasher_view (fold hasher_addCharacter (map converter data) h)"
proof (induction converter data h rule: addCharactersAssumingAligned.induct)
  case (1 converter a b data h)
  then show ?case using fold_addCharacter_view [OF addPairAssumingAligned_view [OF 1(2)]] by simp
qed simp_all

lemma addPair_view: "hasher_view (addPair a b h) = hasher_view (hasher_addCharacter b (hasher_addCharacter a h))"
  by (simp add: hasher_view_def addPair_def hasher_addCharacter_def addPairAssumingAligned_def)

lemma addCharacters_view: "hasher_view (addCharacters converter data h) = hasher_view (fold hasher_addCharacter (map converter data) h)"
proof (cases data)
  case (Cons c rest)
  let ?h = "addPairAssumingAligned (m_pendingCharacter h) (converter c) (h\<lparr>m_hasPendingCharacter := False\<rparr>)"
  show ?thesis
  proof (cases "m_hasPendingCharacter h")
    case True
    have "hasher_addCharacter (converter c) h = ?h" using True by (simp add: hasher_addCharacter_def)
    with True Cons addCharactersAssumingAligned_view [of ?h converter rest] show ?thesis by (simp add: addCharacters_def)
  next
    case False
    with Cons addCharactersAssumingAligned_view [of h converter data] show ?thesis by (simp add: addCharacters_def)
  qed
qed (simp add: addCharacters_def)

lemma addTerminatedAssumingAligned_ends:
  "0 \<notin> set data \<Longrightarrow> addTerminatedAssumingAligned converter (data @ 0 # rest) h = Some (addCharactersAssumingAligned converter data h)"
proof (induction converter data h rule: addCharactersAssumingAligned.induct)
  case (3 converter h)
  then show ?case by (cases rest) simp_all
qed auto

text \<open>The characters of an array up to its terminator.\<close>

abbreviation terminated :: "'c::zero list \<Rightarrow> 'c list" where
  "terminated data \<equiv> takeWhile (\<lambda>c. c \<noteq> 0) data"

lemma terminated_split: "\<exists>rest. data @ [0] = terminated data @ 0 # rest"
  by (induction data) auto

lemma addTerminatedAssumingAligned_eq:
  "addTerminatedAssumingAligned converter (data @ [0]) h = Some (addCharactersAssumingAligned converter (terminated data) h)"
proof -
  obtain rest where split: "data @ [0] = terminated data @ 0 # rest" using terminated_split [of data] by (elim exE)
  have "0 \<notin> set (terminated data)" by (auto dest: set_takeWhileD)
  from addTerminatedAssumingAligned_ends [OF this] show ?thesis unfolding split .
qed

lemma addTerminated_eq: "addTerminated converter (data @ [0]) h = Some (addCharacters converter (terminated data) h)"
proof (cases data)
  case (Cons c rest)
  then show ?thesis
    using addTerminatedAssumingAligned_eq [of converter data h] addTerminatedAssumingAligned_eq [of converter rest]
    by (auto simp: addTerminated_def addCharacters_def)
qed (simp add: addTerminated_def addCharacters_def)

text \<open>The calls that feed a hasher. The two last ones get an array that ends with a zero.\<close>

datatype Feed =
    FeedCharacter UChar | FeedPair UChar UChar
  | FeedCharacters "UChar list" | FeedCharacters8 "LChar list"
  | FeedTerminated "UChar list" | FeedTerminated8 "LChar list"

fun feed :: "Feed \<Rightarrow> StringHasher \<Rightarrow> StringHasher option" where
  "feed (FeedCharacter c) h = Some (hasher_addCharacter c h)"
| "feed (FeedPair a b) h = Some (addPair a b h)"
| "feed (FeedCharacters data) h = Some (addCharacters defaultConverter data h)"
| "feed (FeedCharacters8 data) h = Some (addCharacters defaultConverter8 data h)"
| "feed (FeedTerminated data) h = addTerminated defaultConverter (data @ [0]) h"
| "feed (FeedTerminated8 data) h = addTerminated defaultConverter8 (data @ [0]) h"

fun feeds :: "Feed list \<Rightarrow> StringHasher \<Rightarrow> StringHasher option" where
  "feeds [] h = Some h"
| "feeds (f # fs) h = do { h' \<leftarrow> feed f h; feeds fs h' }"

fun feed_text :: "Feed \<Rightarrow> UChar list" where
  "feed_text (FeedCharacter c) = [c]"
| "feed_text (FeedPair a b) = [a, b]"
| "feed_text (FeedCharacters data) = data"
| "feed_text (FeedCharacters8 data) = map ucast data"
| "feed_text (FeedTerminated data) = terminated data"
| "feed_text (FeedTerminated8 data) = map ucast (terminated data)"

lemma feed_view: "\<exists>h'. feed f h = Some h' \<and> hasher_view h' = hasher_view (fold hasher_addCharacter (feed_text f) h)"
proof -
  have "map defaultConverter cs = cs" "defaultConverter8 = ucast" for cs
    by (simp_all add: defaultConverter_def [abs_def] defaultConverter8_def [abs_def])
  then show ?thesis
    by (cases f) (simp_all add: addPair_view addCharacters_view addTerminated_eq)
qed

lemma feeds_view: "\<exists>h'. feeds fs h = Some h' \<and> hasher_view h' = hasher_view (fold hasher_addCharacter (concat (map feed_text fs)) h)"
proof (induction fs arbitrary: h)
  case (Cons f fs)
  obtain h1 where h1: "feed f h = Some h1" "hasher_view h1 = hasher_view (fold hasher_addCharacter (feed_text f) h)"
    using feed_view [of f h] by (elim exE conjE)
  obtain h2 where "feeds fs h1 = Some h2" "hasher_view h2 = hasher_view (fold hasher_addCharacter (concat (map feed_text fs)) h1)"
    using Cons.IH [of h1] by (elim exE conjE)
  with h1 fold_addCharacter_view [OF h1(2), of "concat (map feed_text fs)"] show ?case by simp
qed simp

lemma addCharactersAssumingAligned_new:
  "hasher_view (addCharactersAssumingAligned defaultConverter8 data newStringHasher)
   = hasher_view (addCharactersAssumingAligned defaultConverter (map ucast data) newStringHasher)"
proof -
  have "\<not> m_hasPendingCharacter newStringHasher" by (simp add: newStringHasher_def)
  then show ?thesis
    by (simp add: addCharactersAssumingAligned_view defaultConverter_def [abs_def] defaultConverter8_def [abs_def])
qed

lemmas compute_hash_defs = computeHash_def computeHashAndMaskTop8Bits_def computeTerminatedHash_def
  computeTerminatedHashAndMaskTop8Bits_def addTerminatedAssumingAligned_eq


text \<open>C25: A hash of a string is never zero, which is the mark of a hash that is not yet
  computed, and with the top bits masked it leaves the eight bits of the flags of a string free.\<close>

theorem string_hash_range:
  "hasher_hash h \<noteq> 0 \<and> hashWithTop8BitsMasked h \<noteq> 0 \<and> unat (hashWithTop8BitsMasked h) < 2 ^ (32 - flagCount)"
proof -
  have m: "push_bit (32 - flagCount) 1 - 1 = (mask 24 :: uint32)" by (simp add: flagCount_def mask_eq_exp_minus_1 push_bit_of_1)
  have "unat (avalancheBits h AND mask 24) < 2 ^ 24" 
    unfolding take_bit_eq_mask [symmetric] unsigned_take_bit_eq by (rule take_bit_nat_less_exp)
  moreover have "drop_bit 8 (0x80000000 :: uint32) = 0x800000" by (simp add: drop_bit_eq_div)
  ultimately show ?thesis unfolding hasher_hash_def hashWithTop8BitsMasked_def Let_def m by (simp add: flagCount_def)
qed

end
