(* ===== verification/WTFString.thy ===== *)
theory WTFString
  imports StringHasher
begin

text \<open>
  \<^verbatim>\<open>WTF/wtf/text/WTFString.h\<close> and \<^verbatim>\<open>StringBuilder\<close>, as far as the content extensions use them: a string
  is null or holds characters of 8 or of 16 bits, and a builder starts with 8-bit characters and
  converts them when a 16-bit string is appended. In the source an empty string is always the shared
  8-bit one; \<open>String16 []\<close>, which the type has too, does not occur there.
\<close>

section \<open>Strings\<close>

datatype String = NullString | String8 "LChar list" | String16 "UChar list"

fun string_chars :: "String \<Rightarrow> UChar list" where
  "string_chars NullString = []"
| "string_chars (String8 cs) = map ucast cs"
| "string_chars (String16 cs) = cs"

definition string_isNull :: "String \<Rightarrow> bool" where
  "string_isNull s \<longleftrightarrow> s = NullString"

definition string_length :: "String \<Rightarrow> nat" where
  "string_length s = length (string_chars s)"

text \<open>\<^verbatim>\<open>is8Bit\<close> dereferences the implementation, which a null string does not have.\<close>

fun is8Bit :: "String \<Rightarrow> bool option" where
  "is8Bit NullString = None"
| "is8Bit (String8 cs) = Some True"
| "is8Bit (String16 cs) = Some False"

text \<open>What equality of strings compares: the characters, whatever their width, and whether the string is null.\<close>

definition string_content :: "String \<Rightarrow> UChar list option" where
  "string_content s = (if string_isNull s then None else Some (string_chars s))"

text \<open>\<^verbatim>\<open>StringImpl::hash\<close>, for the two widths.\<close>

definition stringHash :: "UChar list \<Rightarrow> uint32" where
  "stringHash cs = computeHashAndMaskTop8Bits defaultConverter cs"

definition string_hash :: "String \<Rightarrow> uint32 option" where
  "string_hash s =
     (case s of
        NullString \<Rightarrow> None
      | String8 cs \<Rightarrow> Some (computeHashAndMaskTop8Bits defaultConverter8 cs)
      | String16 cs \<Rightarrow> Some (computeHashAndMaskTop8Bits defaultConverter cs))"

lemma addCharactersAssumingAligned_map:
  "addCharactersAssumingAligned converter cs h = addCharactersAssumingAligned defaultConverter (map converter cs) h"
  by (induction converter cs h rule: addCharactersAssumingAligned.induct) (simp_all add: defaultConverter_def)

lemma string_hash_content: "string_hash s = map_option stringHash (string_content s)"
proof -
  have "defaultConverter8 = ucast" by (auto simp: defaultConverter8_def)
  then show ?thesis
    using addCharactersAssumingAligned_map [of defaultConverter8]
    by (cases s) (simp_all add: string_hash_def stringHash_def string_content_def string_isNull_def computeHashAndMaskTop8Bits_def)
qed

section \<open>String builders\<close>

text \<open>\<^verbatim>\<open>m_buffer\<close> and \<^verbatim>\<open>m_string\<close> are two places for the same characters; what counts is whether there is a
  buffer. A length of 2^32 crashes.\<close>

record StringBuilder =
  sb_is8Bit :: bool
  sb_chars :: "UChar list"
  sb_hasBuffer :: bool

definition newStringBuilder :: StringBuilder where
  "newStringBuilder = \<lparr>sb_is8Bit = True, sb_chars = [], sb_hasBuffer = False\<rparr>"

definition sb_appended :: "bool \<Rightarrow> UChar list \<Rightarrow> StringBuilder \<Rightarrow> StringBuilder option" where
  "sb_appended eightBit cs b =
     (if length cs + length (sb_chars b) \<ge> 2 ^ 32 then None
      else Some \<lparr>sb_is8Bit = eightBit, sb_chars = sb_chars b @ cs, sb_hasBuffer = True\<rparr>)"

definition sb_append8 :: "LChar list \<Rightarrow> StringBuilder \<Rightarrow> StringBuilder option" where
  "sb_append8 cs b = (if cs = [] then Some b else sb_appended (sb_is8Bit b) (map ucast cs) b)"

definition sb_append16 :: "UChar list \<Rightarrow> StringBuilder \<Rightarrow> StringBuilder option" where
  "sb_append16 cs b =
     (if cs = [] then Some b
      else if sb_is8Bit b then
        if length cs = 1 \<and> hd cs AND NOT 0xff = 0 then sb_append8 [ucast (hd cs)] b
        else sb_appended False cs b
      else sb_appended False cs b)"

definition sb_appendString :: "String \<Rightarrow> StringBuilder \<Rightarrow> StringBuilder option" where
  "sb_appendString s b =
     (if string_length s = 0 then Some b
      else if sb_chars b = [] \<and> \<not> sb_hasBuffer b then do {
        eightBit \<leftarrow> is8Bit s;
        Some (b\<lparr>sb_chars := string_chars s, sb_is8Bit := eightBit\<rparr>)
      }
      else
        (case s of
           NullString \<Rightarrow> Some b
         | String8 cs \<Rightarrow> sb_append8 cs b
         | String16 cs \<Rightarrow> sb_append16 cs b))"

definition sb_appendChar :: "LChar \<Rightarrow> StringBuilder \<Rightarrow> StringBuilder option" where
  "sb_appendChar c b = sb_append8 [c] b"

definition sb_isEmpty :: "StringBuilder \<Rightarrow> bool" where
  "sb_isEmpty b \<longleftrightarrow> sb_chars b = []"

definition sb_toString :: "StringBuilder \<Rightarrow> String" where
  "sb_toString b =
     (if sb_chars b = [] then String8 []
      else if sb_is8Bit b then String8 (map ucast (sb_chars b)) else String16 (sb_chars b))"

text \<open>A builder of 8-bit characters holds only such characters.\<close>

definition sb_wf :: "StringBuilder \<Rightarrow> bool" where
  "sb_wf b \<longleftrightarrow> (sb_is8Bit b \<longrightarrow> (\<forall>c \<in> set (sb_chars b). unat c < 256))"

lemma sb_new: "sb_wf newStringBuilder" "sb_chars newStringBuilder = []"
  by (simp_all add: sb_wf_def newStringBuilder_def)

lemma unat_ucast_LChar: "unat (ucast (c :: LChar) :: UChar) < 256"
proof -
  have "unat (ucast c :: UChar) \<le> unat c" by (simp add: unsigned_ucast_eq take_bit_nat_less_eq_self)
  also have "unat c < 256" by (rule order_less_le_trans [OF unsigned_less]) simp
  finally show ?thesis .
qed

lemma narrow_char: "unat (c :: UChar) < 256 \<Longrightarrow> ucast (ucast c :: LChar) = c"
  by (rule word_unat_eq_iff [THEN iffD2]) (simp add: unsigned_ucast_eq unsigned_take_bit_eq take_bit_nat_eq_self)

lemma byte_char: "c AND NOT 0xff = 0 \<Longrightarrow> unat (c :: UChar) < 256"
proof -
  assume a: "c AND NOT 0xff = 0"
  have "c = c AND (0xff OR NOT 0xff)" by simp
  also have "\<dots> = c AND 0xff" using a by (simp only: bit.conj_disj_distrib) simp
  also have "\<dots> = take_bit 8 c" by (simp add: take_bit_eq_mask mask_eq_exp_minus_1)
  finally have "unat c = take_bit 8 (unat c)" by (metis unsigned_take_bit_eq)
  then show ?thesis using take_bit_nat_less_exp [of 8 "unat c"] by simp
qed

lemma sb_appended_ok:
  assumes "length cs + length (sb_chars b) < 2 ^ 32" "sb_wf b" "eightBit \<Longrightarrow> sb_is8Bit b \<and> (\<forall>c \<in> set cs. unat c < 256)"
  shows "\<exists>b'. sb_appended eightBit cs b = Some b' \<and> sb_wf b' \<and> sb_chars b' = sb_chars b @ cs"
  using assms by (auto simp: sb_appended_def sb_wf_def)

lemma sb_append8_ok:
  assumes "length cs + length (sb_chars b) < 2 ^ 32" "sb_wf b"
  shows "\<exists>b'. sb_append8 cs b = Some b' \<and> sb_wf b' \<and> sb_chars b' = sb_chars b @ map ucast cs"
  using sb_appended_ok [of "map ucast cs" b "sb_is8Bit b"] assms by (auto simp: sb_append8_def unat_ucast_LChar)

lemma sb_append16_ok:
  assumes "length cs + length (sb_chars b) < 2 ^ 32" "sb_wf b"
  shows "\<exists>b'. sb_append16 cs b = Some b' \<and> sb_wf b' \<and> sb_chars b' = sb_chars b @ cs"
proof (cases "length cs = 1 \<and> hd cs AND NOT 0xff = 0 \<and> sb_is8Bit b")
  case True
  then obtain c where c: "cs = [c]" by (cases cs) auto
  with True sb_append8_ok [of "[ucast c]" b] assms show ?thesis
    by (auto simp: sb_append16_def narrow_char [OF byte_char])
next
  case False
  with sb_appended_ok [of cs b False] assms show ?thesis by (auto simp: sb_append16_def)
qed

lemma sb_appendString_ok:
  assumes "string_length s + length (sb_chars b) < 2 ^ 32" "sb_wf b"
  shows "\<exists>b'. sb_appendString s b = Some b' \<and> sb_wf b' \<and> sb_chars b' = sb_chars b @ string_chars s"
proof (cases s)
  case (String8 cs)
  with sb_append8_ok [of cs b] assms show ?thesis
    by (cases "cs = [] \<or> sb_chars b = [] \<and> \<not> sb_hasBuffer b") (auto simp: sb_appendString_def string_length_def sb_wf_def unat_ucast_LChar)
next
  case (String16 cs)
  with sb_append16_ok [of cs b] assms show ?thesis
    by (cases "cs = [] \<or> sb_chars b = [] \<and> \<not> sb_hasBuffer b") (auto simp: sb_appendString_def string_length_def sb_wf_def)
qed (use assms in \<open>simp add: sb_appendString_def string_length_def\<close>)

lemma sb_toString_ok:
  assumes "sb_wf b"
  shows "string_content (sb_toString b) = Some (sb_chars b)" "string_chars (sb_toString b) = sb_chars b"
  using assms by (auto simp: sb_toString_def string_content_def string_isNull_def sb_wf_def narrow_char comp_def intro: map_idI)

end
