(* ===== verification/DFABytecode.thy ===== *)
theory DFABytecode
  imports CE_Prelude
begin

text \<open>
  \<^verbatim>\<open>DFABytecode.h\<close>: the instructions of the bytecode, the sizes of the jumps, and the reading and
  writing of integers in a vector of bytes. The host is little-endian; signed values are in
  two's complement.
\<close>

section \<open>Instructions\<close>

datatype DFABytecodeInstruction =
  CheckValueCaseInsensitive | CheckValueCaseSensitive
| JumpTableCaseInsensitive | JumpTableCaseSensitive
| CheckValueRangeCaseInsensitive | CheckValueRangeCaseSensitive
| AppendAction | AppendActionWithIfDomain
| TestFlagsAndAppendAction | TestFlagsAndAppendActionWithIfDomain
| Terminate | Jump

fun instruction_value :: "DFABytecodeInstruction \<Rightarrow> byte" where
  "instruction_value CheckValueCaseInsensitive = 0x0"
| "instruction_value CheckValueCaseSensitive = 0x1"
| "instruction_value JumpTableCaseInsensitive = 0x2"
| "instruction_value JumpTableCaseSensitive = 0x3"
| "instruction_value CheckValueRangeCaseInsensitive = 0x4"
| "instruction_value CheckValueRangeCaseSensitive = 0x5"
| "instruction_value AppendAction = 0x6"
| "instruction_value AppendActionWithIfDomain = 0x7"
| "instruction_value TestFlagsAndAppendAction = 0x8"
| "instruction_value TestFlagsAndAppendActionWithIfDomain = 0x9"
| "instruction_value Terminate = 0xA"
| "instruction_value Jump = 0xB"

datatype DFABytecodeJumpSize = Int8 | Int16 | Int24 | Int32

fun jumpSize_value :: "DFABytecodeJumpSize \<Rightarrow> byte" where
  "jumpSize_value Int8 = 0x10"
| "jumpSize_value Int16 = 0x20"
| "jumpSize_value Int24 = 0x30"
| "jumpSize_value Int32 = 0x40"

definition DFABytecodeInstructionMask :: byte where
  "DFABytecodeInstructionMask = 0x0F"

definition DFABytecodeJumpSizeMask :: byte where
  "DFABytecodeJumpSizeMask = 0xF0"

definition Int24Max :: int where "Int24Max = 2 ^ 23 - 1"
definition Int24Min :: int where "Int24Min = - (2 ^ 23)"

definition smallestPossibleJumpSize :: "int \<Rightarrow> DFABytecodeJumpSize" where
  "smallestPossibleJumpSize longestPossibleJump =
     (if longestPossibleJump \<le> 127 \<and> longestPossibleJump \<ge> - 128 then Int8
      else if longestPossibleJump \<le> 32767 \<and> longestPossibleJump \<ge> - 32768 then Int16
      else if longestPossibleJump \<le> Int24Max \<and> longestPossibleJump \<ge> Int24Min then Int24
      else Int32)"

text \<open>\<open>None\<close> for the instructions of variable size, where the source does not continue.\<close>

fun instructionSizeWithArguments :: "DFABytecodeInstruction \<Rightarrow> nat option" where
  "instructionSizeWithArguments AppendAction = Some (1 + 4)"
| "instructionSizeWithArguments AppendActionWithIfDomain = Some (1 + 4)"
| "instructionSizeWithArguments TestFlagsAndAppendAction = Some (1 + 2 + 4)"
| "instructionSizeWithArguments TestFlagsAndAppendActionWithIfDomain = Some (1 + 2 + 4)"
| "instructionSizeWithArguments Terminate = Some 1"
| "instructionSizeWithArguments _ = None"

fun jumpSizeInBytes :: "DFABytecodeJumpSize \<Rightarrow> nat" where
  "jumpSizeInBytes Int8 = 1"
| "jumpSizeInBytes Int16 = 2"
| "jumpSizeInBytes Int24 = 2 + 1"
| "jumpSizeInBytes Int32 = 4"

section \<open>Integers as bytes\<close>

fun bytesOf :: "nat \<Rightarrow> int \<Rightarrow> byte list" where
  "bytesOf 0 v = []"
| "bytesOf (Suc n) v = word_of_int v # bytesOf n (v div 256)"

fun unsignedOf :: "byte list \<Rightarrow> int" where
  "unsignedOf [] = 0"
| "unsignedOf (b # bs) = uint b + 256 * unsignedOf bs"

definition signedOf :: "byte list \<Rightarrow> int" where
  "signedOf bs =
     (let v = unsignedOf bs in if v < 2 ^ (8 * length bs - 1) then v else v - 2 ^ (8 * length bs))"

lemma length_bytesOf [simp]: "length (bytesOf n v) = n"
  by (induction n arbitrary: v) simp_all

lemma unsignedOf_bytesOf: "unsignedOf (bytesOf n v) = v mod 256 ^ n"
proof (induction n arbitrary: v)
  case (Suc n)
  have "v mod 256 ^ Suc n = 256 * (v div 256 mod 256 ^ n) + v mod 256"
    using zmod_zmult2_eq [of "256 ^ n" v 256] by simp
  with Suc show ?case by (simp add: unsigned_of_int take_bit_eq_mod)
qed simp

lemma power_256: "(256 :: int) ^ n = 2 ^ (8 * n)"
  by (simp add: power_mult)

lemma signedOf_bytesOf:
  assumes "0 < n" "- (2 ^ (8 * n - 1)) \<le> v" "v < 2 ^ (8 * n - 1)"
  shows "signedOf (bytesOf n v) = v"
proof -
  have p: "(2 :: int) ^ (8 * n) = 2 * 2 ^ (8 * n - 1)"
    using assms(1) power_Suc [of "2 :: int" "8 * n - 1"] by simp
  show ?thesis
  proof (cases "0 \<le> v")
    case True
    with assms p have "v mod 2 ^ (8 * n) = v" by (intro mod_pos_pos_trivial) simp_all
    with assms(3) show ?thesis by (simp add: signedOf_def unsignedOf_bytesOf power_256)
  next
    case False
    have "v mod 2 ^ (8 * n) = (v + 2 ^ (8 * n)) mod 2 ^ (8 * n)" by simp
    also have "\<dots> = v + 2 ^ (8 * n)" using False assms(2) p by (intro mod_pos_pos_trivial) simp_all
    finally show ?thesis using assms p False
      by (simp add: signedOf_def unsignedOf_bytesOf power_256)
  qed
qed

lemma unsignedOf_id: "0 \<le> v \<Longrightarrow> v < 256 ^ n \<Longrightarrow> unsignedOf (bytesOf n v) = v"
  by (simp add: unsignedOf_bytesOf)

lemma bytesOf_add: "bytesOf (m + n) v = bytesOf m v @ bytesOf n (v div 256 ^ m)"
  by (induction m arbitrary: v) (simp_all add: zdiv_zmult2_eq)

text \<open>\<^verbatim>\<open>getBits\<close> reads inside the vector or not at all.\<close>

definition getBits :: "nat \<Rightarrow> byte list \<Rightarrow> nat \<Rightarrow> byte list option" where
  "getBits n bytecode index =
     (if index + n \<le> length bytecode then Some (take n (drop index bytecode)) else None)"

definition overwriteAt :: "'a list \<Rightarrow> nat \<Rightarrow> 'a list \<Rightarrow> 'a list" where
  "overwriteAt xs index ys = take index xs @ ys @ drop (index + length ys) xs"

text \<open>\<^verbatim>\<open>setBits\<close> release-asserts that the value fits in the vector.\<close>

definition setBits :: "nat \<Rightarrow> byte list \<Rightarrow> nat \<Rightarrow> int \<Rightarrow> byte list option" where
  "setBits n bytecode index value =
     (if index + n \<le> length bytecode then Some (overwriteAt bytecode index (bytesOf n value)) else None)"

lemma getBits_at: "length pre = index \<Longrightarrow> length bs = n \<Longrightarrow> getBits n (pre @ bs @ post) index = Some bs"
  by (simp add: getBits_def)

lemma setBits_at: "length pre = index \<Longrightarrow> length old = n \<Longrightarrow> setBits n (pre @ old @ post) index v = Some (pre @ bytesOf n v @ post)"
  by (simp add: setBits_def overwriteAt_def)

definition fits :: "DFABytecodeJumpSize \<Rightarrow> int \<Rightarrow> bool" where
  "fits jumpSize d \<longleftrightarrow> - (2 ^ (8 * jumpSizeInBytes jumpSize - 1)) \<le> d \<and> d < 2 ^ (8 * jumpSizeInBytes jumpSize - 1)"

lemma smallestPossibleJumpSize_fits:
  assumes "- (2 ^ 31) \<le> d" "d < 2 ^ 31"
  shows "fits (smallestPossibleJumpSize d) d"
  using assms by (auto simp: smallestPossibleJumpSize_def fits_def Int24Max_def Int24Min_def)

lemma fits_mono: "fits s d \<Longrightarrow> 0 \<le> x \<Longrightarrow> x \<le> d \<Longrightarrow> fits s x"
  by (simp add: fits_def)

instantiation DFABytecodeJumpSize :: linorder
begin

definition less_eq_DFABytecodeJumpSize :: "DFABytecodeJumpSize \<Rightarrow> DFABytecodeJumpSize \<Rightarrow> bool" where
  "less_eq_DFABytecodeJumpSize a b \<longleftrightarrow> jumpSizeInBytes a \<le> jumpSizeInBytes b"

definition less_DFABytecodeJumpSize :: "DFABytecodeJumpSize \<Rightarrow> DFABytecodeJumpSize \<Rightarrow> bool" where
  "less_DFABytecodeJumpSize a b \<longleftrightarrow> jumpSizeInBytes a < jumpSizeInBytes b"

instance
proof
  fix a b c :: DFABytecodeJumpSize
  show "a < b \<longleftrightarrow> a \<le> b \<and> \<not> b \<le> a" "a \<le> a" "a \<le> b \<or> b \<le> a"
    by (auto simp: less_eq_DFABytecodeJumpSize_def less_DFABytecodeJumpSize_def)
  show "a \<le> b \<Longrightarrow> b \<le> c \<Longrightarrow> a \<le> c" by (simp add: less_eq_DFABytecodeJumpSize_def)
  show "a \<le> b \<Longrightarrow> b \<le> a \<Longrightarrow> a = b" by (cases a; cases b) (simp_all add: less_eq_DFABytecodeJumpSize_def)
qed

end

lemma fits_larger: "fits s d \<Longrightarrow> s \<le> s' \<Longrightarrow> fits s' d"
proof -
  assume f: "fits s d" and le: "s \<le> s'"
  have "(2 :: int) ^ (8 * jumpSizeInBytes s - 1) \<le> 2 ^ (8 * jumpSizeInBytes s' - 1)"
    using le by (intro power_increasing) (auto simp: less_eq_DFABytecodeJumpSize_def)
  with f show ?thesis unfolding fits_def by linarith
qed

end
