(* ===== verification/HashMap.thy ===== *)
theory HashMap
  imports HashTable
begin

text \<open>
  \<^verbatim>\<open>WTF/wtf/HashMap.h\<close>: maps on the hash table, whose values are the pairs of a key and a mapped value.
  An iterator is the position of a bucket, and the end iterator is \<open>None\<close>. The contract is the locale
  \<open>hash_map\<close>: a map is a partial function, whatever the order of the table.
\<close>

section \<open>Operations\<close>

type_synonym ('k, 'v) HashMap = "('k \<times> 'v) HashTable"
type_synonym ('k, 'v) HashMapTraits = "('k, 'k \<times> 'v) HashTraits"

text \<open>\<^verbatim>\<open>KeyValuePairKeyExtractor\<close>, and the hash of the key.\<close>

definition mapTraits :: "('k \<Rightarrow> uint32) \<Rightarrow> ('k, 'v) HashMapTraits" where
  "mapTraits h = \<lparr>ht_hash = h, ht_extract = fst, minimumTableSize = 8, arithmetic = Unbounded\<rparr>"

definition hm_find :: "('k, 'v) HashMapTraits \<Rightarrow> ('k, 'v) HashMap \<Rightarrow> 'k \<Rightarrow> nat option option" where
  "hm_find tr m key = ht_find tr m key"

definition hm_contains :: "('k, 'v) HashMapTraits \<Rightarrow> ('k, 'v) HashMap \<Rightarrow> 'k \<Rightarrow> bool option" where
  "hm_contains tr m key = ht_contains tr m key"

text \<open>\<^verbatim>\<open>iterator->value\<close>, read and written.\<close>

definition hm_value :: "('k, 'v) HashMap \<Rightarrow> nat \<Rightarrow> 'v option" where
  "hm_value m i = (case m_table m ! i of Live (k, v) \<Rightarrow> Some v | _ \<Rightarrow> None)"

definition hm_assign :: "nat \<Rightarrow> 'v \<Rightarrow> ('k, 'v) HashMap \<Rightarrow> ('k, 'v) HashMap option" where
  "hm_assign i v m =
     (case m_table m ! i of Live (k, _) \<Rightarrow> Some (m\<lparr>m_table := (m_table m)[i := Live (k, v)]\<rparr>) | _ \<Rightarrow> None)"

definition hm_add :: "('k, 'v) HashMapTraits \<Rightarrow> 'k \<Rightarrow> 'v \<Rightarrow> ('k, 'v) HashMap \<Rightarrow> (('k, 'v) HashMap \<times> nat \<times> bool) option" where
  "hm_add tr key mapped m = do {
     (m, i, isNewEntry) \<leftarrow> ht_add tr key (key, mapped) m;
     i \<leftarrow> i;
     Some (m, i, isNewEntry)
   }"

definition hm_set :: "('k, 'v) HashMapTraits \<Rightarrow> 'k \<Rightarrow> 'v \<Rightarrow> ('k, 'v) HashMap \<Rightarrow> (('k, 'v) HashMap \<times> nat \<times> bool) option" where
  "hm_set tr key mapped m = do {
     (m, i, isNewEntry) \<leftarrow> hm_add tr key mapped m;
     m \<leftarrow> (if \<not> isNewEntry then hm_assign i mapped m else Some m);
     Some (m, i, isNewEntry)
   }"

definition hm_get :: "('k, 'v) HashMapTraits \<Rightarrow> 'v \<Rightarrow> ('k, 'v) HashMap \<Rightarrow> 'k \<Rightarrow> 'v option" where
  "hm_get tr emptyValue m key = do {
     entry \<leftarrow> ht_lookup tr m key;
     (case entry of None \<Rightarrow> Some emptyValue | Some i \<Rightarrow> hm_value m i)
   }"

definition hm_removeAt :: "('k, 'v) HashMapTraits \<Rightarrow> nat option \<Rightarrow> ('k, 'v) HashMap \<Rightarrow> (('k, 'v) HashMap \<times> bool) option" where
  "hm_removeAt tr it m =
     (case it of None \<Rightarrow> Some (m, False) | Some i \<Rightarrow> do { m \<leftarrow> ht_removeAt tr i m; Some (m, True) })"

definition hm_remove :: "('k, 'v) HashMapTraits \<Rightarrow> 'k \<Rightarrow> ('k, 'v) HashMap \<Rightarrow> (('k, 'v) HashMap \<times> bool) option" where
  "hm_remove tr key m = do { it \<leftarrow> hm_find tr m key; hm_removeAt tr it m }"

definition hm_take :: "('k, 'v) HashMapTraits \<Rightarrow> 'v \<Rightarrow> 'k \<Rightarrow> ('k, 'v) HashMap \<Rightarrow> (('k, 'v) HashMap \<times> 'v) option" where
  "hm_take tr emptyValue key m = do {
     it \<leftarrow> hm_find tr m key;
     (case it of
        None \<Rightarrow> Some (m, emptyValue)
      | Some i \<Rightarrow> do { v \<leftarrow> hm_value m i; (m, _) \<leftarrow> hm_removeAt tr it m; Some (m, v) })
   }"

definition hm_removeIf :: "('k, 'v) HashMapTraits \<Rightarrow> ('k \<times> 'v \<Rightarrow> bool) \<Rightarrow> ('k, 'v) HashMap \<Rightarrow> ('k, 'v) HashMap option" where
  "hm_removeIf tr functor m = ht_removeIf tr functor m"

definition hm_clear :: "('k, 'v) HashMap \<Rightarrow> ('k, 'v) HashMap" where
  "hm_clear m = ht_clear m"

fun hm_submap :: "('k, 'v) HashMapTraits \<Rightarrow> ('k \<times> 'v) list \<Rightarrow> ('k, 'v) HashMap \<Rightarrow> bool option" where
  "hm_submap tr [] b = Some True"
| "hm_submap tr ((k, v) # rest) b = do {
     bPos \<leftarrow> hm_find tr b k;
     (case bPos of
        None \<Rightarrow> Some False
      | Some i \<Rightarrow> do { w \<leftarrow> hm_value b i; if v \<noteq> w then Some False else hm_submap tr rest b })
   }"

definition hm_equal :: "('k, 'v) HashMapTraits \<Rightarrow> ('k, 'v) HashMap \<Rightarrow> ('k, 'v) HashMap \<Rightarrow> bool option" where
  "hm_equal tr a b = (if m_keyCount a \<noteq> m_keyCount b then Some False else hm_submap tr (ht_values a) b)"

section \<open>Maps as partial functions\<close>

definition hm_map :: "('k, 'v) HashMapTraits \<Rightarrow> ('k, 'v) HashMap \<Rightarrow> 'k \<rightharpoonup> 'v" where
  "hm_map tr m k = map_option snd (ht_map tr m k)"

definition map_traits :: "('k, 'v) HashMapTraits \<Rightarrow> bool" where
  "map_traits tr \<longleftrightarrow> traits_ok tr \<and> ht_extract tr = fst"

lemma map_traits_mapTraits: "map_traits (mapTraits h)"
  by (auto simp: map_traits_def mapTraits_def traits_ok_def pow2_def intro: exI [of _ 3])

lemma hm_map_values:
  assumes "map_traits tr" "ht_wf tr m"
  shows "hm_map tr m k = Some v \<longleftrightarrow> (k, v) \<in> set (ht_values m)"
  using assms ht_map_Some [OF assms(2), of k "(k, v)"]
  by (auto simp: hm_map_def map_traits_def ht_map_Some [OF assms(2)])

lemma hm_map_of:
  assumes "map_traits tr" "ht_wf tr m"
  shows "hm_map tr m = map_of (ht_values m)"
proof
  fix k
  have "distinct (map fst (ht_values m))" using ht_keys_distinct [OF assms(2)] assms(1) by (simp add: map_traits_def)
  then have "map_of (ht_values m) k = Some v \<longleftrightarrow> hm_map tr m k = Some v" for v by (simp add: hm_map_values [OF assms])
  then show "hm_map tr m k = map_of (ht_values m) k" by (metis not_None_eq)
qed

lemma hm_empty: "ht_wf tr ht_empty" "hm_map tr ht_empty = Map.empty"
  by (auto simp: ht_wf_empty hm_map_def ht_map_def fun_eq_iff)

lemma hm_clear_ok: "ht_wf tr m \<Longrightarrow> ht_wf tr (hm_clear m) \<and> hm_map tr (hm_clear m) = Map.empty"
proof (cases "m_table m = []")
  case True
  moreover assume "ht_wf tr m"
  ultimately show ?thesis by (auto simp: hm_clear_def ht_clear_def hm_map_def ht_map_def ht_values_def fun_eq_iff)
qed (simp add: hm_clear_def ht_clear_def hm_empty)

lemma hm_find_ok:
  assumes "map_traits tr" "ht_wf tr m"
  shows "\<exists>it. hm_find tr m key = Some it \<and>
    (case it of None \<Rightarrow> hm_map tr m key = None
     | Some i \<Rightarrow> \<exists>v. live_at m i (key, v) \<and> hm_value m i = Some v \<and> hm_map tr m key = Some v)"
proof -
  obtain r where r: "ht_lookup tr m key = Some r"
    "case r of None \<Rightarrow> ht_map tr m key = None
     | Some i \<Rightarrow> i < m_tableSize m \<and> (\<exists>v. m_table m ! i = Live v \<and> ht_map tr m key = Some v)"
    using ht_lookup_map [OF assms(2), of key] by blast
  have "ht_find tr m key = Some r" using r by (cases "m_table m = []") (auto simp: ht_find_def split: option.splits)
  moreover have "fst kv = key" if "ht_map tr m key = Some kv" for kv
    using that assms by (simp add: ht_map_Some map_traits_def)
  ultimately show ?thesis using r(2)
    by (intro exI [of _ r]) (force simp: hm_find_def hm_map_def hm_value_def live_at_def split: option.splits)
qed

lemma hm_contains_ok:
  assumes "map_traits tr" "ht_wf tr m"
  shows "hm_contains tr m key = Some (hm_map tr m key \<noteq> None)"
  using ht_contains_ok [OF assms(2), of key] by (simp add: hm_contains_def hm_map_def ht_map_None)

text \<open>Writing through an iterator keeps the key, and so the place of the bucket.\<close>

lemma hm_assign_ok:
  assumes tr: "map_traits tr" and wf: "ht_wf tr m" and i: "live_at m i (key, v)"
  shows "\<exists>m'. hm_assign i w m = Some m' \<and> ht_wf tr m' \<and> hm_map tr m' = (hm_map tr m)(key \<mapsto> w) \<and> live_at m' i (key, w)"
proof -
  let ?t = "m_table m" and ?t' = "(m_table m)[i := Live (key, w)]"
  let ?m = "m\<lparr>m_table := ?t'\<rparr>"
  have l: "i < length ?t" "?t ! i = Live (key, v)" using i by (simp_all add: live_at_def)
  define A B where "A = table_values (take i ?t)" and "B = table_values (drop (Suc i) ?t)"
  note split = table_split [OF l(1)]
  have v: "ht_values m = A @ (key, v) # B" "ht_values ?m = A @ (key, w) # B"
    unfolding ht_values_def A_def B_def by (subst split(1), simp add: l(2)) (simp add: split(2))
  have d: "deleted_buckets ?t' = deleted_buckets ?t"
    by (subst (2) split(1)) (simp add: split(2) l(2))
  have e: "?t' ! j = EmptyBucket \<longleftrightarrow> ?t ! j = EmptyBucket" for j using l by (cases "j = i") simp_all
  have r: "reached tr ?t' j k \<longleftrightarrow> reached tr ?t j k" for j k by (simp add: HashTable.reached_def e)
  have x: "ht_extract tr = fst" using tr by (simp add: map_traits_def)
  have ok: "table_ok tr ?t" using wf l(1) by (cases "?t = []") (auto simp: ht_wf_def)
  have dist: "distinct (map fst (A @ (key, v) # B))" using ht_keys_distinct [OF wf] x v(1) by simp
  have "table_ok tr ?t'"
  proof -
    have "reached tr ?t' j (ht_extract tr kv)" if "j < length ?t" "?t' ! j = Live kv" for j kv
      using that ok l by (cases "j = i"; cases kv) (auto simp: table_ok_def r x)
    with ok dist v(2) show ?thesis by (simp add: table_ok_def x ht_values_def)
  qed
  then have wf': "ht_wf tr ?m" using wf v d l(1) by (auto simp: ht_wf_def)
  moreover have "hm_map tr ?m = (hm_map tr m)(key \<mapsto> w)"
  proof -
    have "key \<notin> dom (map_of A)" using dist by (auto simp: dom_map_of_conv_image_fst)
    then show ?thesis unfolding hm_map_of [OF tr wf] hm_map_of [OF tr wf'] v by (simp add: map_add_upd_left)
  qed
  ultimately show ?thesis using l by (intro exI [of _ ?m]) (simp add: hm_assign_def live_at_def)
qed

lemma hm_add_ok:
  assumes tr: "map_traits tr" and wf: "ht_wf tr m"
  shows "\<exists>m' i v. hm_add tr key mapped m = Some (m', i, hm_map tr m key = None) \<and> ht_wf tr m' \<and>
    hm_map tr m' = (if hm_map tr m key = None then (hm_map tr m)(key \<mapsto> mapped) else hm_map tr m) \<and>
    live_at m' i (key, v) \<and> hm_map tr m' key = Some v \<and> hm_value m' i = Some v"
proof -
  have t: "traits_ok tr" "ht_extract tr (key, mapped) = key" using tr by (simp_all add: map_traits_def)
  obtain m' i w where m': "ht_add tr key (key, mapped) m = Some (m', Some i, ht_map tr m key = None)" "ht_wf tr m'"
    "ht_map tr m' = (if ht_map tr m key = None then (ht_map tr m)(key \<mapsto> (key, mapped)) else ht_map tr m)"
    using ht_add_map [OF t(1) wf t(2)] by blast
  obtain w where w: "live_at m' i w" "ht_extract tr w = key" using ht_add_entry [OF t(1) wf t(2) m'(1)] by blast
  then obtain v where v: "w = (key, v)" using tr by (cases w) (simp add: map_traits_def)
  have "(key, v) \<in> set (ht_values m')" using w v by (auto simp: live_at_def ht_values_def set_table_values simp del: set_concat)
  then have "hm_map tr m' key = Some v" by (simp add: hm_map_values [OF tr m'(2)])
  moreover have "hm_map tr m' = (if hm_map tr m key = None then (hm_map tr m)(key \<mapsto> mapped) else hm_map tr m)"
    using m'(3) by (auto simp: hm_map_def [abs_def] fun_eq_iff)
  ultimately show ?thesis using m' w v by (intro exI [of _ m'] exI [of _ i] exI [of _ v]) (simp add: hm_add_def hm_map_def hm_value_def live_at_def)
qed

lemma hm_set_ok:
  assumes tr: "map_traits tr" and wf: "ht_wf tr m"
  shows "\<exists>m' i. hm_set tr key mapped m = Some (m', i, hm_map tr m key = None) \<and> ht_wf tr m' \<and>
    hm_map tr m' = (hm_map tr m)(key \<mapsto> mapped)"
proof -
  obtain m1 i v where m1: "hm_add tr key mapped m = Some (m1, i, hm_map tr m key = None)" "ht_wf tr m1"
    "hm_map tr m1 = (if hm_map tr m key = None then (hm_map tr m)(key \<mapsto> mapped) else hm_map tr m)" "live_at m1 i (key, v)"
    using hm_add_ok [OF assms] by blast
  show ?thesis
  proof (cases "hm_map tr m key = None")
    case False
    obtain m' where "hm_assign i mapped m1 = Some m'" "ht_wf tr m'" "hm_map tr m' = (hm_map tr m1)(key \<mapsto> mapped)"
      using hm_assign_ok [OF tr m1(2,4)] by blast
    with m1 False show ?thesis by (auto simp: hm_set_def)
  qed (use m1 in \<open>auto simp: hm_set_def\<close>)
qed

lemma hm_remove_ok:
  assumes tr: "map_traits tr" and wf: "ht_wf tr m"
  shows "\<exists>m'. hm_remove tr key m = Some (m', hm_map tr m key \<noteq> None) \<and> ht_wf tr m' \<and> hm_map tr m' = (hm_map tr m)(key := None)"
proof -
  have t: "traits_ok tr" using tr by (simp add: map_traits_def)
  obtain m' where m': "ht_remove tr key m = Some m'" "ht_wf tr m'" "ht_map tr m' = (ht_map tr m)(key := None)"
    using ht_remove_map [OF t wf] by blast
  obtain it where it: "hm_find tr m key = Some it" "case it of None \<Rightarrow> hm_map tr m key = None | Some i \<Rightarrow> hm_map tr m key \<noteq> None"
    using hm_find_ok [OF assms, of key] by (auto split: option.splits)
  have "hm_map tr m' = (hm_map tr m)(key := None)" using m'(3) by (auto simp: hm_map_def [abs_def] fun_eq_iff)
  moreover have "hm_remove tr key m = Some (m', hm_map tr m key \<noteq> None)"
  proof (cases it)
    case None
    with m'(1) it show ?thesis by (simp add: hm_remove_def hm_removeAt_def ht_remove_def hm_find_def)
  next
    case (Some i)
    with m'(1) it show ?thesis by (simp add: hm_remove_def hm_removeAt_def ht_remove_def hm_find_def del: not_None_eq)
  qed
  ultimately show ?thesis using m'(2) by blast
qed

lemma hm_take_ok:
  assumes tr: "map_traits tr" and wf: "ht_wf tr m"
  shows "\<exists>m'. hm_take tr emptyValue key m = Some (m', case hm_map tr m key of None \<Rightarrow> emptyValue | Some v \<Rightarrow> v) \<and>
    ht_wf tr m' \<and> hm_map tr m' = (hm_map tr m)(key := None)"
proof -
  obtain m' where m': "hm_remove tr key m = Some (m', hm_map tr m key \<noteq> None)" "ht_wf tr m'" "hm_map tr m' = (hm_map tr m)(key := None)"
    using hm_remove_ok [OF assms] by blast
  obtain it where it: "hm_find tr m key = Some it" "case it of None \<Rightarrow> hm_map tr m key = None
     | Some i \<Rightarrow> \<exists>v. live_at m i (key, v) \<and> hm_value m i = Some v \<and> hm_map tr m key = Some v"
    using hm_find_ok [OF assms, of key] by blast
  with m' show ?thesis by (cases it) (auto simp: hm_take_def hm_remove_def hm_removeAt_def)
qed

lemma hm_get_ok:
  assumes tr: "map_traits tr" and wf: "ht_wf tr m"
  shows "hm_get tr emptyValue m key = Some (case hm_map tr m key of None \<Rightarrow> emptyValue | Some v \<Rightarrow> v)"
proof -
  obtain r where r: "ht_lookup tr m key = Some r"
    "case r of None \<Rightarrow> ht_map tr m key = None
     | Some i \<Rightarrow> i < m_tableSize m \<and> (\<exists>v. m_table m ! i = Live v \<and> ht_map tr m key = Some v)"
    using ht_lookup_map [OF wf, of key] by blast
  then show ?thesis by (auto simp: hm_get_def hm_map_def hm_value_def split: option.splits)
qed

lemma hm_removeIf_ok:
  assumes tr: "map_traits tr" and wf: "ht_wf tr m"
  shows "\<exists>m'. hm_removeIf tr f m = Some m' \<and> ht_wf tr m' \<and>
    hm_map tr m' = (\<lambda>k. case hm_map tr m k of None \<Rightarrow> None | Some v \<Rightarrow> if f (k, v) then None else Some v)"
proof -
  obtain m' where m': "ht_removeIf tr f m = Some m'" "ht_wf tr m'"
    "\<forall>k. ht_map tr m' k = (case ht_map tr m k of None \<Rightarrow> None | Some v \<Rightarrow> if f v then None else Some v)"
    using ht_copy_map [of tr m f] assms by (auto simp: map_traits_def)
  have "fst kv = k" if "ht_map tr m k = Some kv" for k kv using that assms by (simp add: ht_map_Some map_traits_def)
  then have "hm_map tr m' k = (case hm_map tr m k of None \<Rightarrow> None | Some v \<Rightarrow> if f (k, v) then None else Some v)" for k
    using m'(3) by (cases "ht_map tr m k") (force simp: hm_map_def)+
  with m'(1,2) show ?thesis by (auto simp: hm_removeIf_def)
qed

lemma hm_submap_ok:
  assumes "map_traits tr" "ht_wf tr b"
  shows "hm_submap tr kvs b = Some (\<forall>(k, v) \<in> set kvs. hm_map tr b k = Some v)"
proof (induction kvs)
  case (Cons kv kvs)
  obtain k v where kv: "kv = (k, v)" by (cases kv)
  obtain it where "hm_find tr b k = Some it" "case it of None \<Rightarrow> hm_map tr b k = None
     | Some i \<Rightarrow> \<exists>v. live_at b i (k, v) \<and> hm_value b i = Some v \<and> hm_map tr b k = Some v"
    using hm_find_ok [OF assms, of k] by blast
  with Cons.IH show ?case by (cases it) (auto simp: kv)
qed simp

lemma hm_equal_ok:
  assumes tr: "map_traits tr" and wf: "ht_wf tr a" "ht_wf tr b"
  shows "hm_equal tr a b = Some (hm_map tr a = hm_map tr b)"
proof -
  have dist: "distinct (map fst (ht_values m))" "m_keyCount m = length (ht_values m)" if "ht_wf tr m" for m
    using ht_keys_distinct [OF that] tr that by (simp_all add: map_traits_def ht_wf_def)
  have count: "m_keyCount m = card (dom (hm_map tr m))" if "ht_wf tr m" for m
    using dist [OF that] by (simp add: hm_map_of [OF tr that] dom_map_of_conv_image_fst distinct_card flip: set_map)
  have fin: "finite (dom (hm_map tr b))" by (simp add: hm_map_of [OF tr wf(2)] finite_dom_map_of)
  have sub: "(\<forall>(k, v) \<in> set (ht_values a). hm_map tr b k = Some v) \<longleftrightarrow> hm_map tr a \<subseteq>\<^sub>m hm_map tr b"
  proof -
    have "(\<forall>(k, v) \<in> set (ht_values a). hm_map tr b k = Some v) \<longleftrightarrow> (\<forall>k v. hm_map tr a k = Some v \<longrightarrow> hm_map tr b k = Some v)"
      by (auto simp: hm_map_values [OF tr wf(1)])
    then show ?thesis by (simp add: map_le_def dom_def) metis
  qed
  have "hm_map tr a = hm_map tr b" if "hm_map tr a \<subseteq>\<^sub>m hm_map tr b" "m_keyCount a = m_keyCount b"
  proof -
    have "dom (hm_map tr a) = dom (hm_map tr b)"
      using that fin by (intro card_subset_eq) (simp_all add: count wf map_le_implies_dom_le)
    with that(1) show ?thesis by (metis map_le_antisym map_le_def)
  qed
  then show ?thesis by (auto simp: hm_equal_def hm_submap_ok [OF tr wf(2)] sub count wf)
qed

section \<open>The contract\<close>

text \<open>\<^verbatim>\<open>find\<close>, compared with \<^verbatim>\<open>end\<close>, and the value behind the iterator.\<close>

definition hm_lookup :: "('k, 'v) HashMapTraits \<Rightarrow> ('k, 'v) HashMap \<Rightarrow> 'k \<Rightarrow> 'v option option" where
  "hm_lookup tr m key = do {
     it \<leftarrow> hm_find tr m key;
     (case it of None \<Rightarrow> Some None | Some i \<Rightarrow> map_option Some (hm_value m i))
   }"

lemma hm_lookup_ok:
  assumes "map_traits tr" "ht_wf tr m"
  shows "hm_lookup tr m key = Some (hm_map tr m key)"
  using hm_find_ok [OF assms, of key] by (auto simp: hm_lookup_def split: option.splits)

locale hash_map =
  fixes inv :: "'m \<Rightarrow> bool" and lookup_value :: "'m \<Rightarrow> 'k \<Rightarrow> 'v option option" and content :: "'m \<Rightarrow> 'k \<Rightarrow> 'v option"
    and none :: 'm and assign :: "'k \<Rightarrow> 'v \<Rightarrow> 'm \<Rightarrow> ('m \<times> nat \<times> bool) option" and discard :: "'m \<Rightarrow> 'm"
  assumes none: "inv none" "content none = Map.empty"
    and lookup_value: "inv m \<Longrightarrow> lookup_value m k = Some (content m k)"
    and assign: "inv m \<Longrightarrow> \<exists>m' i. assign k v m = Some (m', i, content m k = None) \<and> inv m' \<and> content m' = (content m)(k \<mapsto> v)"
    and discard: "inv m \<Longrightarrow> inv (discard m) \<and> content (discard m) = Map.empty"
begin

text \<open>A value is computed once for a key and remembered.\<close>

lemma remember:
  assumes "inv m"
  shows "\<exists>m'. do { r \<leftarrow> lookup_value m k;
      (case r of None \<Rightarrow> do { (m, _) \<leftarrow> assign k v m; Some (m, v, True) } | Some w \<Rightarrow> Some (m, w, False)) } =
      Some (m', case content m k of None \<Rightarrow> v | Some w \<Rightarrow> w, content m k = None) \<and>
    inv m' \<and> content m' = (content m)(k \<mapsto> (case content m k of None \<Rightarrow> v | Some w \<Rightarrow> w))"
proof (cases "content m k")
  case None
  obtain m' i where "assign k v m = Some (m', i, True)" "inv m'" "content m' = (content m)(k \<mapsto> v)"
    using assign [OF assms, of k v] None by auto
  with None show ?thesis by (simp add: lookup_value [OF assms])
next
  case (Some w)
  with assms show ?thesis by (auto simp: lookup_value fun_eq_iff)
qed

end

lemma hash_map_laws:
  "map_traits tr \<Longrightarrow> hash_map (ht_wf tr) (hm_lookup tr) (hm_map tr) ht_empty (hm_set tr) hm_clear"
  by unfold_locales (rule hm_empty hm_lookup_ok hm_set_ok hm_clear_ok; assumption)+

text \<open>\<^verbatim>\<open>HashMap<uint32_t, uint32_t, DefaultHash, UnsignedWithZeroKeyHashTraits>\<close>\<close>

definition flagMapTraits :: "(uint32, nat) HashMapTraits" where
  "flagMapTraits = mapTraits intHash32"

lemma flagMapTraits_ok: "map_traits flagMapTraits"
  by (simp add: flagMapTraits_def map_traits_mapTraits)

interpretation flag_maps: hash_map "ht_wf flagMapTraits" "hm_lookup flagMapTraits" "hm_map flagMapTraits" ht_empty
    "hm_set flagMapTraits" hm_clear
  by (rule hash_map_laws [OF flagMapTraits_ok])

section \<open>Arithmetic of 32 bits\<close>

definition map_fields :: "('k, 'v) HashMapTraits \<Rightarrow> bool" where
  "map_fields tr \<longleftrightarrow> minimum_ok tr \<and> ht_extract tr = fst"

lemma map_traits_ideal: "map_fields tr \<Longrightarrow> map_traits (ideal tr)"
  by (simp add: map_fields_def map_traits_def ideal_traits_ok)

lemma hm_map_ideal [simp]: "hm_map (ideal tr) m = hm_map tr m"
  by (simp add: hm_map_def [abs_def])

lemma hm_find_ideal [simp]: "hm_find (ideal tr) m key = hm_find tr m key"
  by (simp add: hm_find_def)

lemma hm_add_ideal:
  assumes "map_fields tr" "ht_wf tr m" "sizes_fit tr m"
  shows "hm_add tr key v m = hm_add (ideal tr) key v m" "hm_set tr key v m = hm_set (ideal tr) key v m"
proof -
  show "hm_add tr key v m = hm_add (ideal tr) key v m"
    using ht_add_ideal [of tr m key "(key, v)"] assms by (simp add: hm_add_def map_fields_def)
  then show "hm_set tr key v m = hm_set (ideal tr) key v m" by (simp add: hm_set_def)
qed

lemma hm_removeAt_ideal:
  assumes tr: "map_fields tr" and wf: "ht_wf tr m" and fit: "sizes_fit tr m" and it: "hm_find tr m key = Some it"
  shows "hm_removeAt tr it m = hm_removeAt (ideal tr) it m"
proof (cases it)
  case (Some i)
  obtain it' where "hm_find (ideal tr) m key = Some it'"
    "case it' of None \<Rightarrow> hm_map (ideal tr) m key = None
     | Some i \<Rightarrow> \<exists>v. live_at m i (key, v) \<and> hm_value m i = Some v \<and> hm_map (ideal tr) m key = Some v"
    using hm_find_ok [OF map_traits_ideal [OF tr], of m key] wf by auto
  with it Some obtain v where "i < m_tableSize m" "m_table m ! i = Live (key, v)" by (auto simp: live_at_def)
  from ht_removeAt_ideal [OF wf fit this] Some show ?thesis by (simp add: hm_removeAt_def)
qed (simp add: hm_removeAt_def)

lemma hm_remove_ideal:
  assumes "map_fields tr" "ht_wf tr m" "sizes_fit tr m"
  shows "hm_remove tr key m = hm_remove (ideal tr) key m" "hm_take tr e key m = hm_take (ideal tr) e key m"
  using hm_removeAt_ideal [OF assms, of key]
  by (auto simp: hm_remove_def hm_take_def split: Option.bind_splits option.splits)

lemma hm_equal_ideal: "hm_get (ideal tr) e m key = hm_get tr e m key" "hm_equal (ideal tr) m n = hm_equal tr m n"
proof -
  have "hm_submap (ideal tr) kvs n = hm_submap tr kvs n" for kvs
    by (induction tr kvs n rule: hm_submap.induct) (auto split: Option.bind_splits option.splits)
  then show "hm_equal (ideal tr) m n = hm_equal tr m n" by (simp add: hm_equal_def)
qed (simp add: hm_get_def)

text \<open>C23: The operations of \<^verbatim>\<open>HashMap\<close> end on every table that satisfies the invariant, keep the
  invariant and refine those of a partial function: \<^verbatim>\<open>set\<close> is an update and \<^verbatim>\<open>add\<close> an update of a
  missing key, \<^verbatim>\<open>get\<close> and \<^verbatim>\<open>take\<close> read it, \<^verbatim>\<open>remove\<close> and \<^verbatim>\<open>take\<close> delete, and two maps are equal
  exactly if they are the same function, whatever the order of their tables. In the source's
  arithmetic of 32 bits this is so for tables of at most \<open>2 ^ 30\<close> buckets.\<close>

theorem hash_map_refines:
  assumes "map_fields tr" "ht_wf tr m" "sizes_fit tr m" "ht_wf tr n"
  shows "(\<exists>m' i. hm_set tr k v m = Some (m', i, hm_map tr m k = None) \<and> ht_wf tr m' \<and> hm_map tr m' = (hm_map tr m)(k \<mapsto> v)) \<and>
    (\<exists>m' i. hm_add tr k v m = Some (m', i, hm_map tr m k = None) \<and> ht_wf tr m' \<and>
       hm_map tr m' = (if hm_map tr m k = None then (hm_map tr m)(k \<mapsto> v) else hm_map tr m)) \<and>
    (\<exists>m'. hm_remove tr k m = Some (m', hm_map tr m k \<noteq> None) \<and> ht_wf tr m' \<and> hm_map tr m' = (hm_map tr m)(k := None)) \<and>
    (\<exists>m'. hm_take tr e k m = Some (m', case hm_map tr m k of None \<Rightarrow> e | Some w \<Rightarrow> w) \<and> ht_wf tr m' \<and>
       hm_map tr m' = (hm_map tr m)(k := None)) \<and>
    hm_get tr e m k = Some (case hm_map tr m k of None \<Rightarrow> e | Some w \<Rightarrow> w) \<and>
    hm_equal tr m n = Some (hm_map tr m = hm_map tr n)"
proof -
  note ok = map_traits_ideal [OF assms(1)]
  have wf: "ht_wf (ideal tr) m" "ht_wf (ideal tr) n" using assms(2,4) by simp_all
  note * = hm_set_ok [OF ok wf(1), of k v] hm_add_ok [OF ok wf(1), of k v] hm_remove_ok [OF ok wf(1), of k]
    hm_take_ok [OF ok wf(1), of e k] hm_get_ok [OF ok wf(1), of e k] hm_equal_ok [OF ok wf]
  note ** = * [folded hm_add_ideal [OF assms(1-3)] hm_remove_ideal [OF assms(1-3)], unfolded hm_equal_ideal hm_map_ideal ideal_invariant]
  from ** show ?thesis by blast
qed

definition machineFlagMapTraits :: "(uint32, nat) HashMapTraits" where
  "machineFlagMapTraits = flagMapTraits\<lparr>arithmetic := Unsigned32\<rparr>"

lemma machineFlagMapTraits_ok:
  "map_fields machineFlagMapTraits" "sizes_fit machineFlagMapTraits ht_empty" "arithmetic machineFlagMapTraits = Unsigned32"
  by (auto simp: map_fields_def minimum_ok_def sizes_fit_def machineFlagMapTraits_def flagMapTraits_def mapTraits_def
      ht_empty_def pow2_def intro: exI [of _ 3])

theorem hash_map_refines_witness:
  "arithmetic machineFlagMapTraits = Unsigned32 \<and>
   (\<exists>m' i. hm_set machineFlagMapTraits 3 7 ht_empty = Some (m', i, True) \<and> hm_map machineFlagMapTraits m' 3 = Some 7)"
  using hash_map_refines [OF machineFlagMapTraits_ok(1) hm_empty(1) machineFlagMapTraits_ok(2) hm_empty(1), of 3 7 0]
  by (auto simp: hm_empty machineFlagMapTraits_ok(3))

end
