(* ===== verification/ResourceLoadInfo.thy ===== *)
theory ResourceLoadInfo
  imports CE_Prelude
begin

text \<open>
  \<^verbatim>\<open>loader/ResourceLoadInfo.h\<close> and \<^verbatim>\<open>loader/ResourceLoadInfo.cpp\<close>: the kinds of resources and loads, their
  names in rule lists, and the 16 flags of a load. An action is a 64-bit value: 32 bits of
  location, 16 bits of flags, and one bit for an if-domain condition.
\<close>

datatype ResourceType = InvalidResource | Document | Image | StyleSheet | Script | Font | Raw | SVGDocument | Media
  | PlugInStream | Popup

fun resourceType_value :: "ResourceType \<Rightarrow> uint16" where
  "resourceType_value InvalidResource = 0x0000"
| "resourceType_value Document = 0x0001"
| "resourceType_value Image = 0x0002"
| "resourceType_value StyleSheet = 0x0004"
| "resourceType_value Script = 0x0008"
| "resourceType_value Font = 0x0010"
| "resourceType_value Raw = 0x0020"
| "resourceType_value SVGDocument = 0x0040"
| "resourceType_value Media = 0x0080"
| "resourceType_value PlugInStream = 0x0100"
| "resourceType_value Popup = 0x0200"

datatype LoadType = InvalidLoad | FirstParty | ThirdParty

fun loadType_value :: "LoadType \<Rightarrow> uint16" where
  "loadType_value InvalidLoad = 0x0000"
| "loadType_value FirstParty = 0x0400"
| "loadType_value ThirdParty = 0x0800"

definition ResourceTypeMask :: uint16 where "ResourceTypeMask = 0x03FF"
definition LoadTypeMask :: uint16 where "LoadTypeMask = 0x0C00"
definition ActionFlagMask :: uint64 where "ActionFlagMask = 0x0000FFFF00000000"
definition IfDomainFlag :: uint64 where "IfDomainFlag = 0x0001000000000000"

text \<open>\<^verbatim>\<open>CachedResource::Type\<close> with the optional kinds; \<^verbatim>\<open>toResourceType\<close> has no result for the prefetches.\<close>

datatype CachedResourceType = MainResource | ImageResource | CSSStyleSheet | ScriptResource | FontResource | SVGFontResource
  | RawResource | SVGDocumentResource | XSLStyleSheet | LinkPrefetch | LinkSubresource | TextTrackResource

fun toResourceType :: "CachedResourceType \<Rightarrow> ResourceType option" where
  "toResourceType MainResource = Some Document"
| "toResourceType SVGDocumentResource = Some SVGDocument"
| "toResourceType ImageResource = Some Image"
| "toResourceType CSSStyleSheet = Some StyleSheet"
| "toResourceType XSLStyleSheet = Some StyleSheet"
| "toResourceType ScriptResource = Some Script"
| "toResourceType FontResource = Some Font"
| "toResourceType SVGFontResource = Some Font"
| "toResourceType RawResource = Some Raw"
| "toResourceType TextTrackResource = Some Media"
| "toResourceType _ = None"

definition readResourceType :: "string \<Rightarrow> uint16" where
  "readResourceType name =
     (if name = ''document'' then resourceType_value Document
      else if name = ''image'' then resourceType_value Image
      else if name = ''style-sheet'' then resourceType_value StyleSheet
      else if name = ''script'' then resourceType_value Script
      else if name = ''font'' then resourceType_value Font
      else if name = ''raw'' then resourceType_value Raw
      else if name = ''svg-document'' then resourceType_value SVGDocument
      else if name = ''media'' then resourceType_value Media
      else if name = ''popup'' then resourceType_value Popup
      else resourceType_value InvalidResource)"

definition readLoadType :: "string \<Rightarrow> uint16" where
  "readLoadType name =
     (if name = ''first-party'' then loadType_value FirstParty
      else if name = ''third-party'' then loadType_value ThirdParty
      else loadType_value InvalidLoad)"

text \<open>The comparison of the security origins of two URLs is a parameter.\<close>

record ResourceLoadInfo =
  resourceURL :: string
  mainDocumentURL :: string
  rli_type :: ResourceType

definition isThirdParty :: "(string \<Rightarrow> string \<Rightarrow> bool) \<Rightarrow> ResourceLoadInfo \<Rightarrow> bool" where
  "isThirdParty canAccess info = (\<not> canAccess (mainDocumentURL info) (resourceURL info))"

definition getResourceFlags :: "(string \<Rightarrow> string \<Rightarrow> bool) \<Rightarrow> ResourceLoadInfo \<Rightarrow> uint16" where
  "getResourceFlags canAccess info =
     (let flags = 0;
          flags = flags OR resourceType_value (rli_type info);
          flags = flags OR (if isThirdParty canAccess info then loadType_value ThirdParty else loadType_value FirstParty)
      in flags)"

section \<open>Flags\<close>

lemma resourceType_bits:
  "resourceType_value t AND ResourceTypeMask = resourceType_value t" "resourceType_value t AND LoadTypeMask = 0"
  by (cases t; simp add: ResourceTypeMask_def LoadTypeMask_def)+

lemma loadType_bits:
  "loadType_value l AND LoadTypeMask = loadType_value l" "loadType_value l AND ResourceTypeMask = 0"
  by (cases l; simp add: ResourceTypeMask_def LoadTypeMask_def)+

lemma read_bits: "readResourceType name AND LoadTypeMask = 0" "readLoadType name AND ResourceTypeMask = 0"
  unfolding readResourceType_def readLoadType_def if_distrib [of resourceType_value, symmetric]
    if_distrib [of loadType_value, symmetric] by (rule resourceType_bits loadType_bits)+

end
