(* ===== verification/ContentExtensionRule.thy ===== *)
theory ContentExtensionRule
  imports WTFString DFABytecode HashMap ResourceLoadInfo
begin

text \<open>
  \<^verbatim>\<open>ContentExtensionRule.h\<close>, \<^verbatim>\<open>ContentExtensionRule.cpp\<close> and \<^verbatim>\<open>ContentExtensionActions.h\<close>: rules with their
  triggers and actions, the hash of a trigger, and reading an action back from its bytes. A release
  assertion that fails and a read outside of the bytes are \<open>None\<close>.
\<close>

section \<open>Triggers\<close>

datatype DomainCondition = NoDomainCondition | IfDomain | UnlessDomain

text \<open>The strings of a trigger are compared and hashed by their characters only; a null filter is \<open>None\<close>.\<close>

record Trigger =
  urlFilter :: "UChar list option"
  urlFilterIsCaseSensitive :: bool
  triggerFlags :: uint16
  domains :: "UChar list list"
  domainCondition :: DomainCondition

definition newTrigger :: Trigger where
  "newTrigger = \<lparr>urlFilter = None, urlFilterIsCaseSensitive = False, triggerFlags = 0, domains = [],
     domainCondition = NoDomainCondition\<rparr>"

definition trigger_isEmpty :: "Trigger \<Rightarrow> bool" where
  "trigger_isEmpty t \<longleftrightarrow> (urlFilter t = None \<or> urlFilter t = Some []) \<and> \<not> urlFilterIsCaseSensitive t \<and>
     triggerFlags t = 0 \<and> domains t = [] \<and> domainCondition t = NoDomainCondition"

text \<open>The second branch tests \<^verbatim>\<open>IfDomain\<close> again, as the source does.\<close>

definition triggerHash :: "Trigger \<Rightarrow> uint32" where
  "triggerHash t =
     (let hash = (if urlFilterIsCaseSensitive t then 10619863 else 40960001);
          hash = (case urlFilter t of None \<Rightarrow> hash | Some s \<Rightarrow> hash XOR stringHash s);
          hash = pairIntHash hash (intHash32 (ucast (triggerFlags t)));
          hash = fold (\<lambda>domain hash. hash XOR stringHash domain) (domains t) hash
      in if domainCondition t = IfDomain then hash OR push_bit 16 1
         else if domainCondition t = IfDomain then hash OR push_bit 31 1
         else hash)"

section \<open>Actions\<close>

datatype ActionType = BlockLoad | BlockCookies | CSSDisplayNoneSelector | CSSDisplayNoneStyleSheet
  | IgnorePreviousRules | InvalidAction

fun actionType_value :: "ActionType \<Rightarrow> byte" where
  "actionType_value BlockLoad = 0"
| "actionType_value BlockCookies = 1"
| "actionType_value CSSDisplayNoneSelector = 2"
| "actionType_value CSSDisplayNoneStyleSheet = 3"
| "actionType_value IgnorePreviousRules = 4"
| "actionType_value InvalidAction = 5"

text \<open>\<^verbatim>\<open>m_actionID\<close> is the location of the action, a 32-bit number.\<close>

record Action =
  m_extensionIdentifier :: String
  m_type :: ActionType
  m_actionID :: nat
  m_stringArgument :: String

definition invalidActionID :: nat where
  "invalidActionID = 2 ^ 32 - 1"

definition newAction :: "ActionType \<Rightarrow> nat \<Rightarrow> Action" where
  "newAction type actionID = \<lparr>m_extensionIdentifier = NullString, m_type = type, m_actionID = actionID, m_stringArgument = NullString\<rparr>"

definition newStringAction :: "ActionType \<Rightarrow> String \<Rightarrow> nat \<Rightarrow> Action" where
  "newStringAction type stringArgument actionID =
     \<lparr>m_extensionIdentifier = NullString, m_type = type, m_actionID = actionID, m_stringArgument = stringArgument\<rparr>"

definition setExtensionIdentifier :: "String \<Rightarrow> Action \<Rightarrow> Action" where
  "setExtensionIdentifier identifier a = a\<lparr>m_extensionIdentifier := identifier\<rparr>"

definition action_equal :: "Action \<Rightarrow> Action \<Rightarrow> bool" where
  "action_equal a b \<longleftrightarrow> m_type a = m_type b \<and>
     string_content (m_extensionIdentifier a) = string_content (m_extensionIdentifier b) \<and>
     m_actionID a = m_actionID b \<and> string_content (m_stringArgument a) = string_content (m_stringArgument b)"

record ContentExtensionRule =
  m_trigger :: Trigger
  m_action :: Action

section \<open>Reading actions\<close>

text \<open>The header of a selector: its type, its length and its width. The location wraps at 32 bits.\<close>

definition headerLength :: nat where
  "headerLength = 1 + 4 + 1"

definition selectorHeader :: "byte list \<Rightarrow> nat \<Rightarrow> (nat \<times> nat \<times> bool) option" where
  "selectorHeader actions location = do {
     let stringStartIndex = (location + headerLength) mod 2 ^ 32;
     if length actions \<ge> stringStartIndex then do {
       len \<leftarrow> getBits 4 actions (location + 1);
       wide \<leftarrow> getBits 1 actions (location + 1 + 4);
       Some (stringStartIndex, nat (unsignedOf len), unsignedOf wide \<noteq> 0)
     }
     else None
   }"

fun readChars :: "byte list \<Rightarrow> UChar list" where
  "readChars (a # b # rest) = word_of_int (unsignedOf [a, b]) # readChars rest"
| "readChars _ = []"

definition actionTypeAt :: "byte list \<Rightarrow> nat \<Rightarrow> byte option" where
  "actionTypeAt actions location = (if location < length actions then Some (actions ! location) else None)"

text \<open>Characters of 16 bits are read as a 16-bit string. For none of them the source gives the shared empty
  string, which has 8 bits; since no empty string has 16 bits, \<^verbatim>\<open>serializeSelector\<close> never writes that case.\<close>

definition deserializeSelector :: "byte list \<Rightarrow> nat \<Rightarrow> Action option" where
  "deserializeSelector actions location = do {
     (stringStartIndex, selectorLength, wideCharacters) \<leftarrow> selectorHeader actions location;
     if wideCharacters then do {
       bytes \<leftarrow> getBits (selectorLength * 2) actions stringStartIndex;
       Some (newStringAction CSSDisplayNoneSelector (String16 (readChars bytes)) location)
     }
     else do {
       bytes \<leftarrow> getBits selectorLength actions stringStartIndex;
       Some (newStringAction CSSDisplayNoneSelector (String8 bytes) location)
     }
   }"

definition deserialize :: "byte list \<Rightarrow> nat \<Rightarrow> Action option" where
  "deserialize actions location = do {
     t \<leftarrow> actionTypeAt actions location;
     if t = actionType_value BlockCookies then Some (newAction BlockCookies location)
     else if t = actionType_value BlockLoad then Some (newAction BlockLoad location)
     else if t = actionType_value IgnorePreviousRules then Some (newAction IgnorePreviousRules location)
     else if t = actionType_value CSSDisplayNoneSelector then deserializeSelector actions location
     else None
   }"

definition deserializeType :: "byte list \<Rightarrow> nat \<Rightarrow> ActionType option" where
  "deserializeType actions location = do {
     t \<leftarrow> actionTypeAt actions location;
     if t = actionType_value BlockCookies then Some BlockCookies
     else if t = actionType_value BlockLoad then Some BlockLoad
     else if t = actionType_value IgnorePreviousRules then Some IgnorePreviousRules
     else if t = actionType_value CSSDisplayNoneSelector then Some CSSDisplayNoneSelector
     else None
   }"

definition serializedLength :: "byte list \<Rightarrow> nat \<Rightarrow> nat option" where
  "serializedLength actions location = do {
     t \<leftarrow> actionTypeAt actions location;
     if t = actionType_value BlockCookies \<or> t = actionType_value BlockLoad \<or> t = actionType_value IgnorePreviousRules then Some 1
     else if t = actionType_value CSSDisplayNoneSelector then do {
       (stringStartIndex, selectorLength, wideCharacters) \<leftarrow> selectorHeader actions location;
       Some ((headerLength + selectorLength * (if wideCharacters then 2 else 1)) mod 2 ^ 32)
     }
     else None
   }"

section \<open>Triggers as keys\<close>

definition triggerMapTraits :: "(Trigger, 'v) HashMapTraits" where
  "triggerMapTraits = mapTraits triggerHash"

lemma triggerMapTraits_ok: "map_traits triggerMapTraits"
  by (simp add: triggerMapTraits_def map_traits_mapTraits)

interpretation trigger_maps: hash_map "ht_wf triggerMapTraits" "hm_lookup triggerMapTraits" "hm_map triggerMapTraits" ht_empty
    "hm_set triggerMapTraits" hm_clear
  by (rule hash_map_laws [OF triggerMapTraits_ok])

end
