(* ===== verification/ActionSerializer.thy ===== *)
theory ActionSerializer
  imports ContentExtensionRule
begin

text \<open>
  The first part of \<^verbatim>\<open>ContentExtensionCompiler.cpp\<close>: the actions of a rule list are written to a byte
  vector, and every rule gets the location of its action. Rules share an action where the order
  between them does not matter, that is between two rules that ignore the previous ones.
\<close>

section \<open>Operations\<close>

definition serializeSelector :: "byte list \<Rightarrow> String \<Rightarrow> byte list option" where
  "serializeSelector actions selector = do {
     eightBit \<leftarrow> is8Bit selector;
     let selectorLength = string_length selector;
     let wideCharacters = \<not> eightBit;
     let actions = actions @ [actionType_value CSSDisplayNoneSelector];
     let actions = actions @ bytesOf 4 (int selectorLength);
     let actions = actions @ [if wideCharacters then 1 else 0];
     Some (actions @
       (if wideCharacters then concat (map (\<lambda>c. bytesOf 2 (uint c)) (string_chars selector))
        else map ucast (string_chars selector)))
   }"

record PendingDisplayNoneActions =
  selectors :: "String list"
  clientLocations :: "nat list"

type_synonym PendingDisplayNoneActionsMap = "(Trigger, PendingDisplayNoneActions) HashMap"

text \<open>The selectors of a slot, separated by commas.\<close>

fun combineSelectors :: "nat \<Rightarrow> String list \<Rightarrow> StringBuilder \<Rightarrow> StringBuilder option" where
  "combineSelectors i [] combinedSelectors = Some combinedSelectors"
| "combineSelectors i (s # rest) combinedSelectors = do {
     combinedSelectors \<leftarrow> (if i \<noteq> 0 then sb_appendChar 44 combinedSelectors else Some combinedSelectors);
     combinedSelectors \<leftarrow> sb_appendString s combinedSelectors;
     combineSelectors (i + 1) rest combinedSelectors
   }"

fun assignLocations :: "nat list \<Rightarrow> nat \<Rightarrow> nat list \<Rightarrow> nat list option" where
  "assignLocations [] actionLocation actionLocations = Some actionLocations"
| "assignLocations (c # rest) actionLocation actionLocations =
     (if c < length actionLocations then assignLocations rest actionLocation (actionLocations[c := actionLocation]) else None)"

fun resolvePending_loop ::
  "(Trigger \<times> PendingDisplayNoneActions) list \<Rightarrow> byte list \<Rightarrow> nat list \<Rightarrow> (byte list \<times> nat list) option" where
  "resolvePending_loop [] actions actionLocations = Some (actions, actionLocations)"
| "resolvePending_loop ((_, pendingActions) # rest) actions actionLocations = do {
     combinedSelectors \<leftarrow> combineSelectors 0 (selectors pendingActions) newStringBuilder;
     let actionLocation = length actions;
     actions \<leftarrow> serializeSelector actions (sb_toString combinedSelectors);
     actionLocations \<leftarrow> assignLocations (clientLocations pendingActions) actionLocation actionLocations;
     resolvePending_loop rest actions actionLocations
   }"

definition resolvePendingDisplayNoneActions ::
  "byte list \<Rightarrow> nat list \<Rightarrow> PendingDisplayNoneActionsMap \<Rightarrow> (byte list \<times> nat list \<times> PendingDisplayNoneActionsMap) option" where
  "resolvePendingDisplayNoneActions actions actionLocations pendingDisplayNoneActionsMap = do {
     (actions, actionLocations) \<leftarrow> resolvePending_loop (ht_values pendingDisplayNoneActionsMap) actions actionLocations;
     Some (actions, actionLocations, hm_clear pendingDisplayNoneActionsMap)
   }"

record Serializer =
  ser_actions :: "byte list"
  actionLocations :: "nat list"
  blockActionsMap :: "(uint32, nat) HashMap"
  blockCookiesActionsMap :: "(uint32, nat) HashMap"
  cssDisplayNoneActionsMap :: PendingDisplayNoneActionsMap
  ignorePreviousRuleActionsMap :: "(uint32, nat) HashMap"

definition newSerializer :: Serializer where
  "newSerializer = \<lparr>ser_actions = [], actionLocations = [], blockActionsMap = ht_empty, blockCookiesActionsMap = ht_empty,
     cssDisplayNoneActionsMap = ht_empty, ignorePreviousRuleActionsMap = ht_empty\<rparr>"

text \<open>An action is found by its flags, or written and remembered; the result is the map, the location and
  whether the action is new.\<close>

definition shareAction :: "uint32 \<Rightarrow> nat \<Rightarrow> (uint32, nat) HashMap \<Rightarrow> ((uint32, nat) HashMap \<times> nat \<times> bool) option" where
  "shareAction flags nextLocation actionsMap = do {
     existingAction \<leftarrow> hm_lookup flagMapTraits actionsMap flags;
     (case existingAction of
        None \<Rightarrow> do { (actionsMap, _) \<leftarrow> hm_set flagMapTraits flags nextLocation actionsMap; Some (actionsMap, nextLocation, True) }
      | Some actionLocation \<Rightarrow> Some (actionsMap, actionLocation, False))
   }"

text \<open>An empty trigger marks an empty bucket of the map (\<^verbatim>\<open>TriggerHashTraits::isEmptyValue\<close>) and cannot be a
  key, as \<^verbatim>\<open>HashTable\<close> asserts: that is \<open>None\<close>.\<close>

definition addPendingSelector ::
  "Trigger \<Rightarrow> String \<Rightarrow> nat \<Rightarrow> PendingDisplayNoneActionsMap \<Rightarrow> PendingDisplayNoneActionsMap option" where
  "addPendingSelector trigger selector clientLocation m = (if trigger_isEmpty trigger then None else do {
     (m, i, _) \<leftarrow> hm_add triggerMapTraits trigger \<lparr>selectors = [], clientLocations = []\<rparr> m;
     pending \<leftarrow> hm_value m i;
     hm_assign i \<lparr>selectors = selectors pending @ [selector], clientLocations = clientLocations pending @ [clientLocation]\<rparr> m
   })"

definition noLocation :: nat where
  "noLocation = 2 ^ 32 - 1"

definition writtenAction :: "bool \<Rightarrow> ActionType \<Rightarrow> byte list \<Rightarrow> byte list" where
  "writtenAction isNew type actions = (if isNew then actions @ [actionType_value type] else actions)"

definition beforeRule :: "ActionType \<Rightarrow> Serializer \<Rightarrow> Serializer option" where
  "beforeRule actionType st =
     (if actionType = IgnorePreviousRules then do {
        (actions, locations, css) \<leftarrow>
          resolvePendingDisplayNoneActions (ser_actions st) (actionLocations st) (cssDisplayNoneActionsMap st);
        Some (st\<lparr>ser_actions := actions, actionLocations := locations, blockActionsMap := hm_clear (blockActionsMap st),
          blockCookiesActionsMap := hm_clear (blockCookiesActionsMap st), cssDisplayNoneActionsMap := hm_clear css\<rparr>)
      }
      else Some (st\<lparr>ignorePreviousRuleActionsMap := hm_clear (ignorePreviousRuleActionsMap st)\<rparr>))"

definition serializeWithDomain :: "ActionType \<Rightarrow> String \<Rightarrow> Serializer \<Rightarrow> Serializer option" where
  "serializeWithDomain actionType selector st = do {
     let location = length (ser_actions st);
     actions \<leftarrow>
       (if actionType = CSSDisplayNoneSelector then serializeSelector (ser_actions st) selector
        else Some (ser_actions st @ [actionType_value actionType]));
     Some (st\<lparr>actionLocations := actionLocations st @ [location], ser_actions := actions\<rparr>)
   }"

fun serializeShared :: "ActionType \<Rightarrow> Trigger \<Rightarrow> String \<Rightarrow> Serializer \<Rightarrow> Serializer option" where
  "serializeShared CSSDisplayNoneSelector trigger selector st = do {
     css \<leftarrow> addPendingSelector trigger selector (length (actionLocations st)) (cssDisplayNoneActionsMap st);
     Some (st\<lparr>cssDisplayNoneActionsMap := css, actionLocations := actionLocations st @ [noLocation]\<rparr>)
   }"
| "serializeShared IgnorePreviousRules trigger selector st = do {
     (m, location, isNew) \<leftarrow> shareAction (ucast (triggerFlags trigger)) (length (ser_actions st)) (ignorePreviousRuleActionsMap st);
     Some (st\<lparr>ignorePreviousRuleActionsMap := m, ser_actions := writtenAction isNew IgnorePreviousRules (ser_actions st),
       actionLocations := actionLocations st @ [location]\<rparr>)
   }"
| "serializeShared BlockLoad trigger selector st = do {
     (m, location, isNew) \<leftarrow> shareAction (ucast (triggerFlags trigger)) (length (ser_actions st)) (blockActionsMap st);
     Some (st\<lparr>blockActionsMap := m, ser_actions := writtenAction isNew BlockLoad (ser_actions st),
       actionLocations := actionLocations st @ [location]\<rparr>)
   }"
| "serializeShared BlockCookies trigger selector st = do {
     (m, location, isNew) \<leftarrow> shareAction (ucast (triggerFlags trigger)) (length (ser_actions st)) (blockCookiesActionsMap st);
     Some (st\<lparr>blockCookiesActionsMap := m, ser_actions := writtenAction isNew BlockCookies (ser_actions st),
       actionLocations := actionLocations st @ [location]\<rparr>)
   }"
| "serializeShared _ trigger selector st = None"

definition serializeRule :: "ContentExtensionRule \<Rightarrow> Serializer \<Rightarrow> Serializer option" where
  "serializeRule rule st = do {
     let actionType = m_type (m_action rule);
     let trigger = m_trigger rule;
     let selector = m_stringArgument (m_action rule);
     if actionType = CSSDisplayNoneStyleSheet \<or> actionType = InvalidAction then None
     else do {
       st \<leftarrow> beforeRule actionType st;
       if domains trigger \<noteq> [] then serializeWithDomain actionType selector st
       else serializeShared actionType trigger selector st
     }
   }"

fun serializeRules :: "ContentExtensionRule list \<Rightarrow> Serializer \<Rightarrow> Serializer option" where
  "serializeRules [] st = Some st"
| "serializeRules (rule # rest) st = do { st \<leftarrow> serializeRule rule st; serializeRules rest st }"

definition serializeActions :: "ContentExtensionRule list \<Rightarrow> (nat list \<times> byte list) option" where
  "serializeActions ruleList = do {
     st \<leftarrow> serializeRules ruleList newSerializer;
     (actions, locations, _) \<leftarrow>
       resolvePendingDisplayNoneActions (ser_actions st) (actionLocations st) (cssDisplayNoneActionsMap st);
     Some (locations, actions)
   }"

section \<open>Writing and reading a selector\<close>

lemma readChars_bytes: "readChars (concat (map (\<lambda>c. bytesOf 2 (uint c)) cs)) = cs"
proof (induction cs)
  case (Cons c cs)
  have "0 \<le> uint c" "uint c < 256 ^ 2" using uint_lt2p [of c] by simp_all
  then have u: "unsignedOf (bytesOf 2 (uint c)) = uint c" by (intro unsignedOf_id) simp_all
  obtain a b where ab: "bytesOf 2 (uint c) = [a, b]" by (simp add: numeral_2_eq_2)
  then show ?case using Cons.IH u by simp
qed simp

lemma length_wide_bytes: "length (concat (map (\<lambda>c. bytesOf 2 (uint c)) cs)) = length cs * 2"
  by (induction cs) simp_all

definition selectorBytes :: "String \<Rightarrow> byte list" where
  "selectorBytes s = [actionType_value CSSDisplayNoneSelector] @ bytesOf 4 (int (string_length s)) @
     (if is8Bit s = Some False then [1] @ concat (map (\<lambda>c. bytesOf 2 (uint c)) (string_chars s))
      else [0] @ map ucast (string_chars s))"

lemma serializeSelector_bytes: "s \<noteq> NullString \<Longrightarrow> serializeSelector actions s = Some (actions @ selectorBytes s)"
  by (cases s) (simp_all add: serializeSelector_def selectorBytes_def Let_def)

lemma length_selectorBytes: "length (selectorBytes s) = 6 + string_length s * (if is8Bit s = Some False then 2 else 1)"
  by (simp add: selectorBytes_def string_length_def length_wide_bytes)

lemma selectorHeader_bytes:
  assumes "length pre + length (selectorBytes s) < 2 ^ 32"
  shows "selectorHeader (pre @ selectorBytes s @ post) (length pre) = Some (length pre + 6, string_length s, is8Bit s = Some False)"
proof -
  let ?w = "if is8Bit s = Some False then 1 else 0 :: byte"
  let ?cs = "if is8Bit s = Some False then concat (map (\<lambda>c. bytesOf 2 (uint c)) (string_chars s)) else map ucast (string_chars s)"
  have b: "pre @ selectorBytes s @ post = (pre @ [actionType_value CSSDisplayNoneSelector]) @ bytesOf 4 (int (string_length s)) @ ([?w] @ ?cs @ post)"
    "pre @ selectorBytes s @ post = (pre @ [actionType_value CSSDisplayNoneSelector] @ bytesOf 4 (int (string_length s))) @ [?w] @ (?cs @ post)"
    by (simp_all add: selectorBytes_def del: bytesOf.simps)
  have 1: "getBits 4 (pre @ selectorBytes s @ post) (length pre + 1) = Some (bytesOf 4 (int (string_length s)))"
    unfolding b(1) by (rule getBits_at) simp_all
  have 2: "getBits 1 (pre @ selectorBytes s @ post) (length pre + 1 + 4) = Some [?w]"
    unfolding b(2) by (rule getBits_at) simp_all
  have len: "string_length s < 2 ^ 32" "length pre + 6 < 2 ^ 32" using assms by (auto simp: length_selectorBytes split: if_splits)
  have 3: "nat (unsignedOf (bytesOf 4 (int (string_length s)))) = string_length s" using unsignedOf_id [of "int (string_length s)" 4] len by simp
  have 4: "(length pre + headerLength) mod 2 ^ 32 = length pre + 6" using len by (simp add: headerLength_def)
  show ?thesis unfolding selectorHeader_def Let_def 1 2 4 by (simp add: length_selectorBytes 3)
qed

lemma widen_byte: "ucast (ucast (c :: LChar) :: UChar) = c"
  by (rule bit_eqI) (simp add: bit_simps)

lemma deserialize_selector:
  assumes "s \<noteq> NullString" "length pre + length (selectorBytes s) < 2 ^ 32"
  shows "deserialize (pre @ selectorBytes s @ post) (length pre) = Some (newStringAction CSSDisplayNoneSelector s (length pre))"
    "deserializeType (pre @ selectorBytes s @ post) (length pre) = Some CSSDisplayNoneSelector"
    "serializedLength (pre @ selectorBytes s @ post) (length pre) = Some (length (selectorBytes s))"
proof -
  have t: "actionTypeAt (pre @ selectorBytes s @ post) (length pre) = Some (actionType_value CSSDisplayNoneSelector)"
    by (simp add: actionTypeAt_def selectorBytes_def nth_append)
  note h = selectorHeader_bytes [OF assms(2)]
  let ?hd = "pre @ [actionType_value CSSDisplayNoneSelector] @ bytesOf 4 (int (string_length s))"
  show "deserialize (pre @ selectorBytes s @ post) (length pre) = Some (newStringAction CSSDisplayNoneSelector s (length pre))"
  proof (cases s)
    case (String8 cs)
    have "pre @ selectorBytes s @ post = (?hd @ [0]) @ cs @ post" by (simp add: String8 selectorBytes_def comp_def widen_byte)
    then have "getBits (string_length s) (pre @ selectorBytes s @ post) (length pre + 6) = Some cs"
      by (simp only:) (rule getBits_at, simp_all add: String8 string_length_def)
    then show ?thesis by (simp add: deserialize_def deserializeSelector_def t [unfolded String8] h [unfolded String8] String8)
  next
    case (String16 cs)
    have "pre @ selectorBytes s @ post = (?hd @ [1]) @ concat (map (\<lambda>c. bytesOf 2 (uint c)) cs) @ post" by (simp add: String16 selectorBytes_def)
    then have "getBits (string_length s * 2) (pre @ selectorBytes s @ post) (length pre + 6) = Some (concat (map (\<lambda>c. bytesOf 2 (uint c)) cs))"
      by (simp only:) (rule getBits_at, simp_all add: String16 string_length_def length_wide_bytes)
    then show ?thesis by (simp add: deserialize_def deserializeSelector_def t [unfolded String16] h [unfolded String16] String16 readChars_bytes)
  qed (use assms(1) in simp)
  show "deserializeType (pre @ selectorBytes s @ post) (length pre) = Some CSSDisplayNoneSelector" by (simp add: deserializeType_def t)
  show "serializedLength (pre @ selectorBytes s @ post) (length pre) = Some (length (selectorBytes s))"
    using assms(2) by (auto simp: serializedLength_def t h headerLength_def length_selectorBytes split: if_splits)
qed

text \<open>What was written stays readable when more is written.\<close>

lemma getBits_append: "getBits n as i = Some bs \<Longrightarrow> getBits n (as @ extra) i = Some bs"
  by (auto simp: getBits_def split: if_splits)

lemma selectorHeader_append: "selectorHeader as i = Some h \<Longrightarrow> selectorHeader (as @ extra) i = Some h"
  by (auto simp: selectorHeader_def Let_def getBits_append split: if_splits bind_splits)

lemma deserializeSelector_append:
  assumes "deserializeSelector as i = Some a"
  shows "deserializeSelector (as @ extra) i = Some a"
proof -
  obtain start n wide where h: "selectorHeader as i = Some (start, n, wide)"
    using assms unfolding deserializeSelector_def by (cases "selectorHeader as i") auto
  show ?thesis
  proof (cases wide)
    case True
    obtain bytes where "getBits (n * 2) as start = Some bytes"
      using assms h True unfolding deserializeSelector_def by (cases "getBits (n * 2) as start") auto
    with assms h True show ?thesis by (simp add: deserializeSelector_def selectorHeader_append getBits_append)
  next
    case False
    obtain bytes where "getBits n as start = Some bytes"
      using assms h False unfolding deserializeSelector_def by (cases "getBits n as start") auto
    with assms h False show ?thesis by (simp add: deserializeSelector_def selectorHeader_append getBits_append)
  qed
qed

lemma deserialize_append: "deserialize as i = Some a \<Longrightarrow> deserialize (as @ extra) i = Some a"
  by (auto simp: deserialize_def actionTypeAt_def nth_append deserializeSelector_append split: if_splits)

lemma deserialize_in: "deserialize as i = Some a \<Longrightarrow> i < length as"
  by (auto simp: deserialize_def actionTypeAt_def split: if_splits)

lemma deserialize_plain:
  assumes "t = BlockLoad \<or> t = BlockCookies \<or> t = IgnorePreviousRules"
  shows "deserialize (as @ actionType_value t # extra) (length as) = Some (newAction t (length as))"
  using assms by (auto simp: deserialize_def actionTypeAt_def nth_append)

section \<open>Sequences of actions\<close>

definition plain :: "ActionType \<Rightarrow> bool" where
  "plain k \<longleftrightarrow> k = BlockLoad \<or> k = BlockCookies \<or> k = IgnorePreviousRules"

definition is_action :: "byte list \<Rightarrow> bool" where
  "is_action bs \<longleftrightarrow> (\<exists>k. plain k \<and> bs = [actionType_value k]) \<or> (\<exists>s. s \<noteq> NullString \<and> bs = selectorBytes s \<and> length bs < 2 ^ 32)"

inductive action_seq :: "byte list \<Rightarrow> bool" where
  none: "action_seq []"
| more: "action_seq bs \<Longrightarrow> is_action a \<Longrightarrow> action_seq (bs @ a)"

lemma action_seq_plain: "action_seq bs \<Longrightarrow> plain k \<Longrightarrow> action_seq (bs @ [actionType_value k])"
  by (rule more) (auto simp: is_action_def)

definition plain_at :: "byte list \<Rightarrow> nat \<Rightarrow> ActionType \<Rightarrow> bool" where
  "plain_at actions L k \<longleftrightarrow> action_seq (take L actions) \<and> deserialize actions L = Some (newAction k L)"

lemma plain_at_append: "plain_at actions L k \<Longrightarrow> plain_at (actions @ extra) L k"
  using deserialize_in [of actions L] by (auto simp: plain_at_def deserialize_append)

section \<open>Combining selectors\<close>

fun join_commas :: "UChar list list \<Rightarrow> UChar list" where
  "join_commas [] = []"
| "join_commas (s # rest) = s @ concat (map (\<lambda>s. 44 # s) rest)"

lemma sb_appendChar_ok:
  assumes "length (sb_chars b) + 1 < 2 ^ 32" "sb_wf b"
  shows "\<exists>b'. sb_appendChar c b = Some b' \<and> sb_wf b' \<and> sb_chars b' = sb_chars b @ [ucast c]"
  using sb_append8_ok [of "[c]" b] assms by (simp add: sb_appendChar_def)

lemma combineSelectors_later:
  assumes "sb_wf b" "length (sb_chars b) + sum_list (map (\<lambda>s. string_length s + 1) ss) < 2 ^ 32" "0 < i"
  shows "\<exists>b'. combineSelectors i ss b = Some b' \<and> sb_wf b' \<and> sb_chars b' = sb_chars b @ concat (map (\<lambda>s. 44 # string_chars s) ss)"
  using assms
proof (induction ss arbitrary: i b)
  case (Cons s ss)
  obtain b1 where b1: "sb_appendChar 44 b = Some b1" "sb_wf b1" "sb_chars b1 = sb_chars b @ [44]"
    using sb_appendChar_ok [of b 44] Cons.prems by auto
  obtain b2 where b2: "sb_appendString s b1 = Some b2" "sb_wf b2" "sb_chars b2 = sb_chars b1 @ string_chars s"
    using sb_appendString_ok [of s b1] b1 Cons.prems by auto
  have len: "length (sb_chars b2) + sum_list (map (\<lambda>s. string_length s + 1) ss) < 2 ^ 32" using Cons.prems b1(3) b2(3) by (simp add: string_length_def)
  obtain b' where "combineSelectors (i + 1) ss b2 = Some b'" "sb_wf b'" "sb_chars b' = sb_chars b2 @ concat (map (\<lambda>s. 44 # string_chars s) ss)"
    using Cons.IH [OF b2(2) len, of "i + 1"] by auto
  with b1 b2 Cons.prems(3) show ?case by simp
qed simp

lemma combineSelectors_ok:
  assumes "sum_list (map (\<lambda>s. string_length s + 1) ss) < 2 ^ 32"
  shows "\<exists>b. combineSelectors 0 ss newStringBuilder = Some b \<and> sb_wf b \<and> sb_chars b = join_commas (map string_chars ss)"
proof (cases ss)
  case (Cons s rest)
  obtain b1 where b1: "sb_appendString s newStringBuilder = Some b1" "sb_wf b1" "sb_chars b1 = string_chars s"
    using sb_appendString_ok [of s newStringBuilder] assms Cons by (auto simp: sb_new)
  have "length (sb_chars b1) + sum_list (map (\<lambda>s. string_length s + 1) rest) < 2 ^ 32" using assms Cons b1(3) by (simp add: string_length_def)
  from combineSelectors_later [OF b1(2) this, of 1] b1 Cons show ?thesis by (auto simp: comp_def)
qed (simp add: sb_new)

lemma length_join: "length (join_commas (map string_chars ss)) \<le> sum_list (map (\<lambda>s. string_length s + 1) ss)"
proof -
  have "length (concat (map (\<lambda>s. 44 # s) (map string_chars ss))) = sum_list (map (\<lambda>s. string_length s + 1) ss)" for ss
    by (induction ss) (simp_all add: string_length_def)
  then show ?thesis by (cases ss) (simp_all add: string_length_def)
qed

section \<open>Resolving the pending selectors\<close>

definition slot_cost :: "PendingDisplayNoneActions \<Rightarrow> nat" where
  "slot_cost p = 6 + sum_list (map (\<lambda>s. 2 * string_length s + 2) (selectors p))"

lemma assignLocations_ok:
  assumes "\<forall>c \<in> set cs. c < length locs"
  shows "\<exists>locs'. assignLocations cs L locs = Some locs' \<and> length locs' = length locs \<and>
    (\<forall>c < length locs. locs' ! c = (if c \<in> set cs then L else locs ! c))"
  using assms
proof (induction cs arbitrary: locs)
  case (Cons c cs)
  then have c: "c < length locs" by simp
  obtain locs' where "assignLocations cs L (locs[c := L]) = Some locs'" "length locs' = length locs"
    "\<forall>d < length locs. locs' ! d = (if d \<in> set cs then L else locs[c := L] ! d)"
    using Cons.IH [of "locs[c := L]"] Cons.prems by auto
  with c show ?case by (auto simp: nth_list_update)
qed simp

lemma serialize_slot:
  assumes "length actions + slot_cost p < 2 ^ 32"
  shows "\<exists>b s extra. combineSelectors 0 (selectors p) newStringBuilder = Some b \<and> s = sb_toString b \<and>
    serializeSelector actions s = Some (actions @ extra) \<and> length extra \<le> slot_cost p \<and> 0 < length extra \<and> is_action extra \<and>
    deserialize (actions @ extra) (length actions) = Some (newStringAction CSSDisplayNoneSelector s (length actions)) \<and>
    string_chars s = join_commas (map string_chars (selectors p))"
proof -
  let ?n = "sum_list (map (\<lambda>s. string_length s + 1) (selectors p))"
  have cost: "slot_cost p = 6 + 2 * ?n" by (simp add: slot_cost_def sum_list_const_mult [symmetric])
  obtain b where b: "combineSelectors 0 (selectors p) newStringBuilder = Some b" "sb_wf b"
    "sb_chars b = join_commas (map string_chars (selectors p))"
    using combineSelectors_ok [of "selectors p"] assms cost by auto
  let ?s = "sb_toString b"
  have s: "?s \<noteq> NullString" "string_chars ?s = join_commas (map string_chars (selectors p))"
    using sb_toString_ok [OF b(2)] b(3) by (auto simp: string_content_def string_isNull_def split: if_splits)
  have len: "length (selectorBytes ?s) \<le> slot_cost p" "0 < length (selectorBytes ?s)"
    using length_join [of "selectors p"] by (auto simp: length_selectorBytes cost string_length_def s(2))
  have "deserialize (actions @ selectorBytes ?s) (length actions) = Some (newStringAction CSSDisplayNoneSelector ?s (length actions))"
    using deserialize_selector(1) [OF s(1), of actions "[]"] assms len by simp
  moreover have "is_action (selectorBytes ?s)" using s(1) len(1) assms by (auto simp: is_action_def)
  ultimately show ?thesis using b(1) s len serializeSelector_bytes [OF s(1), of actions] by blast
qed

fun slots_cost :: "(Trigger \<times> PendingDisplayNoneActions) list \<Rightarrow> nat" where
  "slots_cost [] = 0"
| "slots_cost ((t, p) # slots) = slot_cost p + slots_cost slots"

text \<open>Every client of a slot gets the location of the combined selectors of the slot.\<close>

definition selector_at :: "byte list \<Rightarrow> nat \<Rightarrow> UChar list \<Rightarrow> bool" where
  "selector_at actions L cs \<longleftrightarrow> action_seq (take L actions) \<and>
     (\<exists>s. deserialize actions L = Some (newStringAction CSSDisplayNoneSelector s L) \<and> string_chars s = cs)"

lemma selector_at_append: "selector_at actions L cs \<Longrightarrow> selector_at (actions @ extra) L cs"
  using deserialize_in [of actions L] by (auto simp: selector_at_def deserialize_append)

lemma resolvePending_loop_ok:
  assumes "distinct (map fst slots)" "\<forall>(t, p) \<in> set slots. \<forall>c \<in> set (clientLocations p). c < length locs \<and> f c = t"
    "length actions + slots_cost slots < 2 ^ 32" "action_seq actions"
  shows "\<exists>extra locs'. resolvePending_loop slots actions locs = Some (actions @ extra, locs') \<and> length locs' = length locs \<and>
    length extra \<le> slots_cost slots \<and> action_seq (actions @ extra) \<and>
    (\<forall>c < length locs. (\<forall>(t, p) \<in> set slots. c \<notin> set (clientLocations p)) \<longrightarrow> locs' ! c = locs ! c) \<and>
    (\<forall>(t, p) \<in> set slots. \<forall>c \<in> set (clientLocations p). length actions \<le> locs' ! c \<and>
       selector_at (actions @ extra) (locs' ! c) (join_commas (map string_chars (selectors p))))"
  using assms
proof (induction slots arbitrary: actions locs)
  case (Cons slot slots)
  obtain t p where slot: "slot = (t, p)" by (cases slot)
  let ?n = "length locs" and ?w = "\<lambda>p. join_commas (map string_chars (selectors p))"
  obtain b s ex where e: "combineSelectors 0 (selectors p) newStringBuilder = Some b" "s = sb_toString b"
    "serializeSelector actions s = Some (actions @ ex)" "length ex \<le> slot_cost p" "is_action ex"
    "deserialize (actions @ ex) (length actions) = Some (newStringAction CSSDisplayNoneSelector s (length actions))" "string_chars s = ?w p"
    using serialize_slot [of actions p] Cons.prems(3) slot by auto
  have at: "selector_at (actions @ ex) (length actions) (?w p)" using e(6,7) Cons.prems(4) by (auto simp: selector_at_def)
  obtain locs1 where l1: "assignLocations (clientLocations p) (length actions) locs = Some locs1" "length locs1 = ?n"
    "\<forall>c < ?n. locs1 ! c = (if c \<in> set (clientLocations p) then length actions else locs ! c)"
    using assignLocations_ok [of "clientLocations p" locs "length actions"] Cons.prems(2) slot by auto
  have cl: "\<forall>(t, p) \<in> set slots. \<forall>c \<in> set (clientLocations p). c < length locs1 \<and> f c = t" using Cons.prems(2) l1(2) by auto
  have size: "length (actions @ ex) + slots_cost slots < 2 ^ 32" using Cons.prems(3) e(4) slot by simp
  obtain extra locs' where r: "resolvePending_loop slots (actions @ ex) locs1 = Some ((actions @ ex) @ extra, locs')" "length locs' = length locs1"
    "length extra \<le> slots_cost slots" "action_seq ((actions @ ex) @ extra)"
    "\<forall>c < length locs1. (\<forall>(t, p) \<in> set slots. c \<notin> set (clientLocations p)) \<longrightarrow> locs' ! c = locs1 ! c"
    "\<forall>(t, p) \<in> set slots. \<forall>c \<in> set (clientLocations p). length (actions @ ex) \<le> locs' ! c \<and>
       selector_at ((actions @ ex) @ extra) (locs' ! c) (?w p)"
    using Cons.IH [OF _ cl size more [OF Cons.prems(4) e(5)]] Cons.prems(1) by auto
  have mine: "locs' ! c = length actions" if "c \<in> set (clientLocations p)" for c
  proof -
    have c: "c < ?n" "f c = t" using that Cons.prems(2) slot by auto
    have "c \<notin> set (clientLocations p')" if "(t', p') \<in> set slots" for t' p'
      using that cl c(2) Cons.prems(1) slot by (force simp: image_iff)
    then show ?thesis using r(5) c(1) l1(2,3) that by auto
  qed
  have "resolvePending_loop (slot # slots) actions locs = Some (actions @ ex @ extra, locs')" using e l1 r(1) by (simp add: slot)
  moreover have "\<forall>c < ?n. (\<forall>(t, p) \<in> set (slot # slots). c \<notin> set (clientLocations p)) \<longrightarrow> locs' ! c = locs ! c"
    using r(5) l1(2,3) slot by auto
  moreover have "\<forall>(t, p) \<in> set (slot # slots). \<forall>c \<in> set (clientLocations p). length actions \<le> locs' ! c \<and>
       selector_at (actions @ ex @ extra) (locs' ! c) (?w p)"
    using r(6) mine selector_at_append [OF at, of extra] slot by fastforce
  ultimately show ?case using r(2,3,4) l1(2) e(4) slot by (intro exI [of _ "ex @ extra"] exI [of _ locs']) simp
qed simp

section \<open>The order of the actions\<close>

abbreviation kind :: "ContentExtensionRule \<Rightarrow> ActionType" where
  "kind r \<equiv> m_type (m_action r)"

abbreviation argument :: "ContentExtensionRule \<Rightarrow> String" where
  "argument r \<equiv> m_stringArgument (m_action r)"

abbreviation ignores :: "ContentExtensionRule \<Rightarrow> bool" where
  "ignores r \<equiv> kind r = IgnorePreviousRules"

text \<open>The bytes at a location are an action of a rule: of its type, and for a selector the comma-separated
  selectors of rules with the same trigger, its own among them.\<close>

definition served :: "ContentExtensionRule list \<Rightarrow> byte list \<Rightarrow> nat \<Rightarrow> ContentExtensionRule \<Rightarrow> bool" where
  "served rs actions L r \<longleftrightarrow> L < length actions \<and>
     (if kind r = CSSDisplayNoneSelector then
        \<exists>ss. selector_at actions L (join_commas (map string_chars ss)) \<and> argument r \<in> set ss \<and>
          (\<forall>s \<in> set ss. \<exists>r' \<in> set rs. kind r' = CSSDisplayNoneSelector \<and> m_trigger r' = m_trigger r \<and> argument r' = s)
      else plain_at actions L (kind r))"

lemma served_mono: "served rs actions L r \<Longrightarrow> set rs \<subseteq> set rs' \<Longrightarrow> served rs' (actions @ extra) L r"
  unfolding served_def using selector_at_append [of actions L _ extra] plain_at_append [of actions L _ extra]
  by (auto split: if_splits) blast

text \<open>The locations of the rules so far, where \<open>P\<close> are the rules that wait for their selector, and \<open>IG\<close> and
  \<open>BL\<close> the locations that may be shared by rules that ignore the previous ones and by those that block.\<close>

definition placed :: "ContentExtensionRule list \<Rightarrow> byte list \<Rightarrow> nat list \<Rightarrow> nat set \<Rightarrow> nat set \<Rightarrow> nat set \<Rightarrow> bool" where
  "placed rs actions locs P IG BL \<longleftrightarrow> length locs = length rs \<and>
     (\<forall>i < length rs. i \<notin> P \<longrightarrow> served rs actions (locs ! i) (rs ! i)) \<and>
     (\<forall>i \<in> P. i < length rs \<and> kind (rs ! i) = CSSDisplayNoneSelector) \<and>
     (\<forall>i j. i < j \<longrightarrow> j < length rs \<longrightarrow> i \<notin> P \<longrightarrow> j \<notin> P \<longrightarrow> ignores (rs ! i) \<noteq> ignores (rs ! j) \<longrightarrow> locs ! i < locs ! j) \<and>
     (\<forall>i \<in> P. \<forall>j < length rs. i < j \<longrightarrow> \<not> ignores (rs ! j)) \<and>
     (\<forall>L \<in> IG. \<forall>i < length rs. \<not> ignores (rs ! i) \<longrightarrow> i \<notin> P \<and> locs ! i < L) \<and>
     (\<forall>L \<in> BL. \<forall>i < length rs. ignores (rs ! i) \<longrightarrow> locs ! i < L)"

lemma placedD:
  assumes "placed rs actions locs P IG BL"
  shows "length locs = length rs" "\<And>i. i < length rs \<Longrightarrow> i \<notin> P \<Longrightarrow> served rs actions (locs ! i) (rs ! i)"
    "\<And>i. i \<in> P \<Longrightarrow> i < length rs \<and> kind (rs ! i) = CSSDisplayNoneSelector"
    "\<And>i j. i < j \<Longrightarrow> j < length rs \<Longrightarrow> i \<notin> P \<Longrightarrow> j \<notin> P \<Longrightarrow> ignores (rs ! i) \<noteq> ignores (rs ! j) \<Longrightarrow> locs ! i < locs ! j"
    "\<And>i j. i \<in> P \<Longrightarrow> j < length rs \<Longrightarrow> i < j \<Longrightarrow> \<not> ignores (rs ! j)"
    "\<And>L i. L \<in> IG \<Longrightarrow> i < length rs \<Longrightarrow> \<not> ignores (rs ! i) \<Longrightarrow> i \<notin> P \<and> locs ! i < L"
    "\<And>L i. L \<in> BL \<Longrightarrow> i < length rs \<Longrightarrow> ignores (rs ! i) \<Longrightarrow> locs ! i < L"
  using assms unfolding placed_def by blast+

lemma placed_below:
  assumes "placed rs actions locs P IG BL" "i < length rs" "i \<notin> P"
  shows "locs ! i < length actions"
  using placedD(2) [OF assms] by (simp add: served_def)

lemma placed_add:
  assumes p: "placed rs actions locs P IG BL" and s: "served (rs @ [r]) (actions @ extra) L r"
    and ign: "ignores r \<Longrightarrow> P = {} \<and> BL' = {} \<and> (\<forall>K \<in> insert L IG'. \<forall>i < length rs. \<not> ignores (rs ! i) \<longrightarrow> locs ! i < K)"
    and other: "\<not> ignores r \<Longrightarrow> IG' = {} \<and> (\<forall>K \<in> insert L BL'. \<forall>i < length rs. ignores (rs ! i) \<longrightarrow> locs ! i < K)"
  shows "placed (rs @ [r]) (actions @ extra) (locs @ [L]) P IG' BL'"
proof -
  note d = placedD [OF p]
  have "served (rs @ [r]) (actions @ extra) ((locs @ [L]) ! i) ((rs @ [r]) ! i)" if "i < length (rs @ [r])" "i \<notin> P" for i
    using that s d(1) served_mono [OF d(2), of i "rs @ [r]" extra] by (cases "i = length rs") (auto simp: nth_append)
  moreover have "(locs @ [L]) ! i < (locs @ [L]) ! j" if "i < j" "j < length (rs @ [r])" "i \<notin> P" "j \<notin> P"
    "ignores ((rs @ [r]) ! i) \<noteq> ignores ((rs @ [r]) ! j)" for i j
    using that d(1) d(4) [of i j] ign other by (cases "j = length rs"; cases "ignores r") (auto simp: nth_append)
  moreover have "\<not> ignores ((rs @ [r]) ! j)" if "i \<in> P" "j < length (rs @ [r])" "i < j" for i j
    using that d(5) [of i j] ign by (cases "j = length rs"; cases "ignores r") (auto simp: nth_append)
  moreover have "i \<notin> P \<and> (locs @ [L]) ! i < K" if "K \<in> IG'" "i < length (rs @ [r])" "\<not> ignores ((rs @ [r]) ! i)" for K i
    using that d(1) ign other by (cases "i = length rs"; cases "ignores r") (auto simp: nth_append)
  moreover have "(locs @ [L]) ! i < K" if "K \<in> BL'" "i < length (rs @ [r])" "ignores ((rs @ [r]) ! i)" for K i
    using that d(1) ign other by (cases "i = length rs"; cases "ignores r") (auto simp: nth_append)
  moreover have "\<forall>i \<in> P. i < length (rs @ [r]) \<and> kind ((rs @ [r]) ! i) = CSSDisplayNoneSelector" using d(3) by (auto simp: nth_append less_SucI)
  ultimately show ?thesis unfolding placed_def using d(1) by (intro conjI) (simp, blast+)
qed

lemma placed_wait:
  assumes p: "placed rs actions locs P IG BL" and r: "kind r = CSSDisplayNoneSelector"
  shows "placed (rs @ [r]) actions (locs @ [x]) (insert (length rs) P) {} BL"
proof -
  note d = placedD [OF p]
  have "served (rs @ [r]) actions ((locs @ [x]) ! i) ((rs @ [r]) ! i)" if "i < length (rs @ [r])" "i \<notin> insert (length rs) P" for i
    using that d(1) served_mono [OF d(2), of i "rs @ [r]" "[]"] by (auto simp: nth_append)
  moreover have "(locs @ [x]) ! i < (locs @ [x]) ! j" if "i < j" "j < length (rs @ [r])" "i \<notin> insert (length rs) P" "j \<notin> insert (length rs) P"
    "ignores ((rs @ [r]) ! i) \<noteq> ignores ((rs @ [r]) ! j)" for i j
    using that d(1) d(4) [of i j] by (auto simp: nth_append split: if_splits)
  moreover have "\<not> ignores ((rs @ [r]) ! j)" if "i \<in> insert (length rs) P" "j < length (rs @ [r])" "i < j" for i j
    using that d(5) [of i j] r by (cases "j = length rs") (auto simp: nth_append)
  moreover have "(locs @ [x]) ! i < K" if "K \<in> BL" "i < length (rs @ [r])" "ignores ((rs @ [r]) ! i)" for K i
    using that d(1) d(7) [of K i] r by (cases "i = length rs") (auto simp: nth_append)
  moreover have "\<forall>i \<in> insert (length rs) P. i < length (rs @ [r]) \<and> kind ((rs @ [r]) ! i) = CSSDisplayNoneSelector" using d(3) r by (auto simp: nth_append less_SucI)
  ultimately show ?thesis unfolding placed_def using d(1) by (intro conjI) (simp, blast+)
qed

lemma placed_resolve:
  assumes p: "placed rs actions locs P IG BL" and len: "length locs' = length locs"
    and same: "\<And>i. i < length rs \<Longrightarrow> i \<notin> P \<Longrightarrow> locs' ! i = locs ! i"
    and new: "\<And>i. i \<in> P \<Longrightarrow> length actions \<le> locs' ! i \<and> served rs (actions @ extra) (locs' ! i) (rs ! i)"
  shows "placed rs (actions @ extra) locs' {} IG BL"
proof -
  note d = placedD [OF p]
  have "served rs (actions @ extra) (locs' ! i) (rs ! i)" if "i < length rs" for i
    using that same new served_mono [OF d(2), of i rs extra] by (cases "i \<in> P") auto
  moreover have "locs' ! i < locs' ! j" if ij: "i < j" "j < length rs" "ignores (rs ! i) \<noteq> ignores (rs ! j)" for i j
  proof -
    consider "i \<notin> P" "j \<notin> P" | "i \<notin> P" "j \<in> P" | "i \<in> P" by blast
    then show ?thesis
    proof cases
      case 1
      with ij same d(4) [of i j] show ?thesis by simp
    next
      case 2
      with ij same [of i] new [of j] placed_below [OF p, of i] show ?thesis by simp
    next
      case 3
      with ij d(3) [of i] d(5) [of i j] show ?thesis by simp
    qed
  qed
  moreover have "locs' ! i < L" if "L \<in> IG" "i < length rs" "\<not> ignores (rs ! i)" for L i using that d(6) [of L i] same by auto
  moreover have "locs' ! i < L" if "L \<in> BL" "i < length rs" "ignores (rs ! i)" for L i
    using that d(7) [of L i] d(3) [of i] same [of i] by (cases "i \<in> P") auto
  ultimately show ?thesis unfolding placed_def using d(1) len by (intro conjI) (simp, blast+)
qed

section \<open>The invariant of the loop over the rules\<close>

definition slot_ok :: "ContentExtensionRule list \<Rightarrow> Trigger \<Rightarrow> PendingDisplayNoneActions \<Rightarrow> bool" where
  "slot_ok rs t p \<longleftrightarrow> length (selectors p) = length (clientLocations p) \<and>
     (\<forall>(s, c) \<in> set (zip (selectors p) (clientLocations p)). c < length rs \<and> kind (rs ! c) = CSSDisplayNoneSelector \<and>
        m_trigger (rs ! c) = t \<and> argument (rs ! c) = s)"

definition waiting :: "PendingDisplayNoneActionsMap \<Rightarrow> nat set" where
  "waiting m = (\<Union>(t, p) \<in> set (ht_values m). set (clientLocations p))"

definition shares :: "byte list \<Rightarrow> ActionType \<Rightarrow> (uint32, nat) HashMap \<Rightarrow> bool" where
  "shares actions type m \<longleftrightarrow> ht_wf flagMapTraits m \<and>
     (\<forall>L \<in> ran (hm_map flagMapTraits m). plain_at actions L type)"

definition rule_cost :: "ContentExtensionRule \<Rightarrow> nat" where
  "rule_cost r = 8 + 2 * string_length (argument r)"

definition rules_cost :: "ContentExtensionRule list \<Rightarrow> nat" where
  "rules_cost rs = sum_list (map rule_cost rs)"

definition ser_inv :: "ContentExtensionRule list \<Rightarrow> Serializer \<Rightarrow> bool" where
  "ser_inv rs st \<longleftrightarrow>
     placed rs (ser_actions st) (actionLocations st) (waiting (cssDisplayNoneActionsMap st))
       (ran (hm_map flagMapTraits (ignorePreviousRuleActionsMap st)))
       (ran (hm_map flagMapTraits (blockActionsMap st)) \<union> ran (hm_map flagMapTraits (blockCookiesActionsMap st))) \<and>
     shares (ser_actions st) BlockLoad (blockActionsMap st) \<and> shares (ser_actions st) BlockCookies (blockCookiesActionsMap st) \<and>
     shares (ser_actions st) IgnorePreviousRules (ignorePreviousRuleActionsMap st) \<and>
     ht_wf triggerMapTraits (cssDisplayNoneActionsMap st) \<and>
     (\<forall>(t, p) \<in> set (ht_values (cssDisplayNoneActionsMap st)). slot_ok rs t p) \<and>
     length (ser_actions st) + slots_cost (ht_values (cssDisplayNoneActionsMap st)) \<le> rules_cost rs \<and> action_seq (ser_actions st)"

lemma ser_inv_new: "ser_inv [] newSerializer"
  by (simp add: ser_inv_def newSerializer_def placed_def waiting_def shares_def hm_empty ht_wf_empty action_seq.none)

lemma shares_append: "shares actions type m \<Longrightarrow> shares (actions @ extra) type m"
  unfolding shares_def using plain_at_append by blast

lemma shares_clear: "shares actions type m \<Longrightarrow> shares actions type (hm_clear m) \<and> hm_map flagMapTraits (hm_clear m) = Map.empty"
  unfolding shares_def using flag_maps.discard by auto

lemma slot_client:
  assumes "slot_ok rs t p" "c \<in> set (clientLocations p)"
  shows "c < length rs \<and> kind (rs ! c) = CSSDisplayNoneSelector \<and> m_trigger (rs ! c) = t \<and> argument (rs ! c) \<in> set (selectors p)"
proof -
  obtain k where "k < length (clientLocations p)" "clientLocations p ! k = c" using assms(2) by (auto simp: in_set_conv_nth)
  then have "(selectors p ! k, c) \<in> set (zip (selectors p) (clientLocations p))" using assms(1) by (auto simp: slot_ok_def in_set_zip)
  with assms(1) set_zip_leftD [OF this] show ?thesis by (auto simp: slot_ok_def)
qed

lemma slot_selector:
  assumes "slot_ok rs t p" "s \<in> set (selectors p)"
  shows "\<exists>r \<in> set rs. kind r = CSSDisplayNoneSelector \<and> m_trigger r = t \<and> argument r = s"
proof -
  obtain k where "k < length (selectors p)" "selectors p ! k = s" using assms(2) by (auto simp: in_set_conv_nth)
  then have "(s, clientLocations p ! k) \<in> set (zip (selectors p) (clientLocations p))" using assms(1) by (auto simp: slot_ok_def in_set_zip)
  with assms(1) show ?thesis by (auto simp: slot_ok_def intro!: bexI [of _ "rs ! (clientLocations p ! k)"])
qed

lemma hm_keys_distinct: "map_traits tr \<Longrightarrow> ht_wf tr m \<Longrightarrow> distinct (map fst (ht_values m))"
  using ht_keys_distinct [of tr m] by (simp add: map_traits_def)

lemma slot_ok_mono: "slot_ok rs t p \<Longrightarrow> slot_ok (rs @ [r]) t p"
  by (force simp: slot_ok_def nth_append)

lemma hm_cleared: "hm_clear (hm_clear m) = hm_clear m" "ht_values (hm_clear m) = []"
  by (simp_all add: hm_clear_def ht_clear_def ht_empty_def ht_values_def)

lemma resolve_ok:
  assumes inv: "ser_inv rs st" and size: "rules_cost rs < 2 ^ 32"
  shows "\<exists>extra locs. resolvePendingDisplayNoneActions (ser_actions st) (actionLocations st) (cssDisplayNoneActionsMap st)
      = Some (ser_actions st @ extra, locs, hm_clear (cssDisplayNoneActionsMap st)) \<and>
    ser_inv rs (st\<lparr>ser_actions := ser_actions st @ extra, actionLocations := locs,
      cssDisplayNoneActionsMap := hm_clear (cssDisplayNoneActionsMap st)\<rparr>)"
proof -
  let ?A = "ser_actions st" and ?L = "actionLocations st" and ?C = "cssDisplayNoneActionsMap st"
  have p: "placed rs ?A ?L (waiting ?C) (ran (hm_map flagMapTraits (ignorePreviousRuleActionsMap st)))
      (ran (hm_map flagMapTraits (blockActionsMap st)) \<union> ran (hm_map flagMapTraits (blockCookiesActionsMap st)))"
    and wf: "ht_wf triggerMapTraits ?C" and slots: "\<And>t p. (t, p) \<in> set (ht_values ?C) \<Longrightarrow> slot_ok rs t p"
    and seq: "action_seq ?A" and cost: "length ?A + slots_cost (ht_values ?C) \<le> rules_cost rs" using inv by (auto simp: ser_inv_def)
  have len: "length ?L = length rs" by (rule placedD(1) [OF p])
  have 1: "distinct (map fst (ht_values ?C))" by (rule hm_keys_distinct [OF triggerMapTraits_ok wf])
  have 2: "\<forall>(t, p) \<in> set (ht_values ?C). \<forall>c \<in> set (clientLocations p). c < length ?L \<and> m_trigger (rs ! c) = t"
    using slots slot_client len by fastforce
  have 3: "length ?A + slots_cost (ht_values ?C) < 2 ^ 32" using cost size by simp
  obtain extra locs where r: "resolvePending_loop (ht_values ?C) ?A ?L = Some (?A @ extra, locs)" "length locs = length ?L"
    "length extra \<le> slots_cost (ht_values ?C)" "action_seq (?A @ extra)"
    "\<forall>c < length ?L. (\<forall>(t, p) \<in> set (ht_values ?C). c \<notin> set (clientLocations p)) \<longrightarrow> locs ! c = ?L ! c"
    "\<forall>(t, p) \<in> set (ht_values ?C). \<forall>c \<in> set (clientLocations p). length ?A \<le> locs ! c \<and>
       selector_at (?A @ extra) (locs ! c) (join_commas (map string_chars (selectors p)))"
    using resolvePending_loop_ok [OF 1 2 3 seq] by (elim exE conjE)
  have new: "length ?A \<le> locs ! i \<and> served rs (?A @ extra) (locs ! i) (rs ! i)" if w: "i \<in> waiting ?C" for i
  proof -
    obtain t q where q: "(t, q) \<in> set (ht_values ?C)" "i \<in> set (clientLocations q)" using w by (auto simp: waiting_def)
    have at: "length ?A \<le> locs ! i" "selector_at (?A @ extra) (locs ! i) (join_commas (map string_chars (selectors q)))" using r(6) q by auto
    have "locs ! i < length (?A @ extra)" using at(2) deserialize_in unfolding selector_at_def by blast
    with at slot_client [OF slots [OF q(1)] q(2)] slot_selector [OF slots [OF q(1)]] show ?thesis unfolding served_def by auto
  qed
  have "placed rs (?A @ extra) locs {} (ran (hm_map flagMapTraits (ignorePreviousRuleActionsMap st)))
      (ran (hm_map flagMapTraits (blockActionsMap st)) \<union> ran (hm_map flagMapTraits (blockCookiesActionsMap st)))"
    by (rule placed_resolve [OF p r(2) _ new]) (use r(5) len in \<open>auto simp: waiting_def\<close>)
  moreover have c: "ht_values (hm_clear ?C) = []" "ht_wf triggerMapTraits (hm_clear ?C)"
    using trigger_maps.discard [OF wf] by (simp_all add: hm_cleared)
  ultimately show ?thesis using inv r(1,3,4) cost
    by (intro exI [of _ extra] exI [of _ locs])
      (simp add: resolvePendingDisplayNoneActions_def ser_inv_def waiting_def shares_append)
qed

section \<open>One rule\<close>

lemma placed_step:
  assumes p: "placed rs A locs P IG BL" and s: "served (rs @ [r]) (A @ x) L r"
    and L: "L = length A \<or> L \<in> (if ignores r then IG else BL)" and c: "if ignores r then P = {} \<and> BL = {} else IG = {}"
    and IG': "IG' \<subseteq> (if ignores r then insert L IG else {})" and BL': "BL' \<subseteq> (if ignores r then {} else insert L BL)"
  shows "placed (rs @ [r]) (A @ x) (locs @ [L]) P IG' BL'"
proof (rule placed_add [OF p s])
  assume r: "ignores r"
  have "locs ! i < K" if "K \<in> insert L IG'" "i < length rs" "\<not> ignores (rs ! i)" for K i
  proof -
    have "K = length A \<or> K \<in> IG" using that(1) L IG' r by auto
    then show ?thesis using placed_below [OF p that(2)] placedD(6) [OF p _ that(2,3)] c r by auto
  qed
  then show "P = {} \<and> BL' = {} \<and> (\<forall>K \<in> insert L IG'. \<forall>i < length rs. \<not> ignores (rs ! i) \<longrightarrow> locs ! i < K)" using c r BL' by auto
next
  assume r: "\<not> ignores r"
  have "locs ! i < K" if "K \<in> insert L BL'" "i < length rs" "ignores (rs ! i)" for K i
  proof -
    have "K = length A \<or> K \<in> BL" using that(1) L BL' r by auto
    then show ?thesis using placed_below [OF p that(2)] placedD(7) [OF p _ that(2,3)] placedD(3) [OF p, of i] that(3) by auto
  qed
  then show "IG' = {} \<and> (\<forall>K \<in> insert L BL'. \<forall>i < length rs. ignores (rs ! i) \<longrightarrow> locs ! i < K)" using r IG' by auto
qed

lemma served_plain: "plain (kind r) \<Longrightarrow> plain_at A L (kind r) \<Longrightarrow> served rs A L r"
  using deserialize_in [of A L] by (auto simp: served_def plain_def plain_at_def)

lemma shareAction_ok:
  assumes s: "shares A k m" and k: "plain k" and seq: "action_seq A"
  shows "\<exists>m' L isNew x. shareAction f (length A) m = Some (m', L, isNew) \<and> writtenAction isNew k A = A @ x \<and> length x \<le> 1 \<and>
    shares (A @ x) k m' \<and> ran (hm_map flagMapTraits m') \<subseteq> insert L (ran (hm_map flagMapTraits m)) \<and>
    (L = length A \<or> L \<in> ran (hm_map flagMapTraits m)) \<and> plain_at (A @ x) L k \<and> action_seq (A @ x)"
proof -
  let ?c = "hm_map flagMapTraits m f"
  let ?L = "case ?c of None \<Rightarrow> length A | Some w \<Rightarrow> w" and ?x = "if ?c = None then [actionType_value k] else []"
  have wf: "ht_wf flagMapTraits m" using s by (simp add: shares_def)
  obtain m' where m': "shareAction f (length A) m = Some (m', ?L, ?c = None)" "ht_wf flagMapTraits m'"
    "hm_map flagMapTraits m' = (hm_map flagMapTraits m)(f \<mapsto> ?L)"
    using flag_maps.remember [OF wf, of f "length A"] by (auto simp: shareAction_def)
  have at: "plain_at (A @ ?x) ?L k"
  proof (cases ?c)
    case None
    then show ?thesis using deserialize_plain [of k A "[]"] k seq by (simp add: plain_def plain_at_def)
  next
    case (Some w)
    then have "w \<in> ran (hm_map flagMapTraits m)" by (rule ranI)
    with s Some show ?thesis by (simp add: shares_def)
  qed
  have ran: "ran (hm_map flagMapTraits m') \<subseteq> insert ?L (ran (hm_map flagMapTraits m))" unfolding m'(3) by (auto simp: ran_def)
  have "\<forall>K \<in> ran (hm_map flagMapTraits m). plain_at (A @ ?x) K k"
    using s plain_at_append by (auto simp: shares_def)
  with ran at m'(2) have "shares (A @ ?x) k m'" unfolding shares_def by blast
  moreover have "action_seq (A @ ?x)" using seq k by (simp add: action_seq_plain)
  ultimately show ?thesis using m'(1) ran at
    by (intro exI [of _ m'] exI [of _ ?L] exI [of _ "?c = None"] exI [of _ ?x])
      (auto simp: writtenAction_def split: option.splits intro: ranI)
qed

lemma addPendingSelector_ok:
  assumes wf: "ht_wf triggerMapTraits m" and t: "\<not> trigger_isEmpty t"
  shows "\<exists>m' p. addPendingSelector t s c m = Some m' \<and> ht_wf triggerMapTraits m' \<and>
    hm_map triggerMapTraits m' = (hm_map triggerMapTraits m)(t \<mapsto> p) \<and>
    p = (case hm_map triggerMapTraits m t of None \<Rightarrow> \<lparr>selectors = [s], clientLocations = [c]\<rparr>
         | Some q \<Rightarrow> \<lparr>selectors = selectors q @ [s], clientLocations = clientLocations q @ [c]\<rparr>)"
proof -
  let ?e = "\<lparr>selectors = [], clientLocations = []\<rparr>"
  obtain m1 i q where m1: "hm_add triggerMapTraits t ?e m = Some (m1, i, hm_map triggerMapTraits m t = None)" "ht_wf triggerMapTraits m1"
    "hm_map triggerMapTraits m1 = (if hm_map triggerMapTraits m t = None then (hm_map triggerMapTraits m)(t \<mapsto> ?e) else hm_map triggerMapTraits m)"
    "live_at m1 i (t, q)" "hm_map triggerMapTraits m1 t = Some q" "hm_value m1 i = Some q"
    using hm_add_ok [OF triggerMapTraits_ok wf, of t ?e] by blast
  let ?p = "\<lparr>selectors = selectors q @ [s], clientLocations = clientLocations q @ [c]\<rparr>"
  obtain m' where "hm_assign i ?p m1 = Some m'" "ht_wf triggerMapTraits m'" "hm_map triggerMapTraits m' = (hm_map triggerMapTraits m1)(t \<mapsto> ?p)"
    using hm_assign_ok [OF triggerMapTraits_ok m1(2,4)] by blast
  with m1 t show ?thesis by (intro exI [of _ m'] exI [of _ ?p]) (auto simp: addPendingSelector_def split: option.splits if_splits)
qed

lemma slots_cost_sum: "distinct slots \<Longrightarrow> slots_cost slots = (\<Sum>(t, p) \<in> set slots. slot_cost p)"
  by (induction slots rule: slots_cost.induct) auto

lemma pending_values:
  assumes "ht_wf triggerMapTraits m" "ht_wf triggerMapTraits m'"
    and u: "hm_map triggerMapTraits m' = (hm_map triggerMapTraits m)(t \<mapsto> p)"
  shows "set (ht_values m') = {x \<in> set (ht_values m). fst x \<noteq> t} \<union> {(t, p)}"
    "slots_cost (ht_values m') + (case hm_map triggerMapTraits m t of None \<Rightarrow> 0 | Some q \<Rightarrow> slot_cost q) = slots_cost (ht_values m) + slot_cost p"
proof -
  note v = hm_map_values [OF triggerMapTraits_ok assms(1)] and v' = hm_map_values [OF triggerMapTraits_ok assms(2)]
  have "x \<in> set (ht_values m') \<longleftrightarrow> x \<in> {x \<in> set (ht_values m). fst x \<noteq> t} \<union> {(t, p)}" for x
    using v' [of "fst x" "snd x"] v [of "fst x" "snd x"] u by (cases x) (auto split: if_splits)
  then show s: "set (ht_values m') = {x \<in> set (ht_values m). fst x \<noteq> t} \<union> {(t, p)}" by blast
  have d: "distinct (ht_values m)" "distinct (ht_values m')"
    using hm_keys_distinct [OF triggerMapTraits_ok assms(1)] hm_keys_distinct [OF triggerMapTraits_ok assms(2)] by (simp_all add: distinct_map)
  let ?R = "{x \<in> set (ht_values m). fst x \<noteq> t}" and ?f = "\<lambda>(t :: Trigger, p). slot_cost p"
  have 1: "sum ?f (set (ht_values m')) = sum ?f ?R + slot_cost p" unfolding s by (subst sum.union_disjoint) auto
  have 2: "sum ?f (set (ht_values m)) = sum ?f ?R + (case hm_map triggerMapTraits m t of None \<Rightarrow> 0 | Some q \<Rightarrow> slot_cost q)"
  proof (cases "hm_map triggerMapTraits m t")
    case None
    then have "fst x \<noteq> t" if "x \<in> set (ht_values m)" for x using that v [of t "snd x"] by (cases x) auto
    then have "set (ht_values m) = ?R" by blast
    with None show ?thesis by simp
  next
    case (Some q)
    have "x \<in> set (ht_values m) \<longleftrightarrow> x \<in> ?R \<union> {(t, q)}" for x using v [of t "snd x"] Some by (cases x) auto
    then have e: "set (ht_values m) = ?R \<union> {(t, q)}" by blast
    have "sum ?f (?R \<union> {(t, q)}) = sum ?f ?R + slot_cost q" by (subst sum.union_disjoint) auto
    with e Some show ?thesis by simp
  qed
  show "slots_cost (ht_values m') + (case hm_map triggerMapTraits m t of None \<Rightarrow> 0 | Some q \<Rightarrow> slot_cost q) = slots_cost (ht_values m) + slot_cost p"
    unfolding slots_cost_sum [OF d(1)] slots_cost_sum [OF d(2)] 1 2 by simp
qed

lemma placed_less: "placed rs A locs P IG BL \<Longrightarrow> IG' \<subseteq> IG \<Longrightarrow> BL' \<subseteq> BL \<Longrightarrow> placed rs A locs P IG' BL'"
  unfolding placed_def by (elim conjE, intro conjI) (assumption | rule ballI, drule (1) subsetD, drule (1) bspec, assumption)+

lemma beforeRule_ok:
  assumes inv: "ser_inv rs st" and size: "rules_cost rs < 2 ^ 32"
  shows "\<exists>st'. beforeRule k st = Some st' \<and> ser_inv rs st' \<and>
    (if k = IgnorePreviousRules then waiting (cssDisplayNoneActionsMap st') = {} \<and>
       hm_map flagMapTraits (blockActionsMap st') = Map.empty \<and> hm_map flagMapTraits (blockCookiesActionsMap st') = Map.empty
     else hm_map flagMapTraits (ignorePreviousRuleActionsMap st') = Map.empty)"
proof (cases "k = IgnorePreviousRules")
  case True
  obtain extra locs where r: "resolvePendingDisplayNoneActions (ser_actions st) (actionLocations st) (cssDisplayNoneActionsMap st)
      = Some (ser_actions st @ extra, locs, hm_clear (cssDisplayNoneActionsMap st))"
    "ser_inv rs (st\<lparr>ser_actions := ser_actions st @ extra, actionLocations := locs,
      cssDisplayNoneActionsMap := hm_clear (cssDisplayNoneActionsMap st)\<rparr>)"
    using resolve_ok [OF assms] by (elim exE conjE)
  have b: "shares (ser_actions st @ extra) BlockLoad (blockActionsMap st)" "shares (ser_actions st @ extra) BlockCookies (blockCookiesActionsMap st)"
    using r(2) by (simp_all add: ser_inv_def)
  show ?thesis using True r shares_clear [OF b(1)] shares_clear [OF b(2)]
    by (auto simp: beforeRule_def ser_inv_def hm_cleared waiting_def intro: placed_less)
next
  case False
  have "shares (ser_actions st) IgnorePreviousRules (ignorePreviousRuleActionsMap st)" using inv by (simp add: ser_inv_def)
  from shares_clear [OF this] False inv show ?thesis by (auto simp: beforeRule_def ser_inv_def intro: placed_less)
qed

lemma serializeWithDomain_ok:
  assumes inv: "ser_inv rs st" and c: "if ignores r then waiting (cssDisplayNoneActionsMap st) = {} \<and>
       hm_map flagMapTraits (blockActionsMap st) = Map.empty \<and> hm_map flagMapTraits (blockCookiesActionsMap st) = Map.empty
     else hm_map flagMapTraits (ignorePreviousRuleActionsMap st) = Map.empty"
    and k: "plain (kind r) \<or> kind r = CSSDisplayNoneSelector \<and> argument r \<noteq> NullString" and size: "rules_cost (rs @ [r]) < 2 ^ 32"
  shows "\<exists>st'. serializeWithDomain (kind r) (argument r) st = Some st' \<and> ser_inv (rs @ [r]) st'"
proof -
  let ?A = "ser_actions st"
  have seq: "action_seq ?A" and cost: "length ?A + slots_cost (ht_values (cssDisplayNoneActionsMap st)) + rule_cost r \<le> rules_cost (rs @ [r])"
    using inv by (simp_all add: ser_inv_def rules_cost_def)
  obtain x where x: "(if kind r = CSSDisplayNoneSelector then serializeSelector ?A (argument r) else Some (?A @ [actionType_value (kind r)])) = Some (?A @ x)"
    "served (rs @ [r]) (?A @ x) (length ?A) r" "length x \<le> rule_cost r" "is_action x"
  proof (cases "plain (kind r)")
    case True
    then have "served (rs @ [r]) (?A @ [actionType_value (kind r)]) (length ?A) r"
      using deserialize_plain [of "kind r" ?A "[]"] seq by (intro served_plain) (simp_all add: plain_def plain_at_def)
    moreover have "is_action [actionType_value (kind r)]" using True by (auto simp: is_action_def)
    ultimately show thesis using True that [of "[actionType_value (kind r)]"] by (auto simp: plain_def rule_cost_def)
  next
    case False
    with k have css: "kind r = CSSDisplayNoneSelector" "argument r \<noteq> NullString" by simp_all
    let ?x = "selectorBytes (argument r)"
    have len: "length ?x \<le> rule_cost r" by (auto simp: length_selectorBytes rule_cost_def)
    then have "deserialize (?A @ ?x) (length ?A) = Some (newStringAction CSSDisplayNoneSelector (argument r) (length ?A))"
      using deserialize_selector(1) [OF css(2), of ?A "[]"] cost size by simp
    then have "served (rs @ [r]) (?A @ ?x) (length ?A) r" unfolding served_def using css(1) seq
      by (auto simp: selector_at_def length_selectorBytes intro!: exI [of _ "[argument r]"])
    moreover have "is_action ?x" using css(2) len cost size by (auto simp: is_action_def)
    ultimately show thesis using that [of ?x] css len by (simp add: serializeSelector_bytes)
  qed
  let ?I = "ran (hm_map flagMapTraits (ignorePreviousRuleActionsMap st))"
  let ?B = "ran (hm_map flagMapTraits (blockActionsMap st)) \<union> ran (hm_map flagMapTraits (blockCookiesActionsMap st))"
  have "placed rs ?A (actionLocations st) (waiting (cssDisplayNoneActionsMap st)) ?I ?B" using inv by (simp add: ser_inv_def)
  from placed_step [OF this x(2), of ?I ?B] have "placed (rs @ [r]) (?A @ x) (actionLocations st @ [length ?A]) (waiting (cssDisplayNoneActionsMap st)) ?I ?B"
    using c by (auto split: if_splits)
  with inv x(1,3) cost show ?thesis
    by (auto simp: serializeWithDomain_def ser_inv_def shares_append slot_ok_mono more [OF seq x(4)])
qed

lemma pending_ok:
  assumes inv: "ser_inv rs st" and c: "hm_map flagMapTraits (ignorePreviousRuleActionsMap st) = Map.empty"
    and k: "kind r = CSSDisplayNoneSelector" and t: "\<not> trigger_isEmpty (m_trigger r)"
  shows "\<exists>st'. serializeShared CSSDisplayNoneSelector (m_trigger r) (argument r) st = Some st' \<and> ser_inv (rs @ [r]) st'"
proof -
  let ?C = "cssDisplayNoneActionsMap st" and ?n = "length (actionLocations st)" and ?t = "m_trigger r"
  have wf: "ht_wf triggerMapTraits ?C" and slots: "\<And>t p. (t, p) \<in> set (ht_values ?C) \<Longrightarrow> slot_ok rs t p"
    and p: "placed rs (ser_actions st) (actionLocations st) (waiting ?C) (ran (hm_map flagMapTraits (ignorePreviousRuleActionsMap st)))
      (ran (hm_map flagMapTraits (blockActionsMap st)) \<union> ran (hm_map flagMapTraits (blockCookiesActionsMap st)))"
    using inv by (auto simp: ser_inv_def)
  have n: "?n = length rs" by (rule placedD(1) [OF p])
  obtain m' p' where m': "addPendingSelector ?t (argument r) ?n ?C = Some m'" "ht_wf triggerMapTraits m'"
    "hm_map triggerMapTraits m' = (hm_map triggerMapTraits ?C)(?t \<mapsto> p')"
    and p': "p' = (case hm_map triggerMapTraits ?C ?t of None \<Rightarrow> \<lparr>selectors = [argument r], clientLocations = [?n]\<rparr>
         | Some q \<Rightarrow> \<lparr>selectors = selectors q @ [argument r], clientLocations = clientLocations q @ [?n]\<rparr>)"
    using addPendingSelector_ok [OF wf t, of "argument r" ?n] by (elim exE conjE)
  note v = pending_values [OF wf m'(2,3)] and at = hm_map_values [OF triggerMapTraits_ok wf, of ?t]
  have ok: "slot_ok (rs @ [r]) t q" if "(t, q) \<in> set (ht_values m')" for t q
  proof (cases "t = ?t")
    case True
    then have q: "q = p'" using that v(1) by auto
    show ?thesis
    proof (cases "hm_map triggerMapTraits ?C ?t")
      case None
      then show ?thesis using q p' n k True by (simp add: slot_ok_def)
    next
      case (Some q')
      then have "slot_ok rs ?t q'" using at slots by blast
      from slot_ok_mono [OF this, of r] Some q p' n k True show ?thesis by (auto simp: slot_ok_def)
    qed
  next
    case False
    then have "(t, q) \<in> set (ht_values ?C)" using that v(1) by auto
    from slot_ok_mono [OF slots [OF this]] show ?thesis .
  qed
  have w: "waiting m' = insert (length rs) (waiting ?C)"
  proof (cases "hm_map triggerMapTraits ?C ?t")
    case None
    then have "{x \<in> set (ht_values ?C). fst x \<noteq> ?t} = set (ht_values ?C)" using at by fastforce
    with v(1) None p' n show ?thesis by (simp add: waiting_def)
  next
    case (Some q')
    then have "set (ht_values ?C) = {x \<in> set (ht_values ?C). fst x \<noteq> ?t} \<union> {(?t, q')}" using at by fastforce
    then have "waiting ?C = (\<Union>(t, p) \<in> {x \<in> set (ht_values ?C). fst x \<noteq> ?t} \<union> {(?t, q')}. set (clientLocations p))" unfolding waiting_def by (rule arg_cong)
    with v(1) Some p' n show ?thesis by (simp add: waiting_def Un_commute)
  qed
  have "slots_cost (ht_values m') \<le> slots_cost (ht_values ?C) + rule_cost r"
    using v(2) p' by (auto simp: slot_cost_def rule_cost_def split: option.splits)
  with inv m'(1,2) ok w placed_wait [OF p k, of noLocation] c show ?thesis by (auto simp: ser_inv_def rules_cost_def)
qed

lemma shared_ok:
  assumes inv: "ser_inv rs st" and c: "if ignores r then waiting (cssDisplayNoneActionsMap st) = {} \<and>
       hm_map flagMapTraits (blockActionsMap st) = Map.empty \<and> hm_map flagMapTraits (blockCookiesActionsMap st) = Map.empty
     else hm_map flagMapTraits (ignorePreviousRuleActionsMap st) = Map.empty"
    and k: "plain (kind r)"
  shows "\<exists>st'. serializeShared (kind r) (m_trigger r) (argument r) st = Some st' \<and> ser_inv (rs @ [r]) st'"
proof -
  let ?A = "ser_actions st" and ?W = "waiting (cssDisplayNoneActionsMap st)"
  let ?m = "if kind r = BlockLoad then blockActionsMap st else if kind r = BlockCookies then blockCookiesActionsMap st else ignorePreviousRuleActionsMap st"
  let ?B = "ran (hm_map flagMapTraits (blockActionsMap st)) \<union> ran (hm_map flagMapTraits (blockCookiesActionsMap st))"
  have p: "placed rs ?A (actionLocations st) ?W (ran (hm_map flagMapTraits (ignorePreviousRuleActionsMap st))) ?B"
    and s: "shares ?A (kind r) ?m" and seq: "action_seq ?A" using inv k by (auto simp: ser_inv_def plain_def)
  obtain m' L isNew x where m': "shareAction (ucast (triggerFlags (m_trigger r))) (length ?A) ?m = Some (m', L, isNew)"
    "writtenAction isNew (kind r) ?A = ?A @ x" "length x \<le> 1" "shares (?A @ x) (kind r) m'"
    "ran (hm_map flagMapTraits m') \<subseteq> insert L (ran (hm_map flagMapTraits ?m))"
    "L = length ?A \<or> L \<in> ran (hm_map flagMapTraits ?m)" "plain_at (?A @ x) L (kind r)" "action_seq (?A @ x)"
    using shareAction_ok [OF s k seq, of "ucast (triggerFlags (m_trigger r))"] by (elim exE conjE)
  let ?st = "if kind r = BlockLoad then st\<lparr>blockActionsMap := m'\<rparr> else if kind r = BlockCookies then st\<lparr>blockCookiesActionsMap := m'\<rparr>
    else st\<lparr>ignorePreviousRuleActionsMap := m'\<rparr>"
  have "placed (rs @ [r]) (?A @ x) (actionLocations st @ [L]) ?W (ran (hm_map flagMapTraits (ignorePreviousRuleActionsMap ?st)))
      (ran (hm_map flagMapTraits (blockActionsMap ?st)) \<union> ran (hm_map flagMapTraits (blockCookiesActionsMap ?st)))"
    by (rule placed_step [OF p served_plain [OF k m'(7)]]) (use c k m'(5,6) in \<open>auto simp: plain_def\<close>)
  moreover have "serializeShared (kind r) (m_trigger r) (argument r) st = Some (?st\<lparr>ser_actions := ?A @ x, actionLocations := actionLocations st @ [L]\<rparr>)"
    using m'(1,2) k by (auto simp: plain_def)
  moreover have "1 \<le> rule_cost r" by (simp add: rule_cost_def)
  ultimately show ?thesis using inv k m'(3,4,8)
    by (auto simp: ser_inv_def plain_def rules_cost_def shares_append slot_ok_mono)
qed

text \<open>The rules that the parser makes: a trigger has a filter, and a selector is not null.\<close>

definition serializable :: "ContentExtensionRule \<Rightarrow> bool" where
  "serializable r \<longleftrightarrow> plain (kind r) \<or>
     kind r = CSSDisplayNoneSelector \<and> argument r \<noteq> NullString \<and> \<not> trigger_isEmpty (m_trigger r)"

lemma serializeRule_ok:
  assumes inv: "ser_inv rs st" and r: "serializable r" and size: "rules_cost (rs @ [r]) < 2 ^ 32"
  shows "\<exists>st'. serializeRule r st = Some st' \<and> ser_inv (rs @ [r]) st'"
proof -
  have "rules_cost rs < 2 ^ 32" using size by (simp add: rules_cost_def)
  from beforeRule_ok [OF inv this, of "kind r"] obtain st1 where st1: "beforeRule (kind r) st = Some st1" "ser_inv rs st1"
    and c: "if ignores r then waiting (cssDisplayNoneActionsMap st1) = {} \<and>
       hm_map flagMapTraits (blockActionsMap st1) = Map.empty \<and> hm_map flagMapTraits (blockCookiesActionsMap st1) = Map.empty
     else hm_map flagMapTraits (ignorePreviousRuleActionsMap st1) = Map.empty" by (elim exE conjE)
  have v: "\<not> (kind r = CSSDisplayNoneStyleSheet \<or> kind r = InvalidAction)" using r by (auto simp: serializable_def plain_def)
  have "\<exists>st'. (if domains (m_trigger r) \<noteq> [] then serializeWithDomain (kind r) (argument r) st1
      else serializeShared (kind r) (m_trigger r) (argument r) st1) = Some st' \<and> ser_inv (rs @ [r]) st'"
    using serializeWithDomain_ok [OF st1(2) c _ size] shared_ok [OF st1(2) c] pending_ok [OF st1(2), of r] c r
    by (cases "domains (m_trigger r) = []") (auto simp: serializable_def)
  with st1(1) v show ?thesis by (simp add: serializeRule_def Let_def)
qed

lemma serializeRules_ok:
  assumes "ser_inv rs st" "\<forall>r \<in> set rules. serializable r" "rules_cost (rs @ rules) < 2 ^ 32"
  shows "\<exists>st'. serializeRules rules st = Some st' \<and> ser_inv (rs @ rules) st'"
  using assms
proof (induction rules arbitrary: rs st)
  case (Cons r rules)
  have "rules_cost (rs @ [r]) < 2 ^ 32" using Cons.prems(3) by (simp add: rules_cost_def)
  with Cons.prems obtain st1 where st1: "serializeRule r st = Some st1" "ser_inv (rs @ [r]) st1" using serializeRule_ok [of rs st r] by auto
  from Cons.IH [OF st1(2)] Cons.prems st1(1) show ?case by simp
qed simp

lemma serializeActions_ok:
  assumes "\<forall>r \<in> set rules. serializable r" "rules_cost rules < 2 ^ 32"
  shows "\<exists>locs actions. serializeActions rules = Some (locs, actions) \<and> placed rules actions locs {} {} {} \<and> length actions \<le> rules_cost rules \<and> action_seq actions"
proof -
  obtain st where st: "serializeRules rules newSerializer = Some st" "ser_inv rules st"
    using serializeRules_ok [OF ser_inv_new, of rules] assms by auto
  obtain extra locs where e: "resolvePendingDisplayNoneActions (ser_actions st) (actionLocations st) (cssDisplayNoneActionsMap st)
      = Some (ser_actions st @ extra, locs, hm_clear (cssDisplayNoneActionsMap st))"
    "ser_inv rules (st\<lparr>ser_actions := ser_actions st @ extra, actionLocations := locs,
      cssDisplayNoneActionsMap := hm_clear (cssDisplayNoneActionsMap st)\<rparr>)"
    using resolve_ok [OF st(2) assms(2)] by (elim exE conjE)
  have "placed rules (ser_actions st @ extra) locs {} {} {}"
    by (rule placed_less) (use e(2) in \<open>auto simp: ser_inv_def waiting_def hm_cleared\<close>)
  with st(1) e show ?thesis by (auto simp: serializeActions_def ser_inv_def hm_cleared)
qed

section \<open>Properties of the serializer\<close>

text \<open>C20: the bytes that \<^verbatim>\<open>serializeSelector\<close> appends for a selector are read back by
  \<^verbatim>\<open>Action::deserialize\<close> as that selector, with its width and wherever they stand in the vector, and
  \<^verbatim>\<open>Action::serializedLength\<close> is their number.\<close>

theorem selector_roundtrip:
  assumes "s \<noteq> NullString" "length pre + 6 + 2 * string_length s < 2 ^ 32"
  shows "\<exists>written. serializeSelector pre s = Some (pre @ written) \<and>
    deserialize (pre @ written @ post) (length pre) = Some (newStringAction CSSDisplayNoneSelector s (length pre)) \<and>
    deserializeType (pre @ written @ post) (length pre) = Some CSSDisplayNoneSelector \<and>
    serializedLength (pre @ written @ post) (length pre) = Some (length written)"
proof -
  have "length pre + length (selectorBytes s) < 2 ^ 32" using assms(2) by (auto simp: length_selectorBytes split: if_splits)
  note d = deserialize_selector [OF assms(1) this, of post]
  show ?thesis by (intro exI [of _ "selectorBytes s"] conjI d serializeSelector_bytes [OF assms(1)])
qed

theorem selector_roundtrip_witness:
  "\<exists>written. serializeSelector [4] (String16 [46, 945]) = Some ([4] @ written) \<and>
    deserialize ([4] @ written @ [0]) 1 = Some (newStringAction CSSDisplayNoneSelector (String16 [46, 945]) 1)"
  using selector_roundtrip [of "String16 [46, 945]" "[4]" "[0]"] by (auto simp: string_length_def)

text \<open>C21: \<^verbatim>\<open>serializeActions\<close> returns for every rule list with actions it supports, and the
  location it gives to a rule holds an action of the rule's type; for a selector it is the comma-separated
  list of selectors of rules with the same trigger, the rule's own among them.\<close>

theorem serializeActions_correct:
  assumes "\<forall>r \<in> set rules. serializable r" "rules_cost rules < 2 ^ 32"
  shows "\<exists>locs actions. serializeActions rules = Some (locs, actions) \<and> length locs = length rules \<and>
    length actions \<le> rules_cost rules \<and> (\<forall>i < length rules. served rules actions (locs ! i) (rules ! i))"
  using serializeActions_ok [OF assms] placedD(1,2) by fastforce

definition example_rules :: "ContentExtensionRule list" where
  "example_rules = map (\<lambda>a. \<lparr>m_trigger = newTrigger\<lparr>urlFilter := Some [97]\<rparr>, m_action = a\<rparr>)
     [newStringAction CSSDisplayNoneSelector (String8 [46]) invalidActionID, newAction BlockLoad invalidActionID,
      newAction IgnorePreviousRules invalidActionID, newAction BlockLoad invalidActionID]"

lemmas example_rules_simps = example_rules_def serializable_def plain_def rules_cost_def rule_cost_def newAction_def
  newStringAction_def string_length_def trigger_isEmpty_def newTrigger_def

theorem serializeActions_correct_witness:
  "\<exists>locs actions. serializeActions example_rules = Some (locs, actions) \<and> length locs = 4 \<and>
    served example_rules actions (locs ! 0) (example_rules ! 0)"
  using serializeActions_correct [of example_rules] by (auto simp: example_rules_simps)

text \<open>C22: the locations keep the order of the rules wherever it matters: of two rules of
  which exactly one ignores the previous rules, the later one has the larger location, although
  actions are shared and the selectors written late.\<close>

theorem serializeActions_ordered:
  assumes "\<forall>r \<in> set rules. serializable r" "rules_cost rules < 2 ^ 32"
    and "i < j" "j < length rules" "(kind (rules ! i) = IgnorePreviousRules) \<noteq> (kind (rules ! j) = IgnorePreviousRules)"
  shows "\<exists>locs actions. serializeActions rules = Some (locs, actions) \<and> locs ! i < locs ! j"
  using serializeActions_ok [OF assms(1,2)] placedD(4) [OF _ assms(3,4) _ _ assms(5)] by fastforce

theorem serializeActions_ordered_witness:
  "\<exists>locs actions. serializeActions example_rules = Some (locs, actions) \<and> locs ! 0 < locs ! 2"
  using serializeActions_ordered [of example_rules 0 2] by (simp add: example_rules_simps)

end
