(* ===== verification/DFABytecodeCompiler.thy ===== *)
theory DFABytecodeCompiler
  imports DFA DFABytecode ResourceLoadInfo
begin

text \<open>
  \<^verbatim>\<open>DFABytecodeCompiler.cpp\<close>: the translation of an automaton into bytecode. The transitions of a node
  become jump tables, checks of values and ranges and a fallback jump; jumps are emitted with
  the smallest size that can hold their distance, and linked at the end.
\<close>

section \<open>Emitting bytes\<close>

record LinkRecord =
  lr_jumpSize :: DFABytecodeJumpSize
  lr_longestPossibleJump :: int
  lr_instructionLocation :: nat
  lr_jumpLocation :: nat
  lr_destinationNodeIndex :: nat

record Compiler =
  m_bytecode :: "byte list"
  m_maxNodeStartOffsets :: "nat list"
  m_nodeStartOffsets :: "nat list"
  m_linkRecords :: "LinkRecord list"

text \<open>The greatest 32-bit value marks a node that is not compiled yet.\<close>

definition noOffset :: nat where "noOffset = 2 ^ 32 - 1"

definition appendBytes :: "nat \<Rightarrow> int \<Rightarrow> Compiler \<Rightarrow> Compiler" where
  "appendBytes n value st = st\<lparr>m_bytecode := m_bytecode st @ bytesOf n value\<rparr>"

fun appendZeroes :: "DFABytecodeJumpSize \<Rightarrow> Compiler \<Rightarrow> Compiler" where
  "appendZeroes Int8 st = appendBytes 1 0 st"
| "appendZeroes Int16 st = appendBytes 2 0 st"
| "appendZeroes Int24 st = appendBytes 1 0 (appendBytes 2 0 st)"
| "appendZeroes Int32 st = appendBytes 4 0 st"

definition appendInstruction :: "DFABytecodeInstruction \<Rightarrow> Compiler \<Rightarrow> Compiler" where
  "appendInstruction instruction st = appendBytes 1 (uint (instruction_value instruction)) st"

definition appendJumpInstruction :: "DFABytecodeInstruction \<Rightarrow> DFABytecodeJumpSize \<Rightarrow> Compiler \<Rightarrow> Compiler" where
  "appendJumpInstruction instruction jumpSize st =
     appendBytes 1 (uint (instruction_value instruction OR jumpSize_value jumpSize)) st"

definition appendActionBytecodeSize :: "uint64 \<Rightarrow> nat" where
  "appendActionBytecodeSize action = (if action AND ActionFlagMask \<noteq> 0 then 1 + 2 + 4 else 1 + 4)"

definition emitAppendAction :: "uint64 \<Rightarrow> Compiler \<Rightarrow> Compiler" where
  "emitAppendAction action st =
     (if action AND ActionFlagMask \<noteq> 0 then
        (let st = appendInstruction (if action AND IfDomainFlag \<noteq> 0 then TestFlagsAndAppendActionWithIfDomain
                                     else TestFlagsAndAppendAction) st;
             st = appendBytes 2 (uint (drop_bit 32 action)) st
         in appendBytes 4 (uint action) st)
      else
        (let st = appendInstruction (if action AND IfDomainFlag \<noteq> 0 then AppendActionWithIfDomain else AppendAction) st
         in appendBytes 4 (uint action) st))"

text \<open>A 32-bit signed value: the unsigned differences wrap around and are converted.\<close>

definition int32 :: "int \<Rightarrow> int" where
  "int32 v = (v + 2 ^ 31) mod 2 ^ 32 - 2 ^ 31"

definition longestPossibleJump :: "nat \<Rightarrow> nat \<Rightarrow> nat \<Rightarrow> Compiler \<Rightarrow> int" where
  "longestPossibleJump instructionLocation sourceNodeIndex destinationNodeIndex st =
     (if m_nodeStartOffsets st ! destinationNodeIndex = noOffset then
        int32 (int (m_maxNodeStartOffsets st ! destinationNodeIndex) - int (m_maxNodeStartOffsets st ! sourceNodeIndex)
          - (int (m_nodeStartOffsets st ! sourceNodeIndex) - int instructionLocation))
      else int32 (int (m_nodeStartOffsets st ! destinationNodeIndex) - int instructionLocation))"

definition appendLinkRecord :: "LinkRecord \<Rightarrow> Compiler \<Rightarrow> Compiler" where
  "appendLinkRecord record st = st\<lparr>m_linkRecords := m_linkRecords st @ [record]\<rparr>"

definition emitJump :: "nat \<Rightarrow> nat \<Rightarrow> Compiler \<Rightarrow> Compiler" where
  "emitJump sourceNodeIndex destinationNodeIndex st =
     (let instructionLocation = length (m_bytecode st);
          jumpLocation = instructionLocation + 1;
          longestPossibleJumpDistance = longestPossibleJump instructionLocation sourceNodeIndex destinationNodeIndex st;
          jumpSize = smallestPossibleJumpSize longestPossibleJumpDistance;
          st = appendJumpInstruction Jump jumpSize st;
          st = appendLinkRecord \<lparr>lr_jumpSize = jumpSize, lr_longestPossibleJump = longestPossibleJumpDistance,
                 lr_instructionLocation = instructionLocation, lr_jumpLocation = jumpLocation,
                 lr_destinationNodeIndex = destinationNodeIndex\<rparr> st
      in appendZeroes jumpSize st)"

definition emitCheckValue :: "nat \<Rightarrow> nat \<Rightarrow> nat \<Rightarrow> bool \<Rightarrow> Compiler \<Rightarrow> Compiler" where
  "emitCheckValue value sourceNodeIndex destinationNodeIndex caseSensitive st =
     (let instructionLocation = length (m_bytecode st);
          jumpLocation = instructionLocation + 2;
          longestPossibleJumpDistance = longestPossibleJump instructionLocation sourceNodeIndex destinationNodeIndex st;
          jumpSize = smallestPossibleJumpSize longestPossibleJumpDistance;
          instruction = (if caseSensitive then CheckValueCaseSensitive else CheckValueCaseInsensitive);
          st = appendJumpInstruction instruction jumpSize st;
          st = appendBytes 1 (int value) st;
          st = appendLinkRecord \<lparr>lr_jumpSize = jumpSize, lr_longestPossibleJump = longestPossibleJumpDistance,
                 lr_instructionLocation = instructionLocation, lr_jumpLocation = jumpLocation,
                 lr_destinationNodeIndex = destinationNodeIndex\<rparr> st
      in appendZeroes jumpSize st)"

definition emitCheckValueRange :: "nat \<Rightarrow> nat \<Rightarrow> nat \<Rightarrow> nat \<Rightarrow> bool \<Rightarrow> Compiler \<Rightarrow> Compiler" where
  "emitCheckValueRange lowValue highValue sourceNodeIndex destinationNodeIndex caseSensitive st =
     (let instructionLocation = length (m_bytecode st);
          jumpLocation = instructionLocation + 3;
          longestPossibleJumpDistance = longestPossibleJump instructionLocation sourceNodeIndex destinationNodeIndex st;
          jumpSize = smallestPossibleJumpSize longestPossibleJumpDistance;
          instruction = (if caseSensitive then CheckValueRangeCaseSensitive else CheckValueRangeCaseInsensitive);
          st = appendJumpInstruction instruction jumpSize st;
          st = appendBytes 1 (int lowValue) st;
          st = appendBytes 1 (int highValue) st;
          st = appendLinkRecord \<lparr>lr_jumpSize = jumpSize, lr_longestPossibleJump = longestPossibleJumpDistance,
                 lr_instructionLocation = instructionLocation, lr_jumpLocation = jumpLocation,
                 lr_destinationNodeIndex = destinationNodeIndex\<rparr> st
      in appendZeroes jumpSize st)"

definition emitTerminate :: "Compiler \<Rightarrow> Compiler" where
  "emitTerminate st = appendInstruction Terminate st"

section \<open>The transitions of a node\<close>

record Range =
  r_min :: nat
  r_max :: nat
  r_destination :: nat
  r_caseSensitive :: bool

record JumpTable =
  jt_min :: nat
  jt_max :: nat
  jt_caseSensitive :: bool
  jt_destinations :: "nat list"

record Transitions =
  t_jumpTables :: "JumpTable list"
  t_ranges :: "Range list"
  useFallbackTransition :: bool
  fallbackTransitionTarget :: nat

definition noDestination :: nat where "noDestination = 2 ^ 32 - 1"

fun fillDestinations :: "nat rangeSeq \<Rightarrow> bool \<Rightarrow> nat \<Rightarrow> nat list \<Rightarrow> nat list" where
  "fillDestinations [] useFallback fallback destinations = destinations"
| "fillDestinations ((f, l, targetNodeIndex) # rest) useFallback fallback destinations =
     (if useFallback \<and> fallback = targetNodeIndex then fillDestinations rest useFallback fallback destinations
      else fillDestinations rest useFallback fallback
             (overwrite [nat f ..< nat (l + 1)] targetNodeIndex destinations))"

definition sameInLowerCase :: "nat list \<Rightarrow> nat \<Rightarrow> nat \<Rightarrow> bool" where
  "sameInLowerCase destinations rangeMin rangeMax =
     list_all (\<lambda>rangeIndex. destinations ! rangeMin = destinations ! toASCIILower rangeIndex) [rangeMin ..< rangeMax + 1]"

text \<open>The end of a range: whether it can be case-insensitive, and then its lower-case letters
  need no range of their own.\<close>

definition closeRange :: "nat \<Rightarrow> nat \<Rightarrow> nat list \<Rightarrow> Range list \<Rightarrow> nat list \<times> Range list" where
  "closeRange rangeMin rangeMax destinations ranges =
     (let caseSensitive = \<not> (65 \<le> rangeMin \<and> rangeMax \<le> 90 \<and> sameInLowerCase destinations rangeMin rangeMax)
      in if \<not> caseSensitive then
           (overwrite (map toASCIILower [rangeMin ..< rangeMax + 1]) noDestination destinations,
            ranges @ [\<lparr>r_min = toASCIILower rangeMin, r_max = toASCIILower rangeMax,
                       r_destination = destinations ! rangeMin, r_caseSensitive = caseSensitive\<rparr>])
         else
           (destinations,
            ranges @ [\<lparr>r_min = rangeMin, r_max = rangeMax,
                       r_destination = destinations ! rangeMin, r_caseSensitive = caseSensitive\<rparr>]))"

text \<open>The loop over the characters; \<open>rangeMin\<close> is \<open>None\<close> while \<^verbatim>\<open>hasRangeMin\<close> is false.\<close>

fun collectRanges :: "nat list \<Rightarrow> nat option \<Rightarrow> nat list \<Rightarrow> Range list \<Rightarrow> Range list" where
  "collectRanges [] (Some rangeMin) destinations ranges =
     ranges @ [\<lparr>r_min = rangeMin, r_max = 127, r_destination = destinations ! rangeMin, r_caseSensitive = True\<rparr>]"
| "collectRanges [] None destinations ranges = ranges"
| "collectRanges (i # rest) (Some rangeMin) destinations ranges =
     (if destinations ! i \<noteq> destinations ! rangeMin then
        (let (destinations, ranges) = closeRange rangeMin (i - 1) destinations ranges
         in collectRanges rest (if destinations ! i = noDestination then None else Some i) destinations ranges)
      else collectRanges rest (Some rangeMin) destinations ranges)"
| "collectRanges (i # rest) None destinations ranges =
     collectRanges rest (if destinations ! i \<noteq> noDestination then Some i else None) destinations ranges"

text \<open>The table of a run of ranges; \<^verbatim>\<open>extractJumpTable\<close> also removes the run from the vector.\<close>

definition extractJumpTable :: "Range list \<Rightarrow> JumpTable" where
  "extractJumpTable run =
     \<lparr>jt_min = r_min (hd run), jt_max = r_max (last run), jt_caseSensitive = r_caseSensitive (last run),
      jt_destinations = map r_destination run\<rparr>"

text \<open>The loop over the ranges. The vector is \<open>before @ run @ rest\<close>: the position of the loop is at
  the head of \<open>rest\<close>, and the run starts at \<^verbatim>\<open>baseRangePosition\<close>; it is empty while \<^verbatim>\<open>baseRange\<close> is null.
  Every round moves one range out of \<open>rest\<close>, and a range that ends a run is not the base of
  another.\<close>

fun collectJumpTables :: "Range list \<Rightarrow> Range list \<Rightarrow> Range list \<Rightarrow> JumpTable list \<Rightarrow> JumpTable list \<times> Range list" where
  "collectJumpTables before run [] jumpTables =
     (if run \<noteq> [] \<and> length run > 1 then (jumpTables @ [extractJumpTable run], before)
      else (jumpTables, before @ run))"
| "collectJumpTables before run (r # rest) jumpTables =
     (if run \<noteq> [] then
        if r_min r \<noteq> r_max r \<or> r_caseSensitive (hd run) \<noteq> r_caseSensitive r \<or>
           r_max (last run) + 1 \<noteq> r_min r then
          if length run > 1 then
            collectJumpTables (before @ [r]) [] rest (jumpTables @ [extractJumpTable run])
          else collectJumpTables (before @ run @ [r]) [] rest jumpTables
        else collectJumpTables before (run @ [r]) rest jumpTables
      else
        if r_min r = r_max r then collectJumpTables before [r] rest jumpTables
        else collectJumpTables (before @ [r]) [] rest jumpTables)"

definition nodeTransitions :: "DFA \<Rightarrow> DFANode \<Rightarrow> Transitions option" where
  "nodeTransitions dfa node = do {
     let useFallback = canUseFallbackTransition dfa node;
     fallback \<leftarrow> (if useFallback then bestFallbackTarget dfa node else Some (2 ^ 32 - 1));
     let destinations = fillDestinations (dfa_transitions dfa node) useFallback fallback (replicate 128 noDestination);
     let ranges = collectRanges [0..<128] None destinations [];
     let (jumpTables, ranges) = collectJumpTables [] [] ranges [];
     Some \<lparr>t_jumpTables = jumpTables, t_ranges = ranges, useFallbackTransition = useFallback,
           fallbackTransitionTarget = fallback\<rparr>
   }"

section \<open>Compiling\<close>

definition checkForJumpTableMaxBytecodeSize :: "JumpTable \<Rightarrow> nat" where
  "checkForJumpTableMaxBytecodeSize jumpTable = (1 + 2) + (jt_max jumpTable - jt_min jumpTable + 1) * 4"

definition checkForRangeMaxBytecodeSize :: "Range \<Rightarrow> nat" where
  "checkForRangeMaxBytecodeSize r = (if r_min r = r_max r then 1 + 1 + 4 else 1 + 2 + 4)"

definition nodeTransitionsMaxBytecodeSize :: "DFA \<Rightarrow> DFANode \<Rightarrow> nat option" where
  "nodeTransitionsMaxBytecodeSize dfa node = do {
     ts \<leftarrow> nodeTransitions dfa node;
     Some (sum_list (map checkForJumpTableMaxBytecodeSize (t_jumpTables ts))
       + sum_list (map checkForRangeMaxBytecodeSize (t_ranges ts))
       + (if useFallbackTransition ts then 1 + 4 else 1))
   }"

definition compiledNodeMaxBytecodeSize :: "DFA \<Rightarrow> nat \<Rightarrow> nat option" where
  "compiledNodeMaxBytecodeSize dfa index =
     (let node = dfa_nodes dfa ! index in
      if m_isKilled node then Some 0
      else do {
        transitionsSize \<leftarrow> nodeTransitionsMaxBytecodeSize dfa node;
        Some (sum_list (map appendActionBytecodeSize (dfa_nodeActions dfa node)) + transitionsSize)
      })"

fun jumpTableSize :: "nat \<Rightarrow> nat \<Rightarrow> nat list \<Rightarrow> Compiler \<Rightarrow> DFABytecodeJumpSize \<Rightarrow> DFABytecodeJumpSize" where
  "jumpTableSize instructionLocation nodeIndex [] st jumpSize = jumpSize"
| "jumpTableSize instructionLocation nodeIndex (destination # rest) st jumpSize =
     jumpTableSize instructionLocation nodeIndex rest st
       (max jumpSize (smallestPossibleJumpSize (longestPossibleJump instructionLocation nodeIndex destination st)))"

fun emitJumpTargets :: "nat \<Rightarrow> nat \<Rightarrow> DFABytecodeJumpSize \<Rightarrow> nat list \<Rightarrow> Compiler \<Rightarrow> Compiler" where
  "emitJumpTargets instructionLocation nodeIndex jumpSize [] st = st"
| "emitJumpTargets instructionLocation nodeIndex jumpSize (destination # rest) st =
     (let longestPossibleJumpDistance = longestPossibleJump instructionLocation nodeIndex destination st;
          jumpLocation = length (m_bytecode st);
          st = appendLinkRecord \<lparr>lr_jumpSize = jumpSize, lr_longestPossibleJump = longestPossibleJumpDistance,
                 lr_instructionLocation = instructionLocation, lr_jumpLocation = jumpLocation,
                 lr_destinationNodeIndex = destination\<rparr> st
      in emitJumpTargets instructionLocation nodeIndex jumpSize rest (appendZeroes jumpSize st))"

definition compileJumpTable :: "nat \<Rightarrow> JumpTable \<Rightarrow> Compiler \<Rightarrow> Compiler" where
  "compileJumpTable nodeIndex jumpTable st =
     (let instructionLocation = length (m_bytecode st);
          jumpSize = jumpTableSize instructionLocation nodeIndex (jt_destinations jumpTable) st Int8;
          instruction = (if jt_caseSensitive jumpTable then JumpTableCaseSensitive else JumpTableCaseInsensitive);
          st = appendJumpInstruction instruction jumpSize st;
          st = appendBytes 1 (int (jt_min jumpTable)) st;
          st = appendBytes 1 (int (jt_max jumpTable)) st
      in emitJumpTargets instructionLocation nodeIndex jumpSize (jt_destinations jumpTable) st)"

definition compileCheckForRange :: "nat \<Rightarrow> Range \<Rightarrow> Compiler \<Rightarrow> Compiler" where
  "compileCheckForRange nodeIndex r st =
     (if r_min r = r_max r then
        emitCheckValue (r_min r) nodeIndex (r_destination r) (r_caseSensitive r) st
      else emitCheckValueRange (r_min r) (r_max r) nodeIndex (r_destination r) (r_caseSensitive r) st)"

definition compileNodeTransitions :: "DFA \<Rightarrow> nat \<Rightarrow> Compiler \<Rightarrow> Compiler option" where
  "compileNodeTransitions dfa nodeIndex st = do {
     ts \<leftarrow> nodeTransitions dfa (dfa_nodes dfa ! nodeIndex);
     let st = fold (compileJumpTable nodeIndex) (t_jumpTables ts) st;
     let st = fold (compileCheckForRange nodeIndex) (t_ranges ts) st;
     Some (if useFallbackTransition ts then emitJump nodeIndex (fallbackTransitionTarget ts) st else emitTerminate st)
   }"

definition recordStart :: "nat \<Rightarrow> Compiler \<Rightarrow> Compiler" where
  "recordStart index st = st\<lparr>m_nodeStartOffsets := (m_nodeStartOffsets st)[index := length (m_bytecode st)]\<rparr>"

definition compileNode :: "DFA \<Rightarrow> nat \<Rightarrow> bool \<Rightarrow> Compiler \<Rightarrow> Compiler option" where
  "compileNode dfa index root st =
     (let node = dfa_nodes dfa ! index in
      if m_isKilled node then Some st
      else
        (let st = (if \<not> root then recordStart index st else st);
             st = fold emitAppendAction (dfa_nodeActions dfa node) st;
             st = (if root then recordStart index st else st)
         in compileNodeTransitions dfa index st))"

fun compileNodes :: "DFA \<Rightarrow> nat list \<Rightarrow> Compiler \<Rightarrow> Compiler option" where
  "compileNodes dfa [] st = Some st"
| "compileNodes dfa (i # rest) st = do {
     st \<leftarrow> (if i \<noteq> dfa_root dfa then compileNode dfa i False st else Some st);
     compileNodes dfa rest st
   }"

fun fillMaxOffsets :: "DFA \<Rightarrow> nat list \<Rightarrow> nat \<Rightarrow> nat list \<Rightarrow> nat list option" where
  "fillMaxOffsets dfa [] nextIndex offsets = Some offsets"
| "fillMaxOffsets dfa (i # rest) nextIndex offsets =
     (if i \<noteq> dfa_root dfa then do {
        size \<leftarrow> compiledNodeMaxBytecodeSize dfa i;
        fillMaxOffsets dfa rest (nextIndex + size) (offsets[i := nextIndex])
      }
      else fillMaxOffsets dfa rest nextIndex offsets)"

definition linkRecord :: "nat list \<Rightarrow> LinkRecord \<Rightarrow> byte list \<Rightarrow> byte list option" where
  "linkRecord nodeStartOffsets record bytecode =
     (let destination = nodeStartOffsets ! lr_destinationNodeIndex record in
      if destination < 2 ^ 31 - 1 then
        (let distance = int32 (int destination - int (lr_instructionLocation record));
             location = lr_jumpLocation record in
         case lr_jumpSize record of
           Int8 \<Rightarrow> if - 128 \<le> distance \<and> distance \<le> 127 then setBits 1 bytecode location distance else None
         | Int16 \<Rightarrow> if - 32768 \<le> distance \<and> distance \<le> 32767 then setBits 2 bytecode location distance else None
         | Int24 \<Rightarrow>
             if Int24Min \<le> distance \<and> distance \<le> Int24Max then do {
               bytecode \<leftarrow> setBits 2 bytecode location distance;
               setBits 1 bytecode (location + 2) (drop_bit 16 distance)
             } else None
         | Int32 \<Rightarrow> setBits 4 bytecode location distance)
      else None)"

fun linkRecords :: "nat list \<Rightarrow> LinkRecord list \<Rightarrow> byte list \<Rightarrow> byte list option" where
  "linkRecords nodeStartOffsets [] bytecode = Some bytecode"
| "linkRecords nodeStartOffsets (record # rest) bytecode = do {
     bytecode \<leftarrow> linkRecord nodeStartOffsets record bytecode;
     linkRecords nodeStartOffsets rest bytecode
   }"

definition maxNodeStartOffsets :: "DFA \<Rightarrow> nat list option" where
  "maxNodeStartOffsets dfa =
     (let rootActionsSize = sum_list (map appendActionBytecodeSize (dfa_nodeActions dfa (dfa_nodes dfa ! dfa_root dfa)));
          offsets = (replicate (length (dfa_nodes dfa)) 0)[dfa_root dfa := 4 + rootActionsSize]
      in do {
        rootSize \<leftarrow> compiledNodeMaxBytecodeSize dfa (dfa_root dfa);
        fillMaxOffsets dfa [0..<length (dfa_nodes dfa)] (4 + rootSize) offsets
      })"

definition compile :: "DFA \<Rightarrow> byte list \<Rightarrow> byte list option" where
  "compile dfa bytecode =
     (let startLocation = length bytecode;
          st = \<lparr>m_bytecode = bytecode, m_maxNodeStartOffsets = [], m_nodeStartOffsets = [], m_linkRecords = []\<rparr>;
          st = appendBytes 4 0 st;
          st = st\<lparr>m_nodeStartOffsets := replicate (length (dfa_nodes dfa)) noOffset\<rparr>
      in do {
        maxOffsets \<leftarrow> maxNodeStartOffsets dfa;
        let st = st\<lparr>m_maxNodeStartOffsets := maxOffsets\<rparr>;
        st \<leftarrow> compileNode dfa (dfa_root dfa) True st;
        st \<leftarrow> compileNodes dfa [0..<length (dfa_nodes dfa)] st;
        bytecode \<leftarrow> linkRecords (m_nodeStartOffsets st) (m_linkRecords st) (m_bytecode st);
        setBits 4 bytecode startLocation (int (length bytecode - startLocation))
      })"

section \<open>The ranges of a node\<close>

lemma overwrite_nth [simp]:
  "length (overwrite is v xs) = length xs"
  "c < length xs \<Longrightarrow> overwrite is v xs ! c = (if c \<in> set is then v else xs ! c)"
  by (induction "is" v xs rule: overwrite.induct) (auto simp: nth_list_update)

lemma fillDestinations_ok:
  assumes "sorted_ranges m 127 ts" "0 \<le> m" "length d = 128" "c < 128"
  shows "length (fillDestinations ts uf fb d) = 128"
    "fillDestinations ts uf fb d ! c =
      (case range_at ts (int c) of Some t \<Rightarrow> if uf \<and> fb = t then d ! c else t | None \<Rightarrow> d ! c)"
proof -
  have "length (fillDestinations ts uf fb d) = 128 \<and> fillDestinations ts uf fb d ! c =
      (case range_at ts (int c) of Some t \<Rightarrow> if uf \<and> fb = t then d ! c else t | None \<Rightarrow> d ! c)"
    using assms
  proof (induction ts arbitrary: m d)
    case (Cons x ts)
    obtain f l t where x: "x = (f, l, t)" by (cases x) auto
    have s: "m \<le> f" "f \<le> l" "l \<le> 127" "sorted_ranges (l + 1) 127 ts" using Cons.prems by (auto simp: x)
    let ?d = "if uf \<and> fb = t then d else overwrite [nat f ..< nat (l + 1)] t d"
    have go: "fillDestinations (x # ts) uf fb d = fillDestinations ts uf fb ?d" by (simp add: x)
    have IH: "length (fillDestinations ts uf fb ?d) = 128" "fillDestinations ts uf fb ?d ! c =
        (case range_at ts (int c) of Some t \<Rightarrow> if uf \<and> fb = t then ?d ! c else t | None \<Rightarrow> ?d ! c)"
      using Cons.IH [OF s(4), of ?d] Cons.prems s by auto
    have in_range: "c \<in> set [nat f ..< nat (l + 1)] \<longleftrightarrow> f \<le> int c \<and> int c \<le> l" using s Cons.prems(2) by auto
    show ?case
    proof (cases "f \<le> int c \<and> int c \<le> l")
      case True
      then have "range_at ts (int c) = None" by (intro range_at_below [OF s(4)]) simp
      moreover have "?d ! c = (if uf \<and> fb = t then d ! c else t)" using True in_range Cons.prems(3,4) by simp
      moreover have "range_at (x # ts) (int c) = Some t" using True by (simp add: x)
      ultimately show ?thesis unfolding go using IH by simp
    next
      case False
      then have "?d ! c = d ! c" using in_range Cons.prems(3,4) by auto
      moreover have "range_at (x # ts) (int c) = range_at ts (int c)" using False by (auto simp: x)
      ultimately show ?thesis unfolding go using IH by (simp only:)
    qed
  qed simp
  then show "length (fillDestinations ts uf fb d) = 128"
    "fillDestinations ts uf fb d ! c =
      (case range_at ts (int c) of Some t \<Rightarrow> if uf \<and> fb = t then d ! c else t | None \<Rightarrow> d ! c)" by blast+
qed

text \<open>A range matches a character, or its lower case. Ranges represent a vector of destinations up
  to a bound: every match has the destination of the character, and every character below the
  bound that has a destination is matched.\<close>

definition r_matches :: "Range \<Rightarrow> nat \<Rightarrow> bool" where
  "r_matches r c \<longleftrightarrow>
     (let c' = if r_caseSensitive r then c else toASCIILower c in r_min r \<le> c' \<and> c' \<le> r_max r)"

definition range_wf :: "Range \<Rightarrow> bool" where
  "range_wf r \<longleftrightarrow> r_min r \<le> r_max r \<and> r_max r < 128 \<and> (\<not> r_caseSensitive r \<longrightarrow> 97 \<le> r_min r)"

definition ranges_for :: "nat list \<Rightarrow> Range list \<Rightarrow> nat \<Rightarrow> bool" where
  "ranges_for D rs b \<longleftrightarrow>
     (\<forall>r \<in> set rs. range_wf r \<and> r_destination r \<noteq> noDestination \<and> (\<forall>c < 128. r_matches r c \<longrightarrow> r_destination r = D ! c)) \<and>
     (\<forall>c < b. D ! c \<noteq> noDestination \<longrightarrow> (\<exists>r \<in> set rs. r_matches r c))"

definition destinations_left :: "nat list \<Rightarrow> Range list \<Rightarrow> nat list \<Rightarrow> nat \<Rightarrow> bool" where
  "destinations_left D rs d b \<longleftrightarrow> length d = 128 \<and>
     (\<forall>c. b \<le> c \<and> c < 128 \<longrightarrow> d ! c = D ! c \<or> d ! c = noDestination \<and> (\<exists>r \<in> set rs. r_matches r c))"

definition pending :: "nat option \<Rightarrow> nat list \<Rightarrow> nat \<Rightarrow> bool" where
  "pending m d i \<longleftrightarrow>
     (case m of None \<Rightarrow> True | Some k \<Rightarrow> k < i \<and> d ! k \<noteq> noDestination \<and> (\<forall>c. k < c \<and> c < i \<longrightarrow> d ! c = d ! k))"

lemma toASCIILower_image:
  assumes "65 \<le> m" "n \<le> 91"
  shows "c \<in> toASCIILower ` {m..<n} \<longleftrightarrow> m + 32 \<le> c \<and> c < n + 32"
proof
  assume "m + 32 \<le> c \<and> c < n + 32"
  with assms have "toASCIILower (c - 32) = c" "c - 32 \<in> {m..<n}" by (auto simp: toASCIILower_def)
  then show "c \<in> toASCIILower ` {m..<n}" by (metis image_eqI)
next
  assume "c \<in> toASCIILower ` {m..<n}"
  then obtain k where "c = toASCIILower k" "m \<le> k" "k < n" by auto
  with assms show "m + 32 \<le> c \<and> c < n + 32" by (simp add: toASCIILower_def)
qed

lemma ranges_for_append:
  assumes rf: "ranges_for D rs m" and r: "range_wf r" "r_destination r \<noteq> noDestination"
    and D: "\<And>c. c < 128 \<Longrightarrow> r_matches r c \<Longrightarrow> r_destination r = D ! c"
    and cover: "\<And>c. m \<le> c \<Longrightarrow> c < i \<Longrightarrow> r_matches r c"
  shows "ranges_for D (rs @ [r]) i"
  unfolding ranges_for_def
proof (intro conjI ballI allI impI)
  fix r' assume r': "r' \<in> set (rs @ [r])"
  show "range_wf r'" using r' r(1) rf by (cases "r' = r") (simp_all add: ranges_for_def)
  show "r_destination r' \<noteq> noDestination" using r' r(2) rf by (cases "r' = r") (simp_all add: ranges_for_def)
  fix c assume "c < 128" "r_matches r' c"
  then show "r_destination r' = D ! c" using r' D rf by (cases "r' = r") (simp_all add: ranges_for_def)
next
  fix c assume c: "c < i" "D ! c \<noteq> noDestination"
  show "\<exists>r' \<in> set (rs @ [r]). r_matches r' c"
  proof (cases "c < m")
    case True
    with rf c(2) obtain r' where "r' \<in> set rs" "r_matches r' c" by (auto simp: ranges_for_def)
    then show ?thesis by auto
  next
    case False
    with cover [of c] c(1) show ?thesis by simp
  qed
qed

lemma destinations_left_append:
  assumes left: "destinations_left D rs d m" and "m \<le> i" and len: "length d' = 128"
    and d': "\<And>c. i \<le> c \<Longrightarrow> c < 128 \<Longrightarrow> d' ! c = d ! c \<or> d' ! c = noDestination \<and> r_matches r c"
  shows "destinations_left D (rs @ [r]) d' i"
  unfolding destinations_left_def
proof (intro conjI allI impI len)
  fix c assume c: "i \<le> c \<and> c < 128"
  with left \<open>m \<le> i\<close> have "d ! c = D ! c \<or> d ! c = noDestination \<and> (\<exists>r \<in> set rs. r_matches r c)"
    unfolding destinations_left_def by (meson le_trans)
  moreover have "d' ! c = d ! c \<or> d' ! c = noDestination \<and> r_matches r c" using c by (intro d') simp_all
  ultimately show "d' ! c = D ! c \<or> d' ! c = noDestination \<and> (\<exists>r' \<in> set (rs @ [r]). r_matches r' c)"
    by (metis UnCI list.set_intros(1) set_append)
qed

lemma closeRange_ok:
  assumes rf: "ranges_for D rs m" and left: "destinations_left D rs d m" and p: "pending (Some m) d i" and i: "i < 128"
    and close: "closeRange m (i - 1) d rs = (d', rs')"
  shows "ranges_for D rs' i" "destinations_left D rs' d' i" "d ! i \<noteq> d ! m \<Longrightarrow> d' ! i = d ! i"
proof -
  have m: "m < i" "d ! m \<noteq> noDestination" "\<And>c. m < c \<Longrightarrow> c < i \<Longrightarrow> d ! c = d ! m"
    using p by (auto simp: pending_def)
  have Dm: "D ! c = d ! m" if "m \<le> c" "c < i" for c
    using left m(3) [of c] m(2) that i by (cases "m = c") (auto simp: destinations_left_def)
  define ci where "ci \<longleftrightarrow> 65 \<le> m \<and> i - 1 \<le> 90 \<and> sameInLowerCase d m (i - 1)"
  have "ranges_for D rs' i \<and> destinations_left D rs' d' i \<and> (d ! i \<noteq> d ! m \<longrightarrow> d' ! i = d ! i)"
  proof (cases ci)
    case True
    then have b: "65 \<le> m" "i \<le> 91" "sameInLowerCase d m (i - 1)" using m(1) by (auto simp: ci_def)
    let ?r = "\<lparr>r_min = m + 32, r_max = i + 31, r_destination = d ! m, r_caseSensitive = False\<rparr>"
    have rs': "rs' = rs @ [?r]" and d': "d' = overwrite (map toASCIILower [m ..< i]) noDestination d"
      using close True m(1) b by (auto simp: closeRange_def ci_def Let_def toASCIILower_def)
    have lower: "c \<in> set (map toASCIILower [m..<i]) \<longleftrightarrow> m + 32 \<le> c \<and> c < i + 32" for c
      using toASCIILower_image [OF b(1,2), of c] by simp
    have matches: "r_matches ?r c \<longleftrightarrow> m \<le> c \<and> c < i \<or> m + 32 \<le> c \<and> c < i + 32" for c
      using b m(1) by (auto simp: r_matches_def toASCIILower_def)
    have low: "d ! c = d ! m" if "m + 32 \<le> c" "c < i + 32" for c
    proof -
      have "c - 32 \<in> set [m..<i - 1 + 1]" "toASCIILower (c - 32) = c" using that b m(1) by (auto simp: toASCIILower_def)
      with b(3) show ?thesis unfolding sameInLowerCase_def list_all_iff by metis
    qed
    have Dlow: "D ! c = d ! m" if "m + 32 \<le> c" "c < i + 32" for c
    proof -
      have "m \<le> c" "c < 128" using that b by auto
      then have "d ! c = D ! c \<or> d ! c = noDestination" using left unfolding destinations_left_def by blast
      with low [OF that] m(2) show ?thesis by simp
    qed
    have "ranges_for D rs' i"
      unfolding rs' using m(1,2) b by (intro ranges_for_append [OF rf]) (auto simp: matches Dm Dlow range_wf_def)
    moreover have "destinations_left D rs' d' i"
      unfolding rs' using left m(1) lower
      by (intro destinations_left_append [OF left]) (auto simp: destinations_left_def d' matches)
    moreover have "d' ! i = d ! i" using lower [of i] left i b m(1) by (simp add: d' destinations_left_def)
    ultimately show ?thesis by simp
  next
    case False
    let ?r = "\<lparr>r_min = m, r_max = i - 1, r_destination = d ! m, r_caseSensitive = True\<rparr>"
    have rs': "rs' = rs @ [?r]" and d': "d' = d"
      using close False by (auto simp: closeRange_def ci_def Let_def)
    have matches: "r_matches ?r c \<longleftrightarrow> m \<le> c \<and> c < i" for c using m(1) by (auto simp: r_matches_def)
    have "ranges_for D rs' i"
      unfolding rs' using m(1,2) i
      by (intro ranges_for_append [OF rf]) (auto simp: matches [unfolded One_nat_def] Dm range_wf_def)
    moreover have "destinations_left D rs' d' i"
      unfolding rs' d' using left m(1) by (intro destinations_left_append [OF left]) (auto simp: destinations_left_def)
    ultimately show ?thesis by (simp add: d')
  qed
  then show "ranges_for D rs' i" "destinations_left D rs' d' i" "d ! i \<noteq> d ! m \<Longrightarrow> d' ! i = d ! i" by blast+
qed

lemma collectRanges_ok:
  assumes "ranges_for D rs (case m of None \<Rightarrow> i | Some k \<Rightarrow> k)" "destinations_left D rs d (case m of None \<Rightarrow> i | Some k \<Rightarrow> k)"
    "pending m d i" "i \<le> 128"
  shows "ranges_for D (collectRanges [i..<128] m d rs) 128"
  using assms
proof (induction "128 - i" arbitrary: i m d rs)
  case 0
  then have i: "i = 128" by simp
  show ?case
  proof (cases m)
    case (Some k)
    let ?r = "\<lparr>r_min = k, r_max = 127, r_destination = d ! k, r_caseSensitive = True\<rparr>"
    have k: "k < 128" "d ! k \<noteq> noDestination" "\<And>c. k < c \<Longrightarrow> c < 128 \<Longrightarrow> d ! c = d ! k"
      using 0 i by (auto simp: pending_def Some)
    have "D ! c = d ! k" if "k \<le> c" "c < 128" for c
      using 0(3) k(3) [of c] k(2) that by (cases "k = c") (auto simp: destinations_left_def Some)
    then have "ranges_for D (rs @ [?r]) 128" using 0(2) k(1,2)
      by (intro ranges_for_append [of D rs k]) (auto simp: Some r_matches_def range_wf_def)
    then show ?thesis by (simp add: Some i)
  qed (use 0 i in simp)
next
  case (Suc x)
  then have i: "i < 128" and x: "x = 128 - Suc i" by simp_all
  have upt: "[i..<128] = i # [Suc i..<128]" using i by (simp add: upt_conv_Cons)
  note IH = Suc(1) [OF x]
  show ?case
  proof (cases m)
    case None
    let ?m = "if d ! i \<noteq> noDestination then Some i else None"
    have rf: "ranges_for D rs i" and left: "destinations_left D rs d i" using Suc.prems by (simp_all add: None)
    have "ranges_for D rs (case ?m of None \<Rightarrow> Suc i | Some k \<Rightarrow> k)"
      using rf left i by (auto simp: ranges_for_def destinations_left_def less_Suc_eq)
    moreover have "destinations_left D rs d (case ?m of None \<Rightarrow> Suc i | Some k \<Rightarrow> k)"
      using left by (auto simp: destinations_left_def)
    moreover have "pending ?m d (Suc i)" by (simp add: pending_def)
    ultimately show ?thesis using IH i by (simp add: upt None)
  next
    case (Some k)
    have rf: "ranges_for D rs k" and left: "destinations_left D rs d k" and p: "pending (Some k) d i"
      using Suc.prems by (simp_all add: Some)
    show ?thesis
    proof (cases "d ! i = d ! k")
      case True
      have "pending (Some k) d (Suc i)" using p True by (auto simp: pending_def less_Suc_eq)
      then show ?thesis using IH rf left i True by (simp add: upt Some)
    next
      case False
      obtain d' rs' where close: "closeRange k (i - 1) d rs = (d', rs')" by fastforce
      note c = closeRange_ok [OF rf left p i close]
      let ?m = "if d' ! i = noDestination then None else Some i"
      have "ranges_for D rs' (case ?m of None \<Rightarrow> Suc i | Some k \<Rightarrow> k)"
        using c(1,2) i by (auto simp: ranges_for_def destinations_left_def less_Suc_eq)
      moreover have "destinations_left D rs' d' (case ?m of None \<Rightarrow> Suc i | Some k \<Rightarrow> k)"
        using c(2) by (auto simp: destinations_left_def)
      moreover have "pending ?m d' (Suc i)" by (simp add: pending_def)
      ultimately show ?thesis using IH i False by (simp add: upt Some close [unfolded One_nat_def])
    qed
  qed
qed

text \<open>A jump table matches a character, or its lower case, with the destination at its place.\<close>

definition jt_matches :: "JumpTable \<Rightarrow> nat \<Rightarrow> nat \<Rightarrow> bool" where
  "jt_matches jt c d \<longleftrightarrow>
     (let c' = if jt_caseSensitive jt then c else toASCIILower c
      in jt_min jt \<le> c' \<and> c' \<le> jt_max jt \<and> jt_destinations jt ! (c' - jt_min jt) = d)"

definition table_wf :: "JumpTable \<Rightarrow> bool" where
  "table_wf jt \<longleftrightarrow> jt_min jt \<le> jt_max jt \<and> jt_max jt < 128 \<and> (\<not> jt_caseSensitive jt \<longrightarrow> 97 \<le> jt_min jt) \<and>
     length (jt_destinations jt) = jt_max jt - jt_min jt + 1"

definition checks_match :: "JumpTable list \<Rightarrow> Range list \<Rightarrow> nat \<Rightarrow> nat \<Rightarrow> bool" where
  "checks_match jts rs c d \<longleftrightarrow>
     (\<exists>jt \<in> set jts. jt_matches jt c d) \<or> (\<exists>r \<in> set rs. r_matches r c \<and> r_destination r = d)"

text \<open>A run of ranges of one character each, which follow each other.\<close>

fun is_run :: "Range list \<Rightarrow> bool" where
  "is_run [] = True"
| "is_run [r] \<longleftrightarrow> r_min r = r_max r"
| "is_run (r # r' # rs) \<longleftrightarrow> r_min r = r_max r \<and> r_max r + 1 = r_min r' \<and> r_caseSensitive r = r_caseSensitive r' \<and> is_run (r' # rs)"

lemma is_run_nth:
  assumes "is_run rs" "k < length rs"
  shows "r_min (rs ! k) = r_min (hd rs) + k" "r_max (rs ! k) = r_min (hd rs) + k"
    "r_caseSensitive (rs ! k) = r_caseSensitive (hd rs)"
proof -
  have "r_min (rs ! k) = r_min (hd rs) + k \<and> r_max (rs ! k) = r_min (hd rs) + k \<and>
      r_caseSensitive (rs ! k) = r_caseSensitive (hd rs)"
    using assms
  proof (induction rs arbitrary: k rule: is_run.induct)
    case (3 r r' rs)
    show ?case
    proof (cases k)
      case (Suc j)
      with 3 show ?thesis by fastforce
    qed (use 3 in simp)
  qed auto
  then show "r_min (rs ! k) = r_min (hd rs) + k" "r_max (rs ! k) = r_min (hd rs) + k"
    "r_caseSensitive (rs ! k) = r_caseSensitive (hd rs)" by blast+
qed

lemma is_run_snoc:
  "is_run rs \<Longrightarrow> rs \<noteq> [] \<Longrightarrow> r_min r = r_max r \<Longrightarrow> r_caseSensitive (hd rs) = r_caseSensitive r \<Longrightarrow>
   r_max (last rs) + 1 = r_min r \<Longrightarrow> is_run (rs @ [r])"
  by (induction rs rule: is_run.induct) auto

lemma extractJumpTable_ok:
  assumes run: "is_run run" "run \<noteq> []" and wf: "\<And>r. r \<in> set run \<Longrightarrow> range_wf r"
  shows "table_wf (extractJumpTable run)"
    "jt_matches (extractJumpTable run) c d \<longleftrightarrow> (\<exists>r \<in> set run. r_matches r c \<and> r_destination r = d)"
proof -
  let ?n = "length run" and ?b = "r_min (hd run)"
  have n: "0 < ?n" using run(2) by simp
  have last: "r_max (last run) = ?b + (?n - 1)" "r_caseSensitive (last run) = r_caseSensitive (hd run)"
    using n by (simp_all only: last_conv_nth [OF run(2)] is_run_nth [OF run(1), of "?n - 1"] diff_less zero_less_one)
  have "r_max (last run) < 128" using wf [of "last run"] run(2) by (simp add: range_wf_def)
  moreover have "\<not> r_caseSensitive (hd run) \<longrightarrow> 97 \<le> ?b" using wf [of "hd run"] run(2) by (simp add: range_wf_def)
  ultimately show "table_wf (extractJumpTable run)" using last n by (cases run) (auto simp: extractJumpTable_def table_wf_def)
  define c' where "c' = (if r_caseSensitive (hd run) then c else toASCIILower c)"
  have m: "r_matches (run ! k) c \<longleftrightarrow> c' = ?b + k" if "k < ?n" for k
    using is_run_nth [OF run(1) that] by (auto simp: r_matches_def c'_def Let_def)
  have "jt_matches (extractJumpTable run) c d \<longleftrightarrow> ?b \<le> c' \<and> c' - ?b < ?n \<and> r_destination (run ! (c' - ?b)) = d"
  proof -
    have "?b \<le> c' \<and> c' \<le> ?b + (?n - 1) \<longleftrightarrow> ?b \<le> c' \<and> c' - ?b < ?n" using n by arith
    moreover have "jt_matches (extractJumpTable run) c d \<longleftrightarrow>
        (?b \<le> c' \<and> c' \<le> ?b + (?n - 1)) \<and> map r_destination run ! (c' - ?b) = d"
      by (simp only: jt_matches_def extractJumpTable_def JumpTable.simps last c'_def Let_def conj_assoc)
    ultimately show ?thesis by (auto simp: nth_map)
  qed
  also have "\<dots> \<longleftrightarrow> (\<exists>k < ?n. c' = ?b + k \<and> r_destination (run ! k) = d)" by auto
  also have "\<dots> \<longleftrightarrow> (\<exists>r \<in> set run. r_matches r c \<and> r_destination r = d)"
    using m by (metis (no_types, lifting) in_set_conv_nth)
  finally show "jt_matches (extractJumpTable run) c d \<longleftrightarrow> (\<exists>r \<in> set run. r_matches r c \<and> r_destination r = d)" .
qed

lemma collectJumpTables_ok:
  assumes "collectJumpTables before run rs jts = (jts', rs')" "is_run run"
    "\<forall>r \<in> set (before @ run @ rs). range_wf r" "\<forall>jt \<in> set jts. table_wf jt"
  shows "(\<forall>r \<in> set rs'. range_wf r) \<and> (\<forall>jt \<in> set jts'. table_wf jt) \<and>
    (checks_match jts' rs' c d \<longleftrightarrow> checks_match jts (before @ run @ rs) c d)"
  using assms
proof (induction before run rs jts rule: collectJumpTables.induct)
  case (1 before run jts)
  show ?case
  proof (cases "length run > 1")
    case True
    then have ne: "run \<noteq> []" by auto
    with 1 True have r: "jts' = jts @ [extractJumpTable run]" "rs' = before" by auto
    note e = extractJumpTable_ok [OF 1(2) ne]
    have "table_wf (extractJumpTable run)" "jt_matches (extractJumpTable run) c d \<longleftrightarrow> (\<exists>r \<in> set run. r_matches r c \<and> r_destination r = d)"
      using e 1(3) by auto
    with 1(3,4) show ?thesis by (auto simp: r(1,2) checks_match_def)
  next
    case False
    with 1 show ?thesis by auto
  qed
next
  case (2 before run r rs jts)
  let ?brk = "r_min r \<noteq> r_max r \<or> r_caseSensitive (hd run) \<noteq> r_caseSensitive r \<or> r_max (last run) + 1 \<noteq> r_min r"
  consider (long) "run \<noteq> []" ?brk "length run > 1" | (short) "run \<noteq> []" ?brk "\<not> length run > 1"
    | (ext) "run \<noteq> []" "\<not> ?brk" | (start) "run = []" "r_min r = r_max r" | (skip) "run = []" "r_min r \<noteq> r_max r" by blast
  then show ?case
  proof cases
    case long
    have e: "table_wf (extractJumpTable run)" "jt_matches (extractJumpTable run) c d \<longleftrightarrow> (\<exists>r \<in> set run. r_matches r c \<and> r_destination r = d)"
      using extractJumpTable_ok [OF 2(7) long(1)] 2(8) by auto
    have "collectJumpTables (before @ [r]) [] rs (jts @ [extractJumpTable run]) = (jts', rs')" using 2(6) long by simp
    then have "(\<forall>r \<in> set rs'. range_wf r) \<and> (\<forall>jt \<in> set jts'. table_wf jt) \<and>
        (checks_match jts' rs' c d \<longleftrightarrow> checks_match (jts @ [extractJumpTable run]) ((before @ [r]) @ [] @ rs) c d)"
      using 2(1) [OF long] 2(8,9) e(1) by auto
    with e(2) show ?thesis by (auto simp: checks_match_def)
  next
    case short
    have "collectJumpTables (before @ run @ [r]) [] rs jts = (jts', rs')" using 2(6) short by simp
    then show ?thesis using 2(2) [OF short] 2(8,9) by simp
  next
    case ext
    have "collectJumpTables before (run @ [r]) rs jts = (jts', rs')" using 2(6) ext by simp
    moreover have "is_run (run @ [r])" using is_run_snoc [OF 2(7) ext(1)] ext(2) by auto
    ultimately show ?thesis using 2(3) [OF ext] 2(8,9) by simp
  next
    case start
    have "collectJumpTables before [r] rs jts = (jts', rs')" using 2(6) start by simp
    then show ?thesis using 2(4) start 2(8,9) by simp
  next
    case skip
    have "collectJumpTables (before @ [r]) [] rs jts = (jts', rs')" using 2(6) skip by simp
    then show ?thesis using 2(5) skip 2(8,9) by simp
  qed
qed

text \<open>The transitions of a node: its checks match exactly the characters with a transition that the
  fallback does not cover, with the target of the transition; the fallback covers 1 to 127.\<close>

definition transitions_ok :: "DFA \<Rightarrow> DFANode \<Rightarrow> Transitions \<Rightarrow> bool" where
  "transitions_ok dfa node ts \<longleftrightarrow>
     (\<forall>jt \<in> set (t_jumpTables ts). table_wf jt) \<and> (\<forall>r \<in> set (t_ranges ts). range_wf r) \<and>
     (\<forall>c < 128. \<forall>d. checks_match (t_jumpTables ts) (t_ranges ts) c d \<longleftrightarrow>
        range_at (dfa_transitions dfa node) (int c) = Some d \<and> \<not> (useFallbackTransition ts \<and> d = fallbackTransitionTarget ts)) \<and>
     (useFallbackTransition ts \<longrightarrow> (\<forall>c \<in> {1..127}. range_at (dfa_transitions dfa node) c \<noteq> None) \<and>
        (\<exists>c \<in> {1..127}. range_at (dfa_transitions dfa node) c = Some (fallbackTransitionTarget ts)))"

lemma range_at_target: "range_at ts c = Some t \<Longrightarrow> t \<in> set (map (snd \<circ> snd) ts)"
  by (induction ts) (auto split: if_splits)

lemma fallback_has_char:
  assumes "\<forall>c \<in> {1..127}. range_at ts c \<noteq> None" "\<forall>t. chars_to ts t \<le> chars_to ts best"
  shows "\<exists>c \<in> {1..127}. range_at ts c = Some best"
proof -
  obtain t where "range_at ts 1 = Some t" using assms(1) [THEN bspec, of 1] by auto
  then have "{c \<in> {1..127}. range_at ts c = Some t} \<noteq> {}" by (intro CollectI ex_in_conv [THEN iffD1] exI [of _ 1]) simp
  moreover have "finite {c \<in> {1..127}. range_at ts c = Some t}" by (rule finite_subset [of _ "{1..127}"]) auto
  ultimately have "0 < chars_to ts t" unfolding chars_to_def by (simp only: card_gt_0_iff simp_thms)
  then have "0 < chars_to ts best" using assms(2) by (meson less_le_trans)
  then have "{c \<in> {1..127}. range_at ts c = Some best} \<noteq> {}" unfolding chars_to_def by (metis card.empty less_numeral_extra(3))
  then show ?thesis by blast
qed

lemma nodeTransitions_ok:
  assumes wf: "node_wf_dfa dfa node" and small: "length (dfa_nodes dfa) < 2 ^ 32 - 1"
  shows "\<exists>ts. nodeTransitions dfa node = Some ts \<and> transitions_ok dfa node ts"
proof -
  let ?trs = "dfa_transitions dfa node" and ?uf = "canUseFallbackTransition dfa node"
  have s: "sorted_ranges 0 127 ?trs" and tgt: "\<And>c t. range_at ?trs c = Some t \<Longrightarrow> t \<noteq> noDestination"
    using wf small range_at_target [of ?trs] by (fastforce simp: node_wf_dfa_def noDestination_def)+
  have cover: "?uf \<longleftrightarrow> (\<forall>c \<in> {1..127}. range_at ?trs c \<noteq> None)"
    unfolding canUseFallbackTransition_def by (rule fallbackPossible_covers [OF s])
  obtain fb where fb: "(if ?uf then bestFallbackTarget dfa node else Some (2 ^ 32 - 1)) = Some fb"
    and best: "?uf \<Longrightarrow> \<forall>t. chars_to ?trs t \<le> chars_to ?trs fb"
  proof (cases ?uf)
    case True
    then obtain b where "bestFallbackTarget dfa node = Some b" "\<forall>t. chars_to ?trs t \<le> chars_to ?trs b"
      using bestFallback_best [OF s] unfolding canUseFallbackTransition_def bestFallbackTarget_def by blast
    with True show ?thesis by (intro that [of b]) simp_all
  qed (use that in simp)
  define D where "D = fillDestinations ?trs ?uf fb (replicate 128 noDestination)"
  have len: "length D = 128" and D: "\<And>c. c < 128 \<Longrightarrow> D ! c = (case range_at ?trs (int c) of
      Some t \<Rightarrow> if ?uf \<and> fb = t then noDestination else t | None \<Rightarrow> noDestination)"
  proof -
    note fd = fillDestinations_ok [OF s order_refl length_replicate, where uf = ?uf and fb = fb]
    show "length D = 128" unfolding D_def by (rule fd(1) [of 0]) simp
    show "D ! c = (case range_at ?trs (int c) of
      Some t \<Rightarrow> if ?uf \<and> fb = t then noDestination else t | None \<Rightarrow> noDestination)" if "c < 128" for c
      using fd(2) [OF that] unfolding D_def nth_replicate [OF that] .
  qed
  define rs where "rs = collectRanges [0..<128] None D []"
  have rf: "ranges_for D rs 128"
    unfolding rs_def by (rule collectRanges_ok) (simp_all add: ranges_for_def destinations_left_def pending_def len)
  obtain jts rs' where jts: "collectJumpTables [] [] rs [] = (jts, rs')" by fastforce
  define ts where "ts = \<lparr>t_jumpTables = jts, t_ranges = rs', useFallbackTransition = ?uf, fallbackTransitionTarget = fb\<rparr>"
  have nt: "nodeTransitions dfa node = Some ts"
    unfolding nodeTransitions_def Let_def fb by (simp add: D_def [symmetric] rs_def [symmetric] jts ts_def)
  have "\<forall>r \<in> set rs. range_wf r" using rf by (simp add: ranges_for_def)
  then have j: "(\<forall>r \<in> set rs'. range_wf r) \<and> (\<forall>jt \<in> set jts. table_wf jt) \<and>
      (checks_match jts rs' c d \<longleftrightarrow> checks_match [] rs c d)" for c d
    using collectJumpTables_ok [OF jts, of c d] by simp
  have m: "checks_match [] rs c d \<longleftrightarrow> range_at ?trs (int c) = Some d \<and> \<not> (?uf \<and> d = fb)" if c: "c < 128" for c d
  proof
    assume "checks_match [] rs c d"
    then obtain r where "r \<in> set rs" "r_matches r c" "r_destination r = d" by (auto simp: checks_match_def)
    with rf c have "d \<noteq> noDestination" "d = D ! c" unfolding ranges_for_def by blast+
    with D [OF c] show "range_at ?trs (int c) = Some d \<and> \<not> (?uf \<and> d = fb)" by (auto split: option.splits if_splits)
  next
    assume a: "range_at ?trs (int c) = Some d \<and> \<not> (?uf \<and> d = fb)"
    with D [OF c] have d: "D ! c = d" by (auto split: if_splits)
    have "d \<noteq> noDestination" using a by (intro tgt [of "int c"]) simp
    with rf c d obtain r where r: "r \<in> set rs" "r_matches r c" unfolding ranges_for_def by blast
    with rf c have "r_destination r = D ! c" unfolding ranges_for_def by blast
    with r d show "checks_match [] rs c d" by (auto simp: checks_match_def)
  qed
  have "transitions_ok dfa node ts"
    unfolding transitions_ok_def ts_def Transitions.simps
  proof (intro conjI allI impI)
    show "\<forall>jt \<in> set jts. table_wf jt" "\<forall>r \<in> set rs'. range_wf r" using j by blast+
    show "checks_match jts rs' c d \<longleftrightarrow> range_at ?trs (int c) = Some d \<and> \<not> (?uf \<and> d = fb)" if "c < 128" for c d
      using j [of c d] m [OF that, of d] by blast
    show "\<forall>c \<in> {1..127}. range_at ?trs c \<noteq> None" if ?uf using cover that by blast
    then show "\<exists>c \<in> {1..127}. range_at ?trs c = Some fb" if ?uf using that best by (intro fallback_has_char) blast+
  qed
  with nt show ?thesis by blast
qed

end
