(* ===== verification/BytecodeLayout.thy ===== *)
theory BytecodeLayout
  imports DFABytecodeCompiler
begin

text \<open>
  The bytecode that the compiler emits, seen as a list of instructions. The operations of
  \<^verbatim>\<open>DFABytecodeCompiler\<close> append instructions with empty jumps and the records to link them;
  linking fills in the distances; and the code of every node lies where its start offset says.
\<close>

section \<open>Instructions\<close>

datatype 's Ins =
    IAction uint64
  | ICheckValue bool nat nat 's
  | ICheckRange bool nat nat nat 's
  | ITable bool nat nat "nat list" 's
  | IJump nat 's
  | ITerminate

type_synonym SizedIns = "DFABytecodeJumpSize Ins"

definition action_bytes :: "uint64 \<Rightarrow> byte list" where
  "action_bytes a =
     (if a AND ActionFlagMask \<noteq> 0 then
        bytesOf 1 (uint (instruction_value (if a AND IfDomainFlag \<noteq> 0 then TestFlagsAndAppendActionWithIfDomain
                                            else TestFlagsAndAppendAction)))
        @ bytesOf 2 (uint (drop_bit 32 a)) @ bytesOf 4 (uint a)
      else
        bytesOf 1 (uint (instruction_value (if a AND IfDomainFlag \<noteq> 0 then AppendActionWithIfDomain else AppendAction)))
        @ bytesOf 4 (uint a))"

definition jump_byte :: "DFABytecodeInstruction \<Rightarrow> DFABytecodeJumpSize \<Rightarrow> byte list" where
  "jump_byte ins s = bytesOf 1 (uint (instruction_value ins OR jumpSize_value s))"

text \<open>The bytes of an instruction; \<open>J\<close> gives the distance of the jump to a node.\<close>

fun ins_bytes :: "(nat \<Rightarrow> int) \<Rightarrow> SizedIns \<Rightarrow> byte list" where
  "ins_bytes J (IAction a) = action_bytes a"
| "ins_bytes J (ICheckValue cs v d s) =
     jump_byte (if cs then CheckValueCaseSensitive else CheckValueCaseInsensitive) s @ bytesOf 1 (int v)
     @ bytesOf (jumpSizeInBytes s) (J d)"
| "ins_bytes J (ICheckRange cs lo hi d s) =
     jump_byte (if cs then CheckValueRangeCaseSensitive else CheckValueRangeCaseInsensitive) s
     @ bytesOf 1 (int lo) @ bytesOf 1 (int hi) @ bytesOf (jumpSizeInBytes s) (J d)"
| "ins_bytes J (ITable cs lo hi ds s) =
     jump_byte (if cs then JumpTableCaseSensitive else JumpTableCaseInsensitive) s
     @ bytesOf 1 (int lo) @ bytesOf 1 (int hi) @ concat (map (\<lambda>d. bytesOf (jumpSizeInBytes s) (J d)) ds)"
| "ins_bytes J (IJump d s) = jump_byte Jump s @ bytesOf (jumpSizeInBytes s) (J d)"
| "ins_bytes J ITerminate = bytesOf 1 (uint (instruction_value Terminate))"

fun ins_len :: "SizedIns \<Rightarrow> nat" where
  "ins_len (IAction a) = appendActionBytecodeSize a"
| "ins_len (ICheckValue cs v d s) = 2 + jumpSizeInBytes s"
| "ins_len (ICheckRange cs lo hi d s) = 3 + jumpSizeInBytes s"
| "ins_len (ITable cs lo hi ds s) = 3 + length ds * jumpSizeInBytes s"
| "ins_len (IJump d s) = 1 + jumpSizeInBytes s"
| "ins_len ITerminate = 1"

lemma length_ins_bytes [simp]: "length (ins_bytes J i) = ins_len i"
  by (cases i) (simp_all add: jump_byte_def action_bytes_def appendActionBytecodeSize_def length_concat o_def sum_list_triv)

text \<open>The bytes of instructions from a location on; the distance depends on the location of the
  instruction.\<close>

fun code :: "(nat \<Rightarrow> nat \<Rightarrow> int) \<Rightarrow> nat \<Rightarrow> SizedIns list \<Rightarrow> byte list" where
  "code J pc [] = []"
| "code J pc (i # is) = ins_bytes (J pc) i @ code J (pc + ins_len i) is"

definition code_len :: "SizedIns list \<Rightarrow> nat" where
  "code_len is = sum_list (map ins_len is)"

lemma code_len_simps [simp]:
  "code_len [] = 0" "code_len (i # is) = ins_len i + code_len is" "code_len (is @ js) = code_len is + code_len js"
  by (simp_all add: code_len_def)

lemma length_code [simp]: "length (code J pc is) = code_len is"
  by (induction "is" arbitrary: pc) simp_all

lemma code_append [simp]: "code J pc (is @ js) = code J pc is @ code J (pc + code_len is) js"
  by (induction "is" arbitrary: pc) (simp_all add: add.assoc)

text \<open>The jumps of an instruction at a location: size, location of the instruction, location of the
  distance, and destination, which is what the link records hold.\<close>

type_synonym jump = "DFABytecodeJumpSize \<times> nat \<times> nat \<times> nat"

fun table_jumps :: "nat \<Rightarrow> nat \<Rightarrow> DFABytecodeJumpSize \<Rightarrow> nat list \<Rightarrow> jump list" where
  "table_jumps pc loc s [] = []"
| "table_jumps pc loc s (d # ds) = (s, pc, loc, d) # table_jumps pc (loc + jumpSizeInBytes s) s ds"

fun ins_jumps :: "nat \<Rightarrow> SizedIns \<Rightarrow> jump list" where
  "ins_jumps pc (ICheckValue cs v d s) = [(s, pc, pc + 2, d)]"
| "ins_jumps pc (ICheckRange cs lo hi d s) = [(s, pc, pc + 3, d)]"
| "ins_jumps pc (ITable cs lo hi ds s) = table_jumps pc (pc + 3) s ds"
| "ins_jumps pc (IJump d s) = [(s, pc, pc + 1, d)]"
| "ins_jumps pc _ = []"

fun jumps :: "nat \<Rightarrow> SizedIns list \<Rightarrow> jump list" where
  "jumps pc [] = []"
| "jumps pc (i # is) = ins_jumps pc i @ jumps (pc + ins_len i) is"

lemma jumps_append [simp]: "jumps pc (is @ js) = jumps pc is @ jumps (pc + code_len is) js"
  by (induction "is" arbitrary: pc) (simp_all add: add.assoc)

definition record_jump :: "LinkRecord \<Rightarrow> jump" where
  "record_jump r = (lr_jumpSize r, lr_instructionLocation r, lr_jumpLocation r, lr_destinationNodeIndex r)"

section \<open>Emission\<close>

text \<open>A step of the compiler appends the code of instructions, with empty jumps, and their records.\<close>

definition emits :: "SizedIns list \<Rightarrow> Compiler \<Rightarrow> Compiler \<Rightarrow> bool" where
  "emits is st st' \<longleftrightarrow>
     m_bytecode st' = m_bytecode st @ code (\<lambda>_ _. 0) (length (m_bytecode st)) is \<and>
     map record_jump (m_linkRecords st') = map record_jump (m_linkRecords st) @ jumps (length (m_bytecode st)) is \<and>
     m_maxNodeStartOffsets st' = m_maxNodeStartOffsets st \<and> m_nodeStartOffsets st' = m_nodeStartOffsets st"

lemma emits_Nil [simp]: "emits [] st st' \<longleftrightarrow> m_bytecode st' = m_bytecode st \<and>
    map record_jump (m_linkRecords st') = map record_jump (m_linkRecords st) \<and>
    m_maxNodeStartOffsets st' = m_maxNodeStartOffsets st \<and> m_nodeStartOffsets st' = m_nodeStartOffsets st"
  by (auto simp: emits_def)

lemma emits_append: "emits is st st' \<Longrightarrow> emits js st' st'' \<Longrightarrow> emits (is @ js) st st''"
  by (auto simp: emits_def)

lemma emits_length: "emits is st st' \<Longrightarrow> length (m_bytecode st') = length (m_bytecode st) + code_len is"
  by (simp add: emits_def)

lemma appendZeroes_eq: "appendZeroes s st = appendBytes (jumpSizeInBytes s) 0 st"
  by (cases s) (simp_all add: appendBytes_def numeral_eq_Suc)

lemmas emission = appendZeroes_eq appendBytes_def appendInstruction_def appendJumpInstruction_def appendLinkRecord_def
  record_jump_def jump_byte_def Let_def

lemma emitAppendAction_emits: "emits [IAction a] st (emitAppendAction a st)"
  by (simp add: emits_def emitAppendAction_def action_bytes_def emission)

lemma emitTerminate_emits: "emits [ITerminate] st (emitTerminate st)"
  by (simp add: emits_def emitTerminate_def emission)

text \<open>The size that a single jump gets, and the sizes of jump tables.\<close>

abbreviation jump_size :: "nat \<Rightarrow> nat \<Rightarrow> nat \<Rightarrow> Compiler \<Rightarrow> DFABytecodeJumpSize" where
  "jump_size pc j d st \<equiv> smallestPossibleJumpSize (longestPossibleJump pc j d st)"

lemma emitJump_emits: "emits [IJump d (jump_size (length (m_bytecode st)) j d st)] st (emitJump j d st)"
  by (simp add: emits_def emitJump_def emission)

lemma compileCheckForRange_emits:
  "emits [if r_min r = r_max r then
            ICheckValue (r_caseSensitive r) (r_min r) (r_destination r) (jump_size (length (m_bytecode st)) j (r_destination r) st)
          else ICheckRange (r_caseSensitive r) (r_min r) (r_max r) (r_destination r)
            (jump_size (length (m_bytecode st)) j (r_destination r) st)]
     st (compileCheckForRange j r st)"
  by (simp add: emits_def compileCheckForRange_def emitCheckValue_def emitCheckValueRange_def emission)

lemma emitJumpTargets_ok:
  "m_bytecode (emitJumpTargets pc j s ds st) = m_bytecode st @ concat (map (\<lambda>d. bytesOf (jumpSizeInBytes s) 0) ds) \<and>
   map record_jump (m_linkRecords (emitJumpTargets pc j s ds st))
     = map record_jump (m_linkRecords st) @ table_jumps pc (length (m_bytecode st)) s ds \<and>
   m_maxNodeStartOffsets (emitJumpTargets pc j s ds st) = m_maxNodeStartOffsets st \<and>
   m_nodeStartOffsets (emitJumpTargets pc j s ds st) = m_nodeStartOffsets st"
  by (induction ds arbitrary: st) (simp_all add: emission)

lemma compileJumpTable_emits:
  "emits [ITable (jt_caseSensitive jt) (jt_min jt) (jt_max jt) (jt_destinations jt)
            (jumpTableSize (length (m_bytecode st)) j (jt_destinations jt) st Int8)]
     st (compileJumpTable j jt st)"
  by (simp add: emits_def compileJumpTable_def emission emitJumpTargets_ok numeral_3_eq_3)

lemma jumpTableSize_ge: "s \<le> jumpTableSize pc j ds st s \<and> (\<forall>d \<in> set ds. jump_size pc j d st \<le> jumpTableSize pc j ds st s)"
proof (induction ds arbitrary: s)
  case (Cons d ds)
  note IH = Cons [of "max s (jump_size pc j d st)"]
  then have "s \<le> jumpTableSize pc j ds st (max s (jump_size pc j d st))"
    "jump_size pc j d st \<le> jumpTableSize pc j ds st (max s (jump_size pc j d st))"
    by (meson max.cobounded1 max.cobounded2 order_trans)+
  with IH show ?case by simp
qed simp

text \<open>Every jump from a node is at least as large as its longest possible distance asks for.\<close>

definition sized :: "Compiler \<Rightarrow> nat \<Rightarrow> jump list \<Rightarrow> bool" where
  "sized st j js \<longleftrightarrow> (\<forall>(s, pc, loc, d) \<in> set js. jump_size pc j d st \<le> s)"

lemma sized_append [simp]: "sized st j (js @ ks) \<longleftrightarrow> sized st j js \<and> sized st j ks"
  unfolding sized_def set_append ball_Un by (rule refl)

lemma longestPossibleJump_cong:
  "m_nodeStartOffsets st = m_nodeStartOffsets st' \<Longrightarrow> m_maxNodeStartOffsets st = m_maxNodeStartOffsets st' \<Longrightarrow>
   longestPossibleJump pc j d st = longestPossibleJump pc j d st'"
  by (simp add: longestPossibleJump_def)

lemma sized_cong:
  "m_nodeStartOffsets st = m_nodeStartOffsets st' \<Longrightarrow> m_maxNodeStartOffsets st = m_maxNodeStartOffsets st' \<Longrightarrow>
   sized st j js \<longleftrightarrow> sized st' j js"
  unfolding sized_def using longestPossibleJump_cong [of st st'] by simp

abbreviation shape :: "SizedIns \<Rightarrow> unit Ins" where
  "shape \<equiv> map_Ins (\<lambda>_. ())"

definition emitted :: "nat \<Rightarrow> unit Ins list \<Rightarrow> Compiler \<Rightarrow> Compiler \<Rightarrow> bool" where
  "emitted j ss st st' \<longleftrightarrow>
     (\<exists>is. emits is st st' \<and> map shape is = ss \<and> sized st j (jumps (length (m_bytecode st)) is))"

lemma emittedI: "emits is st st' \<Longrightarrow> map shape is = ss \<Longrightarrow> sized st j (jumps (length (m_bytecode st)) is) \<Longrightarrow> emitted j ss st st'"
  unfolding emitted_def by blast

lemma emitted_Nil [simp]: "emitted j [] st st"
  by (rule emittedI [of "[]"]) (simp_all add: sized_def)

lemma emitted_append:
  assumes "emitted j ss st st'" "emitted j ss' st' st''"
  shows "emitted j (ss @ ss') st st''"
proof -
  obtain is1 is2 where e: "emits is1 st st'" "map shape is1 = ss" "sized st j (jumps (length (m_bytecode st)) is1)"
    "emits is2 st' st''" "map shape is2 = ss'" "sized st' j (jumps (length (m_bytecode st')) is2)"
    using assms unfolding emitted_def by blast
  have "sized st j (jumps (length (m_bytecode st')) is2)"
    using e(1,6) by (subst sized_cong [of _ st']) (simp_all add: emits_def)
  with e show ?thesis
    by (intro emittedI [OF emits_append [OF e(1,4)]]) (simp_all add: emits_length)
qed

lemma fold_emitted: "(\<And>x st. emitted j [g x] st (f x st)) \<Longrightarrow> emitted j (map g xs) st (fold f xs st)"
proof (induction xs arbitrary: st)
  case (Cons x xs)
  from emitted_append [OF Cons.prems [of x st] Cons.IH [OF Cons.prems, of "f x st"]] show ?case by simp
qed simp

lemma emitAppendAction_emitted: "emitted j [IAction a] st (emitAppendAction a st)"
  by (rule emittedI [OF emitAppendAction_emits]) (simp_all add: sized_def)

definition range_shape :: "Range \<Rightarrow> unit Ins" where
  "range_shape r =
     (if r_min r = r_max r then ICheckValue (r_caseSensitive r) (r_min r) (r_destination r) ()
      else ICheckRange (r_caseSensitive r) (r_min r) (r_max r) (r_destination r) ())"

definition table_shape :: "JumpTable \<Rightarrow> unit Ins" where
  "table_shape jt = ITable (jt_caseSensitive jt) (jt_min jt) (jt_max jt) (jt_destinations jt) ()"

definition last_shape :: "Transitions \<Rightarrow> unit Ins" where
  "last_shape ts = (if useFallbackTransition ts then IJump (fallbackTransitionTarget ts) () else ITerminate)"

definition transitions_shape :: "Transitions \<Rightarrow> unit Ins list" where
  "transitions_shape ts = map table_shape (t_jumpTables ts) @ map range_shape (t_ranges ts) @ [last_shape ts]"

lemma compileCheckForRange_emitted: "emitted j [range_shape r] st (compileCheckForRange j r st)"
  by (rule emittedI [OF compileCheckForRange_emits]) (simp_all add: sized_def range_shape_def)

lemma table_jumps_set: "(s', pc', loc', d) \<in> set (table_jumps pc loc s ds) \<Longrightarrow> s' = s \<and> pc' = pc \<and> d \<in> set ds"
  by (induction ds arbitrary: loc) auto

lemma compileJumpTable_emitted: "emitted j [table_shape jt] st (compileJumpTable j jt st)"
proof (rule emittedI [OF compileJumpTable_emits])
  show "sized st j (jumps (length (m_bytecode st)) [ITable (jt_caseSensitive jt) (jt_min jt) (jt_max jt) (jt_destinations jt)
      (jumpTableSize (length (m_bytecode st)) j (jt_destinations jt) st Int8)])"
    using jumpTableSize_ge [of Int8 "length (m_bytecode st)" j "jt_destinations jt" st]
    by (auto simp: sized_def dest!: table_jumps_set)
qed (simp add: table_shape_def)

lemma last_emitted:
  "emitted j [last_shape ts] st
     (if useFallbackTransition ts then emitJump j (fallbackTransitionTarget ts) st else emitTerminate st)"
proof (cases "useFallbackTransition ts")
  case True
  then show ?thesis by (simp add: last_shape_def, intro emittedI [OF emitJump_emits]) (simp_all add: sized_def)
next
  case False
  then show ?thesis by (simp add: last_shape_def, intro emittedI [OF emitTerminate_emits]) (simp_all add: sized_def)
qed

lemma compileNodeTransitions_emitted:
  assumes "nodeTransitions dfa (dfa_nodes dfa ! j) = Some ts"
  shows "\<exists>st'. compileNodeTransitions dfa j st = Some st' \<and> emitted j (transitions_shape ts) st st'"
proof -
  let ?st1 = "fold (compileJumpTable j) (t_jumpTables ts) st"
  let ?st2 = "fold (compileCheckForRange j) (t_ranges ts) ?st1"
  have "emitted j (map table_shape (t_jumpTables ts)) st ?st1" "emitted j (map range_shape (t_ranges ts)) ?st1 ?st2"
    by (intro fold_emitted compileJumpTable_emitted compileCheckForRange_emitted)+
  from emitted_append [OF this(1) emitted_append [OF this(2) last_emitted]] show ?thesis
    unfolding compileNodeTransitions_def assms transitions_shape_def Let_def by simp
qed

definition node_shape :: "DFA \<Rightarrow> nat \<Rightarrow> Transitions \<Rightarrow> unit Ins list" where
  "node_shape dfa j ts = map IAction (dfa_nodeActions dfa (dfa_nodes dfa ! j)) @ transitions_shape ts"

definition actions_len :: "DFA \<Rightarrow> nat \<Rightarrow> nat" where
  "actions_len dfa j = sum_list (map appendActionBytecodeSize (dfa_nodeActions dfa (dfa_nodes dfa ! j)))"

text \<open>Compiling a node: the code of its actions and its transitions is appended, and the start offset
  of the node is before its actions, or after them for the root.\<close>

definition node_compiled :: "DFA \<Rightarrow> nat \<Rightarrow> bool \<Rightarrow> SizedIns list \<Rightarrow> Compiler \<Rightarrow> Compiler \<Rightarrow> bool" where
  "node_compiled dfa j root is st st' \<longleftrightarrow>
     (\<exists>ts. nodeTransitions dfa (dfa_nodes dfa ! j) = Some ts \<and> map shape is = node_shape dfa j ts) \<and>
     m_bytecode st' = m_bytecode st @ code (\<lambda>_ _. 0) (length (m_bytecode st)) is \<and>
     map record_jump (m_linkRecords st') = map record_jump (m_linkRecords st) @ jumps (length (m_bytecode st)) is \<and>
     m_maxNodeStartOffsets st' = m_maxNodeStartOffsets st \<and>
     m_nodeStartOffsets st' = (m_nodeStartOffsets st)[j := length (m_bytecode st) + (if root then actions_len dfa j else 0)] \<and>
     sized st' j (jumps (length (m_bytecode st)) is)"

lemma actions_code:
  "map shape is = map IAction as \<Longrightarrow> code_len is = sum_list (map appendActionBytecodeSize as) \<and> jumps pc is = []"
proof (induction "is" arbitrary: as pc)
  case (Cons i "is")
  then obtain a as' where as: "as = a # as'" "shape i = IAction a" "map shape is = map IAction as'" by (cases as) auto
  then have "i = IAction a" by (cases i) auto
  with as Cons.IH [OF as(3)] show ?case by simp
qed simp

lemma compileNode_compiled:
  assumes "nodeTransitions dfa (dfa_nodes dfa ! j) = Some ts" "\<not> m_isKilled (dfa_nodes dfa ! j)"
  shows "\<exists>st' is. compileNode dfa j root st = Some st' \<and> node_compiled dfa j root is st st'"
proof -
  let ?as = "dfa_nodeActions dfa (dfa_nodes dfa ! j)"
  define st0 where "st0 = (if root then st else recordStart j st)"
  define st1 where "st1 = fold emitAppendAction ?as st0"
  define st2 where "st2 = (if root then recordStart j st1 else st1)"
  obtain st' where st': "compileNodeTransitions dfa j st2 = Some st'" "emitted j (transitions_shape ts) st2 st'"
    using compileNodeTransitions_emitted [OF assms(1), of st2] by blast
  have run: "compileNode dfa j root st = Some st'"
    using st'(1) assms(2) unfolding compileNode_def st0_def st1_def st2_def Let_def by (cases root) simp_all
  have "emitted j (map IAction ?as) st0 st1"
    unfolding st1_def by (rule fold_emitted) (rule emitAppendAction_emitted)
  then obtain is1 where e1: "emits is1 st0 st1" "map shape is1 = map IAction ?as" unfolding emitted_def by blast
  obtain is2 where e2: "emits is2 st2 st'" "map shape is2 = transitions_shape ts" "sized st2 j (jumps (length (m_bytecode st2)) is2)"
    using st'(2) unfolding emitted_def by blast
  note a = actions_code [OF e1(2)]
  have "sized st' j (jumps (length (m_bytecode st2)) is2)"
    using e2(1,3) by (subst sized_cong [of _ st2]) (simp_all add: emits_def)
  then have "node_compiled dfa j root (is1 @ is2) st st'"
    using e1 e2 a assms(1)
    by (cases root) (auto simp: node_compiled_def node_shape_def emits_def st0_def st2_def recordStart_def actions_len_def)
  with run show ?thesis by blast
qed

section \<open>Linking\<close>

definition jump_ok :: "nat list \<Rightarrow> jump \<Rightarrow> bool" where
  "jump_ok S jp = (case jp of (s, pc, loc, d) \<Rightarrow> S ! d < 2 ^ 31 - 1 \<and> pc < 2 ^ 31 \<and> fits s (int (S ! d) - int pc))"

text \<open>The distance of a jump to the start of a node.\<close>

definition linked :: "nat list \<Rightarrow> nat \<Rightarrow> nat \<Rightarrow> int" where
  "linked S pc d = int (S ! d) - int pc"

lemma int32_id: "- (2 ^ 31) \<le> v \<Longrightarrow> v < 2 ^ 31 \<Longrightarrow> int32 v = v"
  by (simp add: int32_def)

lemma linkRecord_at:
  assumes r: "record_jump r = (s, pc, loc, d)" and loc: "length pre = loc" and ok: "jump_ok S (s, pc, loc, d)"
  shows "linkRecord S r (pre @ bytesOf (jumpSizeInBytes s) 0 @ post) = Some (pre @ bytesOf (jumpSizeInBytes s) (linked S pc d) @ post)"
proof -
  have r': "lr_jumpSize r = s" "lr_instructionLocation r = pc" "lr_jumpLocation r = loc" "lr_destinationNodeIndex r = d"
    using r by (simp_all add: record_jump_def)
  have S: "S ! d < 2 ^ 31 - 1" "pc < 2 ^ 31" and f: "fits s (linked S pc d)" using ok by (simp_all add: jump_ok_def linked_def)
  have dist: "int32 (int (S ! d) - int pc) = linked S pc d" using S by (simp add: int32_id linked_def)
  show ?thesis
  proof (cases s)
    case Int24
    let ?v = "linked S pc d"
    have "Int24Min \<le> ?v \<and> ?v \<le> Int24Max" using f by (simp add: Int24 fits_def Int24Min_def Int24Max_def)
    moreover have "setBits 2 (pre @ bytesOf 2 0 @ (bytesOf 1 0 @ post)) loc ?v = Some (pre @ bytesOf 2 ?v @ (bytesOf 1 0 @ post))"
      by (rule setBits_at [OF loc]) simp
    moreover have "setBits 1 ((pre @ bytesOf 2 ?v) @ bytesOf 1 0 @ post) (loc + 2) (drop_bit 16 ?v)
        = Some ((pre @ bytesOf 2 ?v) @ bytesOf 1 (drop_bit 16 ?v) @ post)"
      by (rule setBits_at) (simp_all add: loc)
    moreover have "bytesOf (jumpSizeInBytes s) v = bytesOf 2 v @ bytesOf 1 (drop_bit 16 v)" for v
      using bytesOf_add [of 2 1 v] by (simp add: Int24 drop_bit_eq_div)
    ultimately show ?thesis
      using S(1) unfolding linkRecord_def r' Let_def dist Int24 by simp
  next
    case Int8
    with S f setBits_at [OF loc, of "[0]" 1] show ?thesis by (simp add: linkRecord_def r' dist Let_def fits_def)
  qed (use S f setBits_at [OF loc] in \<open>simp_all add: linkRecord_def r' dist Let_def fits_def\<close>)
qed

lemma link_table:
  assumes "map record_jump rs = table_jumps pc loc s ds" "length pre = loc" "\<forall>jp \<in> set (table_jumps pc loc s ds). jump_ok S jp"
  shows "linkRecords S rs (pre @ concat (map (\<lambda>d. bytesOf (jumpSizeInBytes s) 0) ds) @ post)
    = Some (pre @ concat (map (\<lambda>d. bytesOf (jumpSizeInBytes s) (linked S pc d)) ds) @ post)"
  using assms
proof (induction ds arbitrary: rs loc pre)
  case (Cons d ds)
  then obtain r rs' where rs: "rs = r # rs'" "record_jump r = (s, pc, loc, d)"
    "map record_jump rs' = table_jumps pc (loc + jumpSizeInBytes s) s ds" by auto
  have ok: "jump_ok S (s, pc, loc, d)" using Cons.prems by simp
  note l = linkRecord_at [OF rs(2) Cons.prems(2) ok]
  show ?case
    using Cons.IH [OF rs(3), of "pre @ bytesOf (jumpSizeInBytes s) (linked S pc d)"] Cons.prems(2,3) l
    by (simp add: rs(1))
qed simp

lemma link_ins:
  assumes "map record_jump rs = ins_jumps pc i" "length pre = pc" "\<forall>jp \<in> set (ins_jumps pc i). jump_ok S jp"
  shows "linkRecords S rs (pre @ ins_bytes (\<lambda>_. 0) i @ post) = Some (pre @ ins_bytes (linked S pc) i @ post)"
proof (cases i)
  case (ICheckValue cs v d s)
  then obtain r where r: "rs = [r]" "record_jump r = (s, pc, pc + 2, d)" using assms(1) by auto
  show ?thesis
    using linkRecord_at [OF r(2), of "pre @ jump_byte (if cs then CheckValueCaseSensitive else CheckValueCaseInsensitive) s @ bytesOf 1 (int v)" S post]
      assms(2,3) by (simp add: r(1) ICheckValue jump_byte_def)
next
  case (ICheckRange cs lo hi d s)
  then obtain r where r: "rs = [r]" "record_jump r = (s, pc, pc + 3, d)" using assms(1) by auto
  show ?thesis
    using linkRecord_at [OF r(2), of "pre @ jump_byte (if cs then CheckValueRangeCaseSensitive else CheckValueRangeCaseInsensitive) s
        @ bytesOf 1 (int lo) @ bytesOf 1 (int hi)" S post]
      assms(2,3) by (simp add: r(1) ICheckRange jump_byte_def)
next
  case (ITable cs lo hi ds s)
  show ?thesis
    using link_table [of rs pc "pc + 3" s ds "pre @ jump_byte (if cs then JumpTableCaseSensitive else JumpTableCaseInsensitive) s
        @ bytesOf 1 (int lo) @ bytesOf 1 (int hi)" S post]
      assms by (simp add: ITable jump_byte_def)
next
  case (IJump d s)
  then obtain r where r: "rs = [r]" "record_jump r = (s, pc, pc + 1, d)" using assms(1) by auto
  show ?thesis
    using linkRecord_at [OF r(2), of "pre @ jump_byte Jump s" S post] assms(2,3) by (simp add: r(1) IJump jump_byte_def)
qed (use assms in simp_all)

lemma linkRecords_append: "linkRecords S (rs @ rs') bs = (case linkRecords S rs bs of None \<Rightarrow> None | Some bs' \<Rightarrow> linkRecords S rs' bs')"
  by (induction rs arbitrary: bs) (simp_all split: bind_splits option.splits)

lemma link_code:
  assumes "map record_jump rs = jumps pc is" "length pre = pc" "\<forall>jp \<in> set (jumps pc is). jump_ok S jp"
  shows "linkRecords S rs (pre @ code (\<lambda>_ _. 0) pc is @ post) = Some (pre @ code (linked S) pc is @ post)"
  using assms
proof (induction "is" arbitrary: rs pc pre)
  case (Cons i "is")
  then obtain rs1 rs2 where rs: "rs = rs1 @ rs2" "map record_jump rs1 = ins_jumps pc i"
    "map record_jump rs2 = jumps (pc + ins_len i) is"
    by (auto simp: map_eq_append_conv)
  have "linkRecords S rs1 (pre @ ins_bytes (\<lambda>_. 0) i @ (code (\<lambda>_ _. 0) (pc + ins_len i) is @ post))
      = Some (pre @ ins_bytes (linked S pc) i @ (code (\<lambda>_ _. 0) (pc + ins_len i) is @ post))"
    using Cons.prems by (intro link_ins [OF rs(2)]) simp_all
  moreover have "linkRecords S rs2 ((pre @ ins_bytes (linked S pc) i) @ code (\<lambda>_ _. 0) (pc + ins_len i) is @ post)
      = Some ((pre @ ins_bytes (linked S pc) i) @ code (linked S) (pc + ins_len i) is @ post)"
    using Cons.prems by (intro Cons.IH [OF rs(3)]) simp_all
  ultimately show ?case by (simp add: rs(1) linkRecords_append)
qed simp

section \<open>The layout of the nodes\<close>

text \<open>The root comes first, and then the other nodes in order. \<open>blk\<close> gives the instructions of a
  node.\<close>

definition order :: "DFA \<Rightarrow> nat \<Rightarrow> nat list" where
  "order dfa i = dfa_root dfa # filter (\<lambda>k. k \<noteq> dfa_root dfa) [0..<i]"

definition sum_before :: "DFA \<Rightarrow> (nat \<Rightarrow> nat) \<Rightarrow> nat \<Rightarrow> nat" where
  "sum_before dfa f j = (if j = dfa_root dfa then 0 else sum_list (map f (order dfa j)))"

definition block_at :: "DFA \<Rightarrow> nat \<Rightarrow> (nat \<Rightarrow> SizedIns list) \<Rightarrow> nat \<Rightarrow> nat" where
  "block_at dfa B blk j = B + sum_before dfa (\<lambda>k. code_len (blk k)) j"

definition start_at :: "DFA \<Rightarrow> nat \<Rightarrow> (nat \<Rightarrow> SizedIns list) \<Rightarrow> nat \<Rightarrow> nat" where
  "start_at dfa B blk j = block_at dfa B blk j + (if j = dfa_root dfa then actions_len dfa j else 0)"

abbreviation killed :: "DFA \<Rightarrow> nat \<Rightarrow> bool" where
  "killed dfa j \<equiv> m_isKilled (dfa_nodes dfa ! j)"

text \<open>The nodes whose start is known when node \<open>j\<close> is compiled.\<close>

definition known :: "DFA \<Rightarrow> nat \<Rightarrow> nat \<Rightarrow> bool" where
  "known dfa j d \<longleftrightarrow> d = dfa_root dfa \<or> (j \<noteq> dfa_root dfa \<and> d \<le> j \<and> \<not> killed dfa d)"

definition block_ok :: "DFA \<Rightarrow> nat list \<Rightarrow> nat \<Rightarrow> (nat \<Rightarrow> SizedIns list) \<Rightarrow> nat \<Rightarrow> bool" where
  "block_ok dfa mo B blk j \<longleftrightarrow>
     (if killed dfa j then blk j = []
      else (\<exists>ts. nodeTransitions dfa (dfa_nodes dfa ! j) = Some ts \<and> map shape (blk j) = node_shape dfa j ts) \<and>
        (\<exists>st. sized st j (jumps (block_at dfa B blk j) (blk j)) \<and> m_maxNodeStartOffsets st = mo \<and>
           (\<forall>d < length (dfa_nodes dfa). m_nodeStartOffsets st ! d = (if known dfa j d then start_at dfa B blk d else noOffset))))"

definition compiled_to :: "DFA \<Rightarrow> nat list \<Rightarrow> byte list \<Rightarrow> (nat \<Rightarrow> SizedIns list) \<Rightarrow> nat \<Rightarrow> Compiler \<Rightarrow> bool" where
  "compiled_to dfa mo pre blk i st \<longleftrightarrow>
     m_bytecode st = pre @ code (\<lambda>_ _. 0) (length pre) (concat (map blk (order dfa i))) \<and>
     map record_jump (m_linkRecords st) = jumps (length pre) (concat (map blk (order dfa i))) \<and>
     m_maxNodeStartOffsets st = mo \<and> length (m_nodeStartOffsets st) = length (dfa_nodes dfa) \<and>
     (\<forall>j < length (dfa_nodes dfa). m_nodeStartOffsets st ! j =
        (if j = dfa_root dfa \<or> j < i \<and> \<not> killed dfa j then start_at dfa (length pre) blk j else noOffset)) \<and>
     (\<forall>j \<in> set (order dfa i). block_ok dfa mo (length pre) blk j)"

lemma order_Suc: "order dfa (Suc i) = (if i = dfa_root dfa then order dfa i else order dfa i @ [i])"
  by (simp add: order_def)

lemma set_order: "set (order dfa i) = insert (dfa_root dfa) {0..<i}"
  by (auto simp: order_def)

lemma code_len_concat: "code_len (concat (map blk xs)) = sum_list (map (\<lambda>k. code_len (blk k)) xs)"
  by (induction xs) simp_all

lemma sum_before_cong: "(\<And>k. k < j \<or> k = dfa_root dfa \<Longrightarrow> f k = g k) \<Longrightarrow> sum_before dfa f j = sum_before dfa g j"
  by (auto simp: sum_before_def set_order intro!: arg_cong [where f = sum_list])

lemma block_at_upd [simp]: "j \<le> i \<Longrightarrow> i \<noteq> dfa_root dfa \<Longrightarrow> block_at dfa B (blk(i := is)) j = block_at dfa B blk j"
  unfolding block_at_def by (rule arg_cong [where f = "(+) B"], rule sum_before_cong) auto

lemma block_at_root [simp]: "block_at dfa B blk (dfa_root dfa) = B"
  by (simp add: block_at_def sum_before_def)

lemma start_at_upd [simp]: "j \<le> i \<or> j = dfa_root dfa \<Longrightarrow> i \<noteq> dfa_root dfa \<Longrightarrow> start_at dfa B (blk(i := is)) j = start_at dfa B blk j"
  by (auto simp: start_at_def)

lemma block_ok_upd:
  assumes "block_ok dfa mo B blk j" "j < i \<or> j = dfa_root dfa" "i \<noteq> dfa_root dfa"
  shows "block_ok dfa mo B (blk(i := is)) j"
proof -
  have j: "j \<noteq> i" "block_at dfa B (blk(i := is)) j = block_at dfa B blk j" using assms by auto
  have s: "known dfa j d \<Longrightarrow> start_at dfa B (blk(i := is)) d = start_at dfa B blk d" for d
    using assms(2,3) by (intro start_at_upd) (auto simp: known_def)
  show ?thesis using assms(1) j s unfolding block_ok_def by (simp cong: if_cong)
qed

lemma compileNode_step:
  assumes inv: "compiled_to dfa mo pre blk i st" and i: "i < length (dfa_nodes dfa)" "i \<noteq> dfa_root dfa"
    and ts: "\<not> killed dfa i \<Longrightarrow> \<exists>ts. nodeTransitions dfa (dfa_nodes dfa ! i) = Some ts"
  shows "\<exists>st' blk'. compileNode dfa i False st = Some st' \<and> compiled_to dfa mo pre blk' (Suc i) st'"
proof (cases "killed dfa i")
  case True
  let ?blk = "blk(i := [])"
  have same: "map ?blk (order dfa i) = map blk (order dfa i)" using i(2) by (auto simp: set_order)
  have "compiled_to dfa mo pre ?blk (Suc i) st"
    unfolding compiled_to_def
  proof (intro conjI ballI allI impI)
    fix j assume "j \<in> set (order dfa (Suc i))"
    then consider "j = i" | "j < i \<or> j = dfa_root dfa" by (auto simp: set_order less_Suc_eq)
    then show "block_ok dfa mo (length pre) ?blk j"
    proof cases
      case 2
      with inv i(2) show ?thesis by (intro block_ok_upd) (auto simp: compiled_to_def set_order)
    qed (simp add: block_ok_def True)
  next
    fix j assume "j < length (dfa_nodes dfa)"
    with inv i True show "m_nodeStartOffsets st ! j =
        (if j = dfa_root dfa \<or> j < Suc i \<and> \<not> killed dfa j then start_at dfa (length pre) ?blk j else noOffset)"
      by (auto simp: compiled_to_def less_Suc_eq)
  qed (use inv i in \<open>simp_all add: compiled_to_def order_Suc same\<close>)
  moreover have "compileNode dfa i False st = Some st" using True by (simp add: compileNode_def)
  ultimately show ?thesis by blast
next
  case False
  obtain st' "is" where run: "compileNode dfa i False st = Some st'" and c: "node_compiled dfa i False is st st'"
    using compileNode_compiled ts [OF False] False by blast
  let ?blk = "blk(i := is)"
  have same: "map ?blk (order dfa i) = map blk (order dfa i)" using i(2) by (auto simp: set_order)
  have len: "length (m_bytecode st) = block_at dfa (length pre) blk i"
    using inv i(2) by (simp add: compiled_to_def block_at_def sum_before_def code_len_concat)
  have so: "m_nodeStartOffsets st' ! j =
      (if j = dfa_root dfa \<or> j < Suc i \<and> \<not> killed dfa j then start_at dfa (length pre) ?blk j else noOffset)"
    if "j < length (dfa_nodes dfa)" for j
    using that inv c i False len by (auto simp: compiled_to_def node_compiled_def nth_list_update less_Suc_eq start_at_def)
  have "block_ok dfa mo (length pre) ?blk i"
    unfolding block_ok_def
  proof (simp only: False if_False, intro conjI exI [of _ st'] allI impI)
    show "\<exists>ts. nodeTransitions dfa (dfa_nodes dfa ! i) = Some ts \<and> map shape (?blk i) = node_shape dfa i ts"
      using c by (simp add: node_compiled_def)
    show "sized st' i (jumps (block_at dfa (length pre) ?blk i) (?blk i))"
      using c len i(2) by (simp add: node_compiled_def)
    show "m_maxNodeStartOffsets st' = mo" using c inv by (simp add: node_compiled_def compiled_to_def)
    show "m_nodeStartOffsets st' ! d = (if known dfa i d then start_at dfa (length pre) ?blk d else noOffset)"
      if "d < length (dfa_nodes dfa)" for d
      using so [OF that] i(2) by (simp add: known_def less_Suc_eq_le)
  qed
  then have "compiled_to dfa mo pre ?blk (Suc i) st'"
    using inv c i len so block_ok_upd [of dfa mo "length pre" blk _ i "is"]
    unfolding compiled_to_def
    by (auto simp: node_compiled_def order_Suc set_order block_at_def sum_before_def code_len_concat same)
  with run show ?thesis by blast
qed

lemma compiled_to_root: "compiled_to dfa mo pre blk (dfa_root dfa) st \<Longrightarrow> compiled_to dfa mo pre blk (Suc (dfa_root dfa)) st"
  unfolding compiled_to_def by (auto simp: order_Suc less_Suc_eq)

lemma compileNodes_ok:
  assumes "compiled_to dfa mo pre blk i st" "i \<le> length (dfa_nodes dfa)"
    and ts: "\<And>j. j < length (dfa_nodes dfa) \<Longrightarrow> \<not> killed dfa j \<Longrightarrow> \<exists>ts. nodeTransitions dfa (dfa_nodes dfa ! j) = Some ts"
  shows "\<exists>st' blk'. compileNodes dfa [i..<length (dfa_nodes dfa)] st = Some st' \<and>
    compiled_to dfa mo pre blk' (length (dfa_nodes dfa)) st'"
  using assms(1,2)
proof (induction "length (dfa_nodes dfa) - i" arbitrary: i st blk)
  case (Suc x)
  then have i: "i < length (dfa_nodes dfa)" and x: "x = length (dfa_nodes dfa) - Suc i" by simp_all
  then have upt: "[i..<length (dfa_nodes dfa)] = i # [Suc i..<length (dfa_nodes dfa)]" by (simp add: upt_conv_Cons)
  show ?case
  proof (cases "i = dfa_root dfa")
    case True
    with Suc.prems have "compiled_to dfa mo pre blk (Suc i) st" using compiled_to_root by blast
    moreover have "compileNodes dfa [i..<length (dfa_nodes dfa)] st = compileNodes dfa [Suc i..<length (dfa_nodes dfa)] st"
      unfolding upt using True by simp
    ultimately show ?thesis using Suc.hyps(1) [OF x] i by simp
  next
    case False
    obtain st' blk' where "compileNode dfa i False st = Some st'" "compiled_to dfa mo pre blk' (Suc i) st'"
      using compileNode_step [OF Suc.prems(1) i False ts [OF i]] by blast
    with Suc.hyps(1) [OF x this(2)] i False show ?thesis by (simp add: upt)
  qed
qed auto

lemma compileRoot_ok:
  assumes root: "dfa_root dfa < length (dfa_nodes dfa)" "\<not> killed dfa (dfa_root dfa)"
    and ts: "nodeTransitions dfa (dfa_nodes dfa ! dfa_root dfa) = Some ts"
    and st: "m_bytecode st = pre" "m_linkRecords st = []" "m_maxNodeStartOffsets st = mo"
      "m_nodeStartOffsets st = replicate (length (dfa_nodes dfa)) noOffset"
  shows "\<exists>st' blk. compileNode dfa (dfa_root dfa) True st = Some st' \<and> compiled_to dfa mo pre blk 0 st'"
proof -
  let ?r = "dfa_root dfa"
  obtain st' "is" where run: "compileNode dfa ?r True st = Some st'" and c: "node_compiled dfa ?r True is st st'"
    using compileNode_compiled [OF ts root(2)] by blast
  have so: "m_nodeStartOffsets st' ! d = (if d = ?r then start_at dfa (length pre) (\<lambda>_. is) d else noOffset)"
    if "d < length (dfa_nodes dfa)" for d
    using c that by (simp add: node_compiled_def st start_at_def nth_list_update)
  have "block_ok dfa mo (length pre) (\<lambda>_. is) ?r"
    unfolding block_ok_def using c root so
    by (simp only: if_False) (intro conjI exI [of _ st'], auto simp: node_compiled_def st known_def)
  then have "compiled_to dfa mo pre (\<lambda>_. is) 0 st'"
    using c so by (auto simp: compiled_to_def node_compiled_def st order_def)
  with run show ?thesis by blast
qed

section \<open>Worst-case sizes\<close>

definition max_size :: "DFA \<Rightarrow> nat \<Rightarrow> nat" where
  "max_size dfa j = (case compiledNodeMaxBytecodeSize dfa j of Some s \<Rightarrow> s | None \<Rightarrow> 0)"

definition max_code_size :: "DFA \<Rightarrow> nat" where
  "max_code_size dfa = 4 + sum_list (map (max_size dfa) (order dfa (length (dfa_nodes dfa))))"

lemma max_size_Some:
  assumes "\<not> killed dfa j \<Longrightarrow> \<exists>ts. nodeTransitions dfa (dfa_nodes dfa ! j) = Some ts"
  shows "compiledNodeMaxBytecodeSize dfa j = Some (max_size dfa j)"
proof (cases "killed dfa j")
  case False
  with assms show ?thesis by (auto simp: max_size_def compiledNodeMaxBytecodeSize_def nodeTransitionsMaxBytecodeSize_def Let_def)
qed (simp add: max_size_def compiledNodeMaxBytecodeSize_def)

lemma fillMaxOffsets_ok:
  assumes size: "\<And>j. j < n \<Longrightarrow> compiledNodeMaxBytecodeSize dfa j = Some (max_size dfa j)"
    and "i \<le> n" "next' = 4 + sum_list (map (max_size dfa) (order dfa i))" "length offs = n"
  shows "\<exists>mo. fillMaxOffsets dfa [i..<n] next' offs = Some mo \<and> length mo = n \<and>
    (\<forall>j < n. mo ! j = (if j = dfa_root dfa \<or> j < i then offs ! j else 4 + sum_before dfa (max_size dfa) j))"
  using assms(2-)
proof (induction "n - i" arbitrary: i next' offs)
  case (Suc x)
  then have i: "i < n" and x: "x = n - Suc i" by simp_all
  have upt: "[i..<n] = i # [Suc i..<n]" using i by (simp add: upt_conv_Cons)
  show ?case
  proof (cases "i = dfa_root dfa")
    case True
    have n': "next' = 4 + sum_list (map (max_size dfa) (order dfa (Suc i)))" using Suc.prems True by (simp add: order_Suc)
    obtain mo where "fillMaxOffsets dfa [Suc i..<n] next' offs = Some mo" "length mo = n"
      "\<forall>j < n. mo ! j = (if j = dfa_root dfa \<or> j < Suc i then offs ! j else 4 + sum_before dfa (max_size dfa) j)"
      using Suc.hyps(1) [OF x _ n' Suc.prems(3)] i by auto
    moreover have "fillMaxOffsets dfa [i..<n] next' offs = fillMaxOffsets dfa [Suc i..<n] next' offs"
      unfolding upt using True by simp
    moreover have "j = dfa_root dfa \<or> j < Suc i \<longleftrightarrow> j = dfa_root dfa \<or> j < i" for j using True by auto
    ultimately show ?thesis by simp
  next
    case False
    let ?offs = "offs[i := next']"
    have n': "next' + max_size dfa i = 4 + sum_list (map (max_size dfa) (order dfa (Suc i)))"
      using Suc.prems False by (simp add: order_Suc)
    obtain mo where "fillMaxOffsets dfa [Suc i..<n] (next' + max_size dfa i) ?offs = Some mo" "length mo = n"
      "\<forall>j < n. mo ! j = (if j = dfa_root dfa \<or> j < Suc i then ?offs ! j else 4 + sum_before dfa (max_size dfa) j)"
      using Suc.hyps(1) [OF x _ n', of ?offs] Suc.prems(3) i by auto
    with False i Suc.prems size [OF i] show ?thesis by (auto simp: upt less_Suc_eq nth_list_update sum_before_def)
  qed
qed auto

lemma maxNodeStartOffsets_ok:
  assumes "dfa_root dfa < length (dfa_nodes dfa)"
    and "\<And>j. j < length (dfa_nodes dfa) \<Longrightarrow> \<not> killed dfa j \<Longrightarrow> \<exists>ts. nodeTransitions dfa (dfa_nodes dfa ! j) = Some ts"
  shows "\<exists>mo. maxNodeStartOffsets dfa = Some mo \<and> length mo = length (dfa_nodes dfa) \<and>
    (\<forall>j < length (dfa_nodes dfa). mo ! j = 4 + sum_before dfa (max_size dfa) j + (if j = dfa_root dfa then actions_len dfa j else 0))"
proof -
  let ?n = "length (dfa_nodes dfa)" and ?r = "dfa_root dfa"
  have size: "compiledNodeMaxBytecodeSize dfa j = Some (max_size dfa j)" if "j < ?n" for j
    using assms(2) [OF that] by (rule max_size_Some)
  let ?offs = "(replicate ?n 0)[?r := 4 + actions_len dfa ?r]"
  obtain mo where mo: "fillMaxOffsets dfa [0..<?n] (4 + max_size dfa ?r) ?offs = Some mo" "length mo = ?n"
    "\<forall>j < ?n. mo ! j = (if j = ?r \<or> j < 0 then ?offs ! j else 4 + sum_before dfa (max_size dfa) j)"
    using fillMaxOffsets_ok [where dfa = dfa and i = 0 and offs = ?offs, OF size] by (auto simp: order_def)
  with assms(1) size [OF assms(1)] show ?thesis
    by (auto simp: maxNodeStartOffsets_def Let_def actions_len_def sum_before_def)
qed

fun max_len :: "unit Ins \<Rightarrow> nat" where
  "max_len (IAction a) = appendActionBytecodeSize a"
| "max_len (ICheckValue cs v d s) = 6"
| "max_len (ICheckRange cs lo hi d s) = 7"
| "max_len (ITable cs lo hi ds s) = 3 + length ds * 4"
| "max_len (IJump d s) = 5"
| "max_len ITerminate = 1"

lemma jumpSizeInBytes_bounds: "0 < jumpSizeInBytes s" "jumpSizeInBytes s \<le> 4"
  by (cases s; simp)+

lemma ins_len_le: "ins_len i \<le> max_len (shape i)"
proof (cases i)
  case (ITable cs lo hi ds s)
  then show ?thesis using jumpSizeInBytes_bounds(2) [of s] by simp
qed (use jumpSizeInBytes_bounds(2) in auto)

lemma code_len_le: "code_len is \<le> sum_list (map max_len (map shape is))"
  by (induction "is") (simp_all add: add_mono ins_len_le)

lemma node_max_len:
  assumes "nodeTransitions dfa (dfa_nodes dfa ! j) = Some ts" "transitions_ok dfa (dfa_nodes dfa ! j) ts" "\<not> killed dfa j"
  shows "sum_list (map max_len (node_shape dfa j ts)) = max_size dfa j"
proof -
  have "max_len (table_shape jt) = checkForJumpTableMaxBytecodeSize jt" if "table_wf jt" for jt
    using that by (simp add: table_shape_def checkForJumpTableMaxBytecodeSize_def table_wf_def)
  then have "sum_list (map (max_len \<circ> table_shape) (t_jumpTables ts)) = sum_list (map checkForJumpTableMaxBytecodeSize (t_jumpTables ts))"
    using assms(2) by (intro arg_cong [where f = sum_list]) (simp add: transitions_ok_def)
  moreover have "max_len \<circ> range_shape = checkForRangeMaxBytecodeSize"
    by (auto simp: range_shape_def checkForRangeMaxBytecodeSize_def)
  moreover have "max_len (last_shape ts) = (if useFallbackTransition ts then 1 + 4 else 1)" by (simp add: last_shape_def)
  moreover have "max_len \<circ> IAction = appendActionBytecodeSize" by auto
  ultimately show ?thesis using assms(1,3)
    by (simp add: max_size_def compiledNodeMaxBytecodeSize_def nodeTransitionsMaxBytecodeSize_def node_shape_def transitions_shape_def Let_def)
qed

text \<open>The destinations of the instructions of a node are nodes that are not killed.\<close>

fun ins_dests :: "'s Ins \<Rightarrow> nat set" where
  "ins_dests (ICheckValue cs v d s) = {d}"
| "ins_dests (ICheckRange cs lo hi d s) = {d}"
| "ins_dests (ITable cs lo hi ds s) = set ds"
| "ins_dests (IJump d s) = {d}"
| "ins_dests _ = {}"

lemma ins_dests_shape [simp]: "ins_dests (shape i) = ins_dests i"
  by (cases i) simp_all

lemma jumps_set:
  "(s, pc, loc, d) \<in> set (jumps pc0 is) \<Longrightarrow> pc0 \<le> pc \<and> pc < pc0 + code_len is \<and> (\<exists>i \<in> set is. d \<in> ins_dests i)"
proof (induction "is" arbitrary: pc0)
  case (Cons i "is")
  consider "(s, pc, loc, d) \<in> set (ins_jumps pc0 i)" | "(s, pc, loc, d) \<in> set (jumps (pc0 + ins_len i) is)"
    using Cons.prems by auto
  then show ?case
  proof cases
    case 1
    then have "pc = pc0" "d \<in> ins_dests i" "0 < ins_len i"
      by (cases i; auto dest: table_jumps_set)+
    then show ?thesis by auto
  qed (use Cons.IH in fastforce)
qed simp

lemma node_dests_ok:
  assumes wf: "node_wf_dfa dfa (dfa_nodes dfa ! j)" and ok: "transitions_ok dfa (dfa_nodes dfa ! j) ts"
    and i: "i \<in> set (node_shape dfa j ts)" "d \<in> ins_dests i"
  shows "d < length (dfa_nodes dfa) \<and> \<not> killed dfa d"
proof -
  let ?trs = "dfa_transitions dfa (dfa_nodes dfa ! j)"
  have m: "\<exists>c. range_at ?trs c = Some d" if "c < 128" "checks_match (t_jumpTables ts) (t_ranges ts) c d" for c
    using that ok by (auto simp: transitions_ok_def)
  consider (table) jt where "jt \<in> set (t_jumpTables ts)" "d \<in> set (jt_destinations jt)"
    | (check) r where "r \<in> set (t_ranges ts)" "d = r_destination r"
    | (last) "useFallbackTransition ts" "d = fallbackTransitionTarget ts"
    using i by (auto simp: node_shape_def transitions_shape_def table_shape_def range_shape_def last_shape_def split: if_splits)
  then have "\<exists>c. range_at ?trs c = Some d"
  proof cases
    case table
    then obtain k where k: "k < length (jt_destinations jt)" "d = jt_destinations jt ! k" by (auto simp: in_set_conv_nth)
    have wf: "table_wf jt" using table(1) ok by (simp add: transitions_ok_def)
    let ?c = "jt_min jt + k"
    have "?c < 128" "jt_matches jt ?c d" using wf k by (auto simp: table_wf_def jt_matches_def toASCIILower_def)
    with table(1) show ?thesis by (intro m [of ?c]) (auto simp: checks_match_def)
  next
    case check
    have "range_wf r" using check(1) ok by (simp add: transitions_ok_def)
    then have "r_min r < 128" "r_matches r (r_min r)" by (auto simp: range_wf_def r_matches_def toASCIILower_def)
    with check show ?thesis by (intro m [of "r_min r"]) (auto simp: checks_match_def)
  next
    case last
    with ok show ?thesis unfolding transitions_ok_def by blast
  qed
  then obtain c where "range_at ?trs c = Some d" by blast
  then have "d \<in> set (map (snd \<circ> snd) ?trs)" by (rule range_at_target)
  with wf show ?thesis by (auto simp: node_wf_dfa_def)
qed

lemma node_jumps_after:
  assumes "map shape is = node_shape dfa j ts" "(s, pc, loc, d) \<in> set (jumps pc0 is)"
  shows "pc0 + actions_len dfa j \<le> pc"
proof -
  obtain is1 is2 where sp: "is = is1 @ is2" "map shape is1 = map IAction (dfa_nodeActions dfa (dfa_nodes dfa ! j))"
    using assms(1) by (auto simp: node_shape_def map_eq_append_conv)
  note a = actions_code [OF sp(2), of pc0]
  have "(s, pc, loc, d) \<in> set (jumps (pc0 + actions_len dfa j) is2)" using assms(2) a by (simp add: sp(1) actions_len_def)
  then show ?thesis using jumps_set by blast
qed

section \<open>The compiled code\<close>

lemma upt_split: "j < d \<Longrightarrow> [0..<d] = [0..<j] @ j # [Suc j..<d]"
  using upt_add_eq_append [of 0 j "d - j"] by (simp add: upt_conv_Cons)

lemma sum_before_after:
  assumes "d \<noteq> dfa_root dfa" "j = dfa_root dfa \<or> j < d"
  shows "\<exists>xs. set xs \<subseteq> {0..<d} \<and> (\<forall>f. sum_before dfa f d = sum_before dfa f j + f j + sum_list (map f xs))"
proof (cases "j = dfa_root dfa")
  case True
  then show ?thesis using assms(1)
    by (intro exI [of _ "filter (\<lambda>k. k \<noteq> dfa_root dfa) [0..<d]"]) (auto simp: sum_before_def order_def)
next
  case False
  with assms upt_split [of j d] show ?thesis
    by (intro exI [of _ "filter (\<lambda>k. k \<noteq> dfa_root dfa) [Suc j..<d]"]) (auto simp: sum_before_def order_def)
qed

lemma sum_before_total: "d < n \<Longrightarrow> sum_before dfa f d + f d \<le> sum_list (map f (order dfa n))"
  using upt_split [of d n] by (cases "d = dfa_root dfa") (simp_all add: sum_before_def order_def)

text \<open>The result of the compiler: \<open>blk\<close> gives the instructions of a node and \<open>S\<close> its start offset.
  All jumps fit into their sizes.\<close>

definition node_code_ok :: "DFA \<Rightarrow> nat \<Rightarrow> (nat \<Rightarrow> SizedIns list) \<Rightarrow> nat list \<Rightarrow> nat \<Rightarrow> bool" where
  "node_code_ok dfa B blk S j \<longleftrightarrow>
     (if killed dfa j then blk j = []
      else S ! j = start_at dfa B blk j \<and>
        (\<exists>ts. nodeTransitions dfa (dfa_nodes dfa ! j) = Some ts \<and> transitions_ok dfa (dfa_nodes dfa ! j) ts \<and>
           map shape (blk j) = node_shape dfa j ts) \<and>
        (\<forall>jp \<in> set (jumps (block_at dfa B blk j) (blk j)). jump_ok S jp))"

lemma block_len_le:
  assumes "block_ok dfa mo B blk j" and ok: "\<And>ts. nodeTransitions dfa (dfa_nodes dfa ! j) = Some ts \<Longrightarrow> transitions_ok dfa (dfa_nodes dfa ! j) ts"
  shows "code_len (blk j) \<le> max_size dfa j"
proof (cases "killed dfa j")
  case False
  then obtain ts where ts: "nodeTransitions dfa (dfa_nodes dfa ! j) = Some ts" "map shape (blk j) = node_shape dfa j ts"
    using assms(1) by (auto simp: block_ok_def)
  show ?thesis using code_len_le [of "blk j"] node_max_len [OF ts(1) ok [OF ts(1)] False] ts(2) by simp
qed (use assms in \<open>simp add: block_ok_def\<close>)

lemma sum_list_map_mono: "(\<And>x. x \<in> set xs \<Longrightarrow> f x \<le> g x) \<Longrightarrow> sum_list (map f xs) \<le> sum_list (map g xs)" for f g :: "'a \<Rightarrow> nat"
  by (induction xs) (simp_all add: add_mono)

text \<open>A jump that the compiler sizes from worst-case offsets fits, because the code between two nodes
  is never longer than its worst case.\<close>

lemma block_jump_ok:
  fixes dfa :: DFA
  defines "n \<equiv> length (dfa_nodes dfa)"
  assumes lens: "\<And>k. k < n \<Longrightarrow> code_len (blk k) \<le> max_size dfa k"
    and mo: "\<And>k. k < n \<Longrightarrow> mo ! k = 4 + sum_before dfa (max_size dfa) k + (if k = dfa_root dfa then actions_len dfa k else 0)"
    and size: "B + max_code_size dfa < 2 ^ 30" and j: "j < n" "\<not> killed dfa j"
    and d: "d < n" "\<not> killed dfa d" "S ! d = start_at dfa B blk d" and root: "dfa_root dfa < n"
    and pc: "block_at dfa B blk j + actions_len dfa j \<le> pc" "pc < block_at dfa B blk j + code_len (blk j)"
    and act: "actions_len dfa d \<le> code_len (blk d)"
    and st: "jump_size pc j d st \<le> s" "m_maxNodeStartOffsets st = mo"
      "\<And>k. k < n \<Longrightarrow> m_nodeStartOffsets st ! k = (if known dfa j k then start_at dfa B blk k else noOffset)"
  shows "jump_ok S (s, pc, loc, d)"
proof -
  let ?len = "\<lambda>k. code_len (blk k)" and ?mx = "max_size dfa"
  have total: "sum_before dfa ?mx k + ?mx k < 2 ^ 30 - B" if "k < n" for k
    using sum_before_total [OF that [unfolded n_def], of dfa ?mx] size by (simp add: max_code_size_def)
  have below: "sum_before dfa ?len k \<le> sum_before dfa ?mx k" if "k < n" for k
    unfolding sum_before_def using that lens root by (auto simp: set_order intro!: sum_list_map_mono)
  have Sd: "S ! d \<le> B + sum_before dfa ?mx d + ?mx d"
    using below [OF d(1)] lens [OF d(1)] act by (auto simp: d(3) start_at_def block_at_def)
  have pc_le: "pc < B + sum_before dfa ?mx j + ?mx j"
    using pc(2) below [OF j(1)] lens [OF j(1)] by (simp add: block_at_def)
  have bounds: "S ! d < 2 ^ 30" "pc < 2 ^ 30" using Sd pc_le total [OF d(1)] total [OF j(1)] by linarith+
  have "fits s (int (S ! d) - int pc)"
  proof (cases "known dfa j d")
    case True
    have "S ! d \<noteq> noOffset" using bounds by (simp add: noOffset_def)
    then have "longestPossibleJump pc j d st = int (S ! d) - int pc"
      using True st(3) [unfolded n_def] d bounds unfolding longestPossibleJump_def n_def by (simp add: int32_id)
    with st(1) bounds show ?thesis by (intro fits_larger [OF _ st(1)]) (simp add: smallestPossibleJumpSize_fits)
  next
    case False
    then have after: "d \<noteq> dfa_root dfa" "j = dfa_root dfa \<or> j < d" using d(2) by (auto simp: known_def)
    obtain xs where xs: "set xs \<subseteq> {0..<d}" "\<And>f. sum_before dfa f d = sum_before dfa f j + f j + sum_list (map f xs)"
      using sum_before_after [OF after] by blast
    have "known dfa j j" using j(2) by (auto simp: known_def)
    then have Sj: "m_nodeStartOffsets st ! j = start_at dfa B blk j" using st(3) [OF j(1)] by simp
    define a where "a = (if j = dfa_root dfa then actions_len dfa j else 0)"
    define X where "X = sum_list (map ?len xs)"
    define Y where "Y = sum_list (map ?mx xs)"
    define p where "p = pc - (B + sum_before dfa ?len j + a)"
    have XY: "X \<le> Y" unfolding X_def Y_def using xs(1) d(1) lens by (intro sum_list_map_mono) auto
    have pc_eq: "pc = B + sum_before dfa ?len j + a + p" "a + p < ?len j"
      using pc by (auto simp: p_def a_def block_at_def split: if_splits)
    have Sd_eq: "S ! d = B + sum_before dfa ?len j + ?len j + X"
      using xs(2) [of ?len] after(1) by (simp add: d(3) start_at_def block_at_def X_def)
    have "longestPossibleJump pc j d st = int32 (int (?mx j + Y) - int a + int p)"
      using False st(2,3) d(1) Sj mo [OF d(1)] mo [OF j(1)] xs(2) [of ?mx] after(1) pc_eq(1)
      by (simp add: longestPossibleJump_def start_at_def block_at_def a_def Y_def algebra_simps)
    also have "\<dots> = int (?mx j + Y) - int a + int p"
      using total [OF d(1)] xs(2) [of ?mx] pc_eq(2) lens [OF j(1)] by (intro int32_id) (simp_all add: Y_def)
    finally have longest: "longestPossibleJump pc j d st = int (?mx j + Y) - int a + int p" .
    have "fits s (int (?mx j + Y) - int a + int p)"
      using total [OF d(1)] xs(2) [of ?mx] pc_eq(2) lens [OF j(1)] longest
      by (intro fits_larger [OF _ st(1)]) (simp add: smallestPossibleJumpSize_fits Y_def)
    then show ?thesis using XY pc_eq Sd_eq lens [OF j(1)] by (elim fits_mono) simp_all
  qed
  with bounds show ?thesis by (simp add: jump_ok_def)
qed

lemma jumps_blocks:
  "jp \<in> set (jumps B (concat (map blk (order dfa i)))) \<Longrightarrow> \<exists>j \<in> set (order dfa i). jp \<in> set (jumps (block_at dfa B blk j) (blk j))"
proof (induction i)
  case 0
  then show ?case by (simp add: order_def)
next
  case (Suc i)
  show ?case
  proof (cases "i = dfa_root dfa")
    case True
    then have "order dfa (Suc i) = order dfa i" by (simp add: order_Suc)
    with Suc show ?thesis by (simp only:)
  next
    case False
    with Suc.prems consider "jp \<in> set (jumps B (concat (map blk (order dfa i))))" | "jp \<in> set (jumps (block_at dfa B blk i) (blk i))"
      by (auto simp: order_Suc block_at_def sum_before_def code_len_concat)
    then show ?thesis using Suc.IH False by cases (auto simp: order_Suc)
  qed
qed

lemma blocks_jumps_ok:
  fixes dfa :: DFA
  defines "n \<equiv> length (dfa_nodes dfa)"
  assumes wf: "dfa_wf dfa" and n: "n < 2 ^ 32 - 1"
    and mo: "\<And>k. k < n \<Longrightarrow> mo ! k = 4 + sum_before dfa (max_size dfa) k + (if k = dfa_root dfa then actions_len dfa k else 0)"
    and size: "length pre + max_code_size dfa < 2 ^ 30" and inv: "compiled_to dfa mo pre blk n st" and j: "j < n"
  shows "node_code_ok dfa (length pre) blk (m_nodeStartOffsets st) j"
proof (cases "killed dfa j")
  case True
  with inv j show ?thesis by (auto simp: compiled_to_def node_code_ok_def block_ok_def set_order)
next
  case False
  let ?B = "length pre" and ?S = "m_nodeStartOffsets st"
  have root: "dfa_root dfa < n" "\<not> killed dfa (dfa_root dfa)" using wf by (simp_all add: dfa_wf_def n_def)
  have node: "node_wf_dfa dfa (dfa_nodes dfa ! k)" if "k < n" "\<not> killed dfa k" for k
    using wf that by (simp add: dfa_wf_def n_def)
  have ts: "transitions_ok dfa (dfa_nodes dfa ! k) ts"
    if "k < n" "\<not> killed dfa k" "nodeTransitions dfa (dfa_nodes dfa ! k) = Some ts" for k ts
    using nodeTransitions_ok [OF node [OF that(1,2)]] n that(3) by (simp add: n_def)
  have blocks: "block_ok dfa mo ?B blk k" if "k < n" for k using inv that by (simp add: compiled_to_def set_order)
  have S: "?S ! k = start_at dfa ?B blk k" if "k < n" "\<not> killed dfa k" for k
    using inv that by (simp add: compiled_to_def n_def)
  have lens: "code_len (blk k) \<le> max_size dfa k" if "k < n" for k
  proof (cases "killed dfa k")
    case True
    with blocks [OF that] show ?thesis by (simp add: block_ok_def)
  next
    case False
    with block_len_le [OF blocks [OF that]] ts [OF that] show ?thesis by blast
  qed
  have act: "actions_len dfa k \<le> code_len (blk k)" if k: "k < n" "\<not> killed dfa k" for k
  proof -
    obtain ts where "map shape (blk k) = node_shape dfa k ts" using blocks [OF k(1)] k(2) by (auto simp: block_ok_def)
    then obtain is1 is2 where "blk k = is1 @ is2" "map shape is1 = map IAction (dfa_nodeActions dfa (dfa_nodes dfa ! k))"
      by (auto simp: node_shape_def map_eq_append_conv)
    with actions_code [of is1] show ?thesis by (simp add: actions_len_def)
  qed
  obtain ts st' where t: "nodeTransitions dfa (dfa_nodes dfa ! j) = Some ts" "map shape (blk j) = node_shape dfa j ts"
    and st': "sized st' j (jumps (block_at dfa ?B blk j) (blk j))" "m_maxNodeStartOffsets st' = mo"
      "\<And>d. d < n \<Longrightarrow> m_nodeStartOffsets st' ! d = (if known dfa j d then start_at dfa ?B blk d else noOffset)"
    using blocks [OF j] False by (auto simp: block_ok_def n_def)
  have "jump_ok ?S (s, pc, loc, d)" if jp: "(s, pc, loc, d) \<in> set (jumps (block_at dfa ?B blk j) (blk j))" for s pc loc d
  proof -
    obtain i where "i \<in> set (blk j)" "d \<in> ins_dests i" and pc: "pc < block_at dfa ?B blk j + code_len (blk j)"
      using jumps_set [OF jp] by blast
    then have "shape i \<in> set (node_shape dfa j ts)" "d \<in> ins_dests (shape i)" by (auto simp: t(2) [symmetric])
    from node_dests_ok [OF node [OF j False] ts [OF j False t(1)] this] have d: "d < n" "\<not> killed dfa d" by (simp_all add: n_def)
    have "jump_size pc j d st' \<le> s" using st'(1) jp unfolding sized_def by fast
    from block_jump_ok [OF lens mo size j [unfolded n_def] False d [unfolded n_def] S [OF d] root(1) [unfolded n_def]
        node_jumps_after [OF t(2) jp] pc act [OF d] this st'(2,3)]
    show ?thesis by (simp add: n_def)
  qed
  then show ?thesis using False S [OF j False] ts [OF j False t(1)] t unfolding node_code_ok_def by auto
qed

lemma node_code_len: "node_code_ok dfa B blk S j \<Longrightarrow> code_len (blk j) \<le> max_size dfa j"
  using code_len_le [of "blk j"] node_max_len [of dfa j] by (cases "killed dfa j") (auto simp: node_code_ok_def simp del: map_map)

lemma compile_layout:
  assumes wf: "dfa_wf dfa" and n: "length (dfa_nodes dfa) < 2 ^ 32 - 1" and size: "length bytecode + 4 + max_code_size dfa < 2 ^ 30"
  shows "\<exists>blk S. let n = length (dfa_nodes dfa); B = length bytecode + 4; is = concat (map blk (order dfa n)) in
    compile dfa bytecode = Some (bytecode @ bytesOf 4 (int (4 + code_len is)) @ code (linked S) B is) \<and>
    (\<forall>j < n. node_code_ok dfa B blk S j) \<and> code_len is \<le> max_code_size dfa"
proof -
  let ?n = "length (dfa_nodes dfa)" and ?B = "length bytecode + 4" and ?pre = "bytecode @ bytesOf 4 0"
  have root: "dfa_root dfa < ?n" "\<not> killed dfa (dfa_root dfa)" using wf by (simp_all add: dfa_wf_def)
  have ts: "\<exists>ts. nodeTransitions dfa (dfa_nodes dfa ! j) = Some ts" if "j < ?n" "\<not> killed dfa j" for j
    using nodeTransitions_ok [of dfa "dfa_nodes dfa ! j"] wf n that by (auto simp: dfa_wf_def)
  obtain mo where mo: "maxNodeStartOffsets dfa = Some mo" "\<And>j. j < ?n \<Longrightarrow> mo ! j = 4 + sum_before dfa (max_size dfa) j + (if j = dfa_root dfa then actions_len dfa j else 0)"
    using maxNodeStartOffsets_ok [OF root(1) ts] by blast
  define st0 where "st0 = \<lparr>m_bytecode = ?pre, m_maxNodeStartOffsets = mo, m_nodeStartOffsets = replicate ?n noOffset, m_linkRecords = []\<rparr>"
  obtain ts0 where ts0: "nodeTransitions dfa (dfa_nodes dfa ! dfa_root dfa) = Some ts0" using ts [OF root] by blast
  obtain st1 blk1 where st1: "compileNode dfa (dfa_root dfa) True st0 = Some st1" "compiled_to dfa mo ?pre blk1 0 st1"
    using compileRoot_ok [OF root ts0, of st0 ?pre mo] by (auto simp: st0_def)
  obtain st blk where st: "compileNodes dfa [0..<?n] st1 = Some st" and inv: "compiled_to dfa mo ?pre blk ?n st"
    using compileNodes_ok [OF st1(2) _ ts] by blast
  let ?is = "concat (map blk (order dfa ?n))" and ?S = "m_nodeStartOffsets st"
  have ok: "node_code_ok dfa ?B blk ?S j" if "j < ?n" for j
    using blocks_jumps_ok [OF wf n mo(2) _ inv that] size by simp
  have "\<forall>jp \<in> set (jumps (length ?pre) ?is). jump_ok ?S jp"
  proof
    fix jp assume "jp \<in> set (jumps (length ?pre) ?is)"
    then obtain j where "j \<in> set (order dfa ?n)" and jp: "jp \<in> set (jumps (block_at dfa (length ?pre) blk j) (blk j))"
      using jumps_blocks by blast
    then have "node_code_ok dfa ?B blk ?S j" using ok root(1) by (auto simp: set_order)
    then show "jump_ok ?S jp" using jp by (auto simp: node_code_ok_def split: if_splits)
  qed
  then have link: "linkRecords ?S (m_linkRecords st) (m_bytecode st) = Some (?pre @ code (linked ?S) ?B ?is)"
    using link_code [of "m_linkRecords st" "length ?pre" ?is ?pre ?S "[]"] inv by (simp add: compiled_to_def)
  have "compile dfa bytecode = setBits 4 (bytecode @ bytesOf 4 0 @ code (linked ?S) ?B ?is) (length bytecode) (int (4 + code_len ?is))"
    using mo(1) st1(1) st link unfolding compile_def Let_def by (simp add: appendBytes_def st0_def)
  also have "\<dots> = Some (bytecode @ bytesOf 4 (int (4 + code_len ?is)) @ code (linked ?S) ?B ?is)"
    by (rule setBits_at) simp_all
  finally have run: "compile dfa bytecode = Some (bytecode @ bytesOf 4 (int (4 + code_len ?is)) @ code (linked ?S) ?B ?is)" .
  have "code_len ?is \<le> max_code_size dfa"
    unfolding code_len_concat max_code_size_def using ok root(1)
    by (intro trans_le_add2 sum_list_map_mono node_code_len [of dfa ?B blk ?S]) (auto simp: set_order)
  with run ok show ?thesis unfolding Let_def by blast
qed

end
