(* ===== verification/DFABytecodeInterpreter.thy ===== *)
theory DFABytecodeInterpreter
  imports BytecodeLayout HashSet
begin

text \<open>
  \<^verbatim>\<open>DFABytecodeInterpreter.cpp\<close>: running the bytecode of several automata on a URL. A read outside
  the bytecode or outside the zero-terminated URL, and an invalid instruction or jump size, which
  the source release-asserts, are \<open>None\<close>.
\<close>

section \<open>Reading instructions\<close>

text \<open>32-bit locations wrap around.\<close>

definition advance :: "nat \<Rightarrow> int \<Rightarrow> nat" where
  "advance programCounter d = nat ((int programCounter + d) mod 2 ^ 32)"

definition getByte :: "byte list \<Rightarrow> nat \<Rightarrow> byte option" where
  "getByte bytecode index = (if index < length bytecode then Some (bytecode ! index) else None)"

definition getInstruction :: "byte list \<Rightarrow> nat \<Rightarrow> byte option" where
  "getInstruction bytecode index = do {
     b \<leftarrow> getByte bytecode index;
     Some (b AND DFABytecodeInstructionMask)
   }"

definition getJumpSize :: "byte list \<Rightarrow> nat \<Rightarrow> DFABytecodeJumpSize option" where
  "getJumpSize bytecode index = do {
     b \<leftarrow> getByte bytecode index;
     let v = b AND DFABytecodeJumpSizeMask;
     if v = jumpSize_value Int8 then Some Int8
     else if v = jumpSize_value Int16 then Some Int16
     else if v = jumpSize_value Int24 then Some Int24
     else if v = jumpSize_value Int32 then Some Int32
     else None
   }"

fun getJumpDistance :: "byte list \<Rightarrow> nat \<Rightarrow> DFABytecodeJumpSize \<Rightarrow> int option" where
  "getJumpDistance bytecode index Int8 = map_option signedOf (getBits 1 bytecode index)"
| "getJumpDistance bytecode index Int16 = map_option signedOf (getBits 2 bytecode index)"
| "getJumpDistance bytecode index Int24 = do {
     low \<leftarrow> getBits 2 bytecode index;
     high \<leftarrow> getBits 1 bytecode (advance index 2);
     Some (unsignedOf low OR push_bit 16 (signedOf high))
   }"
| "getJumpDistance bytecode index Int32 = map_option signedOf (getBits 4 bytecode index)"

section \<open>Actions\<close>

type_synonym Actions = "uint64 HashSet"

definition matchesDomain :: "uint64 \<Rightarrow> Actions \<Rightarrow> bool option" where
  "matchesDomain actionAndFlags domainActions = do {
     let ifDomain = (actionAndFlags AND IfDomainFlag \<noteq> 0);
     domain \<leftarrow> hs_contains actionSetTraits domainActions actionAndFlags;
     Some (ifDomain = domain)
   }"

text \<open>\<^verbatim>\<open>if (!m_domainActions || matchesDomain(action, *m_domainActions)) actions.add(action)\<close>\<close>

definition addMatching :: "uint64 \<Rightarrow> Actions option \<Rightarrow> Actions \<Rightarrow> Actions option" where
  "addMatching action m_domainActions actions = do {
     matches \<leftarrow> (case m_domainActions of None \<Rightarrow> Some True | Some domainActions \<Rightarrow> matchesDomain action domainActions);
     if matches then do { (actions, _) \<leftarrow> hs_add actionSetTraits action actions; Some actions }
     else Some actions
   }"

definition interpretAppendAction ::
  "byte list \<Rightarrow> Actions option \<Rightarrow> nat \<Rightarrow> Actions \<Rightarrow> bool \<Rightarrow> (nat \<times> Actions) option" where
  "interpretAppendAction bytecode m_domainActions programCounter actions ifDomain = do {
     bits \<leftarrow> getBits 4 bytecode (advance programCounter 1);
     let action = (if ifDomain then IfDomainFlag else 0) OR word_of_int (unsignedOf bits);
     actions \<leftarrow> addMatching action m_domainActions actions;
     Some (advance programCounter 5, actions)
   }"

definition flagsMatch :: "uint16 \<Rightarrow> uint16 \<Rightarrow> bool" where
  "flagsMatch flagsToCheck flags =
     (let loadTypeFlags = flagsToCheck AND LoadTypeMask;
          resourceTypeFlags = flagsToCheck AND ResourceTypeMask;
          loadTypeMatches = (if loadTypeFlags \<noteq> 0 then loadTypeFlags AND flags \<noteq> 0 else True);
          resourceTypeMatches = (if resourceTypeFlags \<noteq> 0 then resourceTypeFlags AND flags \<noteq> 0 else True)
      in loadTypeMatches \<and> resourceTypeMatches)"

definition interpretTestFlagsAndAppendAction ::
  "byte list \<Rightarrow> Actions option \<Rightarrow> nat \<Rightarrow> uint16 \<Rightarrow> Actions \<Rightarrow> bool \<Rightarrow> (nat \<times> Actions) option" where
  "interpretTestFlagsAndAppendAction bytecode m_domainActions programCounter flags actions ifDomain = do {
     flagBits \<leftarrow> getBits 2 bytecode (advance programCounter 1);
     let flagsToCheck = (word_of_int (unsignedOf flagBits) :: uint16);
     actions \<leftarrow>
       (if flagsMatch flagsToCheck flags then do {
          bits \<leftarrow> getBits 4 bytecode (advance programCounter 3);
          let actionAndFlags = (if ifDomain then IfDomainFlag else 0) OR push_bit 32 (ucast flagsToCheck)
                OR word_of_int (unsignedOf bits);
          addMatching actionAndFlags m_domainActions actions
        }
        else Some actions);
     Some (advance programCounter 7, actions)
   }"

section \<open>The loop over the instructions of an automaton\<close>

text \<open>The characters of the URL, with the zero at its end.\<close>

definition urlAt :: "charval list \<Rightarrow> nat \<Rightarrow> charval option" where
  "urlAt url i = (if i < length url then Some (url ! i) else if i = length url then Some 0 else None)"

record InterpreterState =
  programCounter :: nat
  urlIndex :: nat
  urlIndexIsAfterEndOfString :: bool
  is_actions :: Actions

text \<open>An edge in the automaton.\<close>

definition takeJump :: "int \<Rightarrow> charval \<Rightarrow> InterpreterState \<Rightarrow> InterpreterState" where
  "takeJump distance character st =
     st\<lparr>programCounter := advance (programCounter st) distance,
        urlIndexIsAfterEndOfString := urlIndexIsAfterEndOfString st \<or> character = 0,
        urlIndex := urlIndex st + 1\<rparr>"

definition readCharacter :: "bool \<Rightarrow> charval list \<Rightarrow> InterpreterState \<Rightarrow> charval option" where
  "readCharacter caseSensitive url st = do {
     c \<leftarrow> urlAt url (urlIndex st);
     Some (if caseSensitive then c else toASCIILowerChar c)
   }"

definition interpretCheckValue :: "byte list \<Rightarrow> charval list \<Rightarrow> bool \<Rightarrow> InterpreterState \<Rightarrow> InterpreterState option" where
  "interpretCheckValue bytecode url caseSensitive st = do {
     let pc = programCounter st;
     character \<leftarrow> readCharacter caseSensitive url st;
     jumpSize \<leftarrow> getJumpSize bytecode pc;
     v \<leftarrow> getByte bytecode (advance pc 1);
     if character = uint v then do {
       distance \<leftarrow> getJumpDistance bytecode (advance pc 2) jumpSize;
       Some (takeJump distance character st)
     }
     else Some (st\<lparr>programCounter := advance pc (2 + int (jumpSizeInBytes jumpSize))\<rparr>)
   }"

definition interpretCheckValueRange :: "byte list \<Rightarrow> charval list \<Rightarrow> bool \<Rightarrow> InterpreterState \<Rightarrow> InterpreterState option" where
  "interpretCheckValueRange bytecode url caseSensitive st = do {
     let pc = programCounter st;
     character \<leftarrow> readCharacter caseSensitive url st;
     jumpSize \<leftarrow> getJumpSize bytecode pc;
     low \<leftarrow> getByte bytecode (advance pc 1);
     high \<leftarrow> getByte bytecode (advance pc 2);
     if uint low \<le> character \<and> character \<le> uint high then do {
       distance \<leftarrow> getJumpDistance bytecode (advance pc 3) jumpSize;
       Some (takeJump distance character st)
     }
     else Some (st\<lparr>programCounter := advance pc (3 + int (jumpSizeInBytes jumpSize))\<rparr>)
   }"

definition interpetJumpTable :: "byte list \<Rightarrow> charval list \<Rightarrow> bool \<Rightarrow> InterpreterState \<Rightarrow> InterpreterState option" where
  "interpetJumpTable bytecode url caseSensitive st = do {
     let pc = programCounter st;
     jumpSize \<leftarrow> getJumpSize bytecode pc;
     character \<leftarrow> readCharacter caseSensitive url st;
     firstCharacter \<leftarrow> getByte bytecode (advance pc 1);
     lastCharacter \<leftarrow> getByte bytecode (advance pc 2);
     if uint firstCharacter \<le> character \<and> character \<le> uint lastCharacter then do {
       let startOffset = advance pc 3;
       let jumpLocation = advance startOffset ((character - uint firstCharacter) * int (jumpSizeInBytes jumpSize));
       distance \<leftarrow> getJumpDistance bytecode jumpLocation jumpSize;
       Some (takeJump distance character st)
     }
     else Some (st\<lparr>programCounter :=
       advance pc (3 + int (jumpSizeInBytes jumpSize) * (uint lastCharacter - uint firstCharacter + 1))\<rparr>)
   }"

definition interpretJump :: "byte list \<Rightarrow> InterpreterState \<Rightarrow> InterpreterState option" where
  "interpretJump bytecode st = do {
     let pc = programCounter st;
     jumpSize \<leftarrow> getJumpSize bytecode pc;
     distance \<leftarrow> getJumpDistance bytecode (advance pc 1) jumpSize;
     Some (st\<lparr>programCounter := advance pc distance, urlIndex := urlIndex st + 1\<rparr>)
   }"

definition withActions :: "(nat \<times> Actions) option \<Rightarrow> InterpreterState \<Rightarrow> InterpreterState option" where
  "withActions r st = do { (pc, actions) \<leftarrow> r; Some (st\<lparr>programCounter := pc, is_actions := actions\<rparr>) }"

text \<open>The switch over the instruction: \<open>Some None\<close> is \<^verbatim>\<open>goto nextDFA\<close>.\<close>

definition unlessAfterEnd :: "InterpreterState option \<Rightarrow> InterpreterState \<Rightarrow> InterpreterState option option" where
  "unlessAfterEnd r st = (if urlIndexIsAfterEndOfString st then Some None else map_option Some r)"

definition interpretInstruction ::
  "byte list \<Rightarrow> Actions option \<Rightarrow> charval list \<Rightarrow> uint16 \<Rightarrow> InterpreterState \<Rightarrow> InterpreterState option option" where
  "interpretInstruction bytecode m_domainActions url flags st = do {
     let pc = programCounter st;
     instruction \<leftarrow> getInstruction bytecode pc;
     if instruction = instruction_value Terminate then Some None
     else if instruction = instruction_value CheckValueCaseSensitive then
       unlessAfterEnd (interpretCheckValue bytecode url True st) st
     else if instruction = instruction_value CheckValueCaseInsensitive then
       unlessAfterEnd (interpretCheckValue bytecode url False st) st
     else if instruction = instruction_value JumpTableCaseInsensitive then
       unlessAfterEnd (interpetJumpTable bytecode url False st) st
     else if instruction = instruction_value JumpTableCaseSensitive then
       unlessAfterEnd (interpetJumpTable bytecode url True st) st
     else if instruction = instruction_value CheckValueRangeCaseSensitive then
       unlessAfterEnd (interpretCheckValueRange bytecode url True st) st
     else if instruction = instruction_value CheckValueRangeCaseInsensitive then
       unlessAfterEnd (interpretCheckValueRange bytecode url False st) st
     else if instruction = instruction_value Jump then do {
       c \<leftarrow> urlAt url (urlIndex st);
       if c = 0 \<or> urlIndexIsAfterEndOfString st then Some None else map_option Some (interpretJump bytecode st)
     }
     else if instruction = instruction_value AppendAction then
       map_option Some (withActions (interpretAppendAction bytecode m_domainActions pc (is_actions st) False) st)
     else if instruction = instruction_value AppendActionWithIfDomain then
       map_option Some (withActions (interpretAppendAction bytecode m_domainActions pc (is_actions st) True) st)
     else if instruction = instruction_value TestFlagsAndAppendAction then
       map_option Some (withActions (interpretTestFlagsAndAppendAction bytecode m_domainActions pc flags (is_actions st) False) st)
     else if instruction = instruction_value TestFlagsAndAppendActionWithIfDomain then
       map_option Some (withActions (interpretTestFlagsAndAppendAction bytecode m_domainActions pc flags (is_actions st) True) st)
     else None
   }"

partial_function (option) interpretInstructions ::
  "byte list \<Rightarrow> Actions option \<Rightarrow> charval list \<Rightarrow> uint16 \<Rightarrow> InterpreterState \<Rightarrow> Actions option" where
  "interpretInstructions bytecode m_domainActions url flags st = do {
     r \<leftarrow> interpretInstruction bytecode m_domainActions url flags st;
     (case r of None \<Rightarrow> Some (is_actions st)
      | Some st' \<Rightarrow> interpretInstructions bytecode m_domainActions url flags st')
   }"

text \<open>The actions of the root of the first automaton: those without flags are skipped.\<close>

partial_function (option) interpretRootActions ::
  "byte list \<Rightarrow> Actions option \<Rightarrow> uint16 \<Rightarrow> nat \<Rightarrow> nat \<Rightarrow> Actions \<Rightarrow> (nat \<times> Actions) option" where
  "interpretRootActions bytecode m_domainActions flags dfaBytecodeLength pc actions =
     (if pc < dfaBytecodeLength then do {
        instruction \<leftarrow> getInstruction bytecode pc;
        if instruction = instruction_value AppendAction then
          interpretRootActions bytecode m_domainActions flags dfaBytecodeLength (advance pc 5) actions
        else if instruction = instruction_value AppendActionWithIfDomain then
          interpretRootActions bytecode m_domainActions flags dfaBytecodeLength (advance pc 5) actions
        else if instruction = instruction_value TestFlagsAndAppendAction then do {
          (pc, actions) \<leftarrow> interpretTestFlagsAndAppendAction bytecode m_domainActions pc flags actions False;
          interpretRootActions bytecode m_domainActions flags dfaBytecodeLength pc actions
        }
        else if instruction = instruction_value TestFlagsAndAppendActionWithIfDomain then do {
          (pc, actions) \<leftarrow> interpretTestFlagsAndAppendAction bytecode m_domainActions pc flags actions True;
          interpretRootActions bytecode m_domainActions flags dfaBytecodeLength pc actions
        }
        else Some (pc, actions)
      }
      else Some (pc, actions))"

text \<open>The loop over the automata.\<close>

partial_function (option) interpretDFAs ::
  "byte list \<Rightarrow> Actions option \<Rightarrow> charval list \<Rightarrow> uint16 \<Rightarrow> nat \<Rightarrow> Actions \<Rightarrow> Actions option" where
  "interpretDFAs bytecode m_domainActions url flags pc actions =
     (if pc < length bytecode then do {
        let dfaStart = pc;
        header \<leftarrow> getBits 4 bytecode pc;
        let dfaBytecodeLength = nat (unsignedOf header);
        let pc = advance pc 4;
        (pc, actions) \<leftarrow> (if dfaStart = 0
          then interpretRootActions bytecode m_domainActions flags dfaBytecodeLength pc actions
          else Some (pc, actions));
        if dfaStart = 0 \<and> pc \<ge> length bytecode then Some actions
        else do {
          actions \<leftarrow> interpretInstructions bytecode m_domainActions url flags
            \<lparr>programCounter = pc, urlIndex = 0, urlIndexIsAfterEndOfString = False, is_actions = actions\<rparr>;
          interpretDFAs bytecode m_domainActions url flags (advance dfaStart (int dfaBytecodeLength)) actions
        }
      }
      else Some actions)"

definition interpretBytecode :: "byte list \<Rightarrow> Actions option \<Rightarrow> charval list \<Rightarrow> uint16 \<Rightarrow> Actions option" where
  "interpretBytecode bytecode m_domainActions url flags = interpretDFAs bytecode m_domainActions url flags 0 ht_empty"

definition interpretWithDomains :: "byte list \<Rightarrow> charval list \<Rightarrow> uint16 \<Rightarrow> Actions \<Rightarrow> Actions option" where
  "interpretWithDomains bytecode url flags domainActions = interpretBytecode bytecode (Some domainActions) url flags"

partial_function (option) actionsMatchingEverything_loop ::
  "byte list \<Rightarrow> Actions option \<Rightarrow> nat \<Rightarrow> nat \<Rightarrow> Actions \<Rightarrow> Actions option" where
  "actionsMatchingEverything_loop bytecode m_domainActions dfaBytecodeLength pc actions =
     (if pc < dfaBytecodeLength then do {
        instruction \<leftarrow> getInstruction bytecode pc;
        if instruction = instruction_value AppendAction then do {
          (pc, actions) \<leftarrow> interpretAppendAction bytecode m_domainActions pc actions False;
          actionsMatchingEverything_loop bytecode m_domainActions dfaBytecodeLength pc actions
        }
        else if instruction = instruction_value AppendActionWithIfDomain then do {
          (pc, actions) \<leftarrow> interpretAppendAction bytecode m_domainActions pc actions True;
          actionsMatchingEverything_loop bytecode m_domainActions dfaBytecodeLength pc actions
        }
        else if instruction = instruction_value TestFlagsAndAppendAction then
          actionsMatchingEverything_loop bytecode m_domainActions dfaBytecodeLength (advance pc 7) actions
        else if instruction = instruction_value TestFlagsAndAppendActionWithIfDomain then
          actionsMatchingEverything_loop bytecode m_domainActions dfaBytecodeLength (advance pc 7) actions
        else Some actions
      }
      else Some actions)"

definition actionsMatchingEverything :: "byte list \<Rightarrow> Actions option" where
  "actionsMatchingEverything bytecode = do {
     header \<leftarrow> getBits 4 bytecode 0;
     actionsMatchingEverything_loop bytecode None (nat (unsignedOf header)) 4 ht_empty
   }"

section \<open>Flags by their names\<close>

text \<open>The documented names of the types of resources and loads in rule lists; plug-in streams have none.\<close>

fun resource_name :: "ResourceType \<Rightarrow> string option" where
  "resource_name Document = Some ''document''"
| "resource_name Image = Some ''image''"
| "resource_name StyleSheet = Some ''style-sheet''"
| "resource_name Script = Some ''script''"
| "resource_name Font = Some ''font''"
| "resource_name Raw = Some ''raw''"
| "resource_name SVGDocument = Some ''svg-document''"
| "resource_name Media = Some ''media''"
| "resource_name Popup = Some ''popup''"
| "resource_name _ = None"

fun load_name :: "LoadType \<Rightarrow> string option" where
  "load_name FirstParty = Some ''first-party''"
| "load_name ThirdParty = Some ''third-party''"
| "load_name InvalidLoad = None"

text \<open>The flags of a trigger that names resource types and load types.\<close>

definition named_flags :: "string list \<Rightarrow> string list \<Rightarrow> uint16" where
  "named_flags resourceTypes loadTypes =
     fold (\<lambda>name flags. flags OR readLoadType name) loadTypes
       (fold (\<lambda>name flags. flags OR readResourceType name) resourceTypes 0)"

lemma readResourceType_named:
  assumes "readResourceType name \<noteq> 0"
  obtains t where "resource_name t = Some name" "readResourceType name = resourceType_value t"
  using assms that [of Document] that [of Image] that [of StyleSheet] that [of Script] that [of Font] that [of Raw]
    that [of SVGDocument] that [of Media] that [of Popup]
  unfolding readResourceType_def by (simp split: if_splits)

lemma readLoadType_named:
  assumes "readLoadType name \<noteq> 0"
  obtains l where "load_name l = Some name" "readLoadType name = loadType_value l"
  using assms that [of FirstParty] that [of ThirdParty] unfolding readLoadType_def by (simp split: if_splits)

lemma resource_name_inj: "resource_name t = Some name \<Longrightarrow> resource_name u = Some name \<Longrightarrow> t = u"
  by (cases t; cases u; simp; auto)

lemma load_name_inj: "load_name l = Some name \<Longrightarrow> load_name m = Some name \<Longrightarrow> l = m"
  by (cases l; cases m; simp; auto)

lemma resourceType_overlap: "resourceType_value t AND resourceType_value u \<noteq> 0 \<longleftrightarrow> t = u \<and> t \<noteq> InvalidResource"
  by (cases t; cases u; simp)

lemma loadType_overlap: "loadType_value l AND loadType_value m \<noteq> 0 \<longleftrightarrow> l = m \<and> l \<noteq> InvalidLoad"
  by (cases l; cases m; simp)

lemma fold_or_and:
  fixes f :: "'a \<Rightarrow> uint16"
  shows "fold (\<lambda>x flags. flags OR f x) xs a AND m = 0 \<longleftrightarrow> a AND m = 0 \<and> (\<forall>x \<in> set xs. f x AND m = 0)"
proof -
  have "(a OR b) AND c = (a AND c) OR (b AND c)" for a b c :: uint16 by (rule bit.conj_disj_distrib2)
  moreover have "a OR b = 0 \<longleftrightarrow> a = 0 \<and> b = 0" for a b :: uint16 by (auto simp: bit_eq_iff bit_or_iff)
  ultimately show ?thesis by (induction xs arbitrary: a) auto
qed

lemma named_flags_and:
  "named_flags rs ls AND m = 0 \<longleftrightarrow> (\<forall>n \<in> set rs. readResourceType n AND m = 0) \<and> (\<forall>n \<in> set ls. readLoadType n AND m = 0)"
  by (simp add: named_flags_def fold_or_and conj_commute)

lemma read_masked:
  "readResourceType name AND ResourceTypeMask = readResourceType name" "readLoadType name AND LoadTypeMask = readLoadType name"
  unfolding readResourceType_def readLoadType_def if_distrib [of resourceType_value, symmetric]
    if_distrib [of loadType_value, symmetric] by (rule resourceType_bits loadType_bits)+

text \<open>
  C10: for a load with a resource type, the flags of a trigger match the flags of the load exactly if the
  trigger names no resource types or names the type of the load, and names no load types or names
  first-party or third-party as the load is one. So no two types share a flag.
\<close>

theorem named_flags_match:
  assumes "rli_type info \<noteq> InvalidResource"
    and "\<forall>n \<in> set resourceTypes. readResourceType n \<noteq> 0" "\<forall>n \<in> set loadTypes. readLoadType n \<noteq> 0"
  shows "flagsMatch (named_flags resourceTypes loadTypes) (getResourceFlags canAccess info) \<longleftrightarrow>
    (resourceTypes = [] \<or> (\<exists>n \<in> set resourceTypes. resource_name (rli_type info) = Some n)) \<and>
    (loadTypes = [] \<or> (if canAccess (mainDocumentURL info) (resourceURL info) then ''first-party'' else ''third-party'') \<in> set loadTypes)"
proof -
  let ?F = "named_flags resourceTypes loadTypes" and ?G = "getResourceFlags canAccess info"
  define l where "l = (if canAccess (mainDocumentURL info) (resourceURL info) then FirstParty else ThirdParty)"
  have G: "?G = resourceType_value (rli_type info) OR loadType_value l"
    by (simp add: getResourceFlags_def isThirdParty_def l_def)
  have dist: "a AND (b OR c) = (a AND b) OR (a AND c)" for a b c :: uint16 by (rule bit.conj_disj_distrib)
  have sep: "resourceType_value t AND loadType_value m = 0" "loadType_value m AND resourceType_value t = 0" for t m
    by (cases t; cases m; simp)+
  have R: "readResourceType n AND ?G \<noteq> 0 \<longleftrightarrow> resource_name (rli_type info) = Some n" if n: "n \<in> set resourceTypes" for n
  proof -
    obtain t where t: "resource_name t = Some n" "readResourceType n = resourceType_value t"
      using readResourceType_named [OF bspec [OF assms(2) n]] by blast
    have "readResourceType n AND ?G \<noteq> 0 \<longleftrightarrow> t = rli_type info \<and> t \<noteq> InvalidResource"
      unfolding t(2) G dist sep or.right_neutral by (rule resourceType_overlap)
    then show ?thesis using t(1) resource_name_inj [OF t(1)] assms(1) by metis
  qed
  have L: "readLoadType n AND ?G \<noteq> 0 \<longleftrightarrow> load_name l = Some n" if n: "n \<in> set loadTypes" for n
  proof -
    obtain m where m: "load_name m = Some n" "readLoadType n = loadType_value m"
      using readLoadType_named [OF bspec [OF assms(3) n]] by blast
    have "readLoadType n AND ?G \<noteq> 0 \<longleftrightarrow> m = l \<and> m \<noteq> InvalidLoad"
      unfolding m(2) G dist sep or.left_neutral by (rule loadType_overlap)
    moreover have "l \<noteq> InvalidLoad" by (simp add: l_def)
    ultimately show ?thesis using m(1) load_name_inj [OF m(1)] by metis
  qed
  let ?n = "if canAccess (mainDocumentURL info) (resourceURL info) then ''first-party'' else ''third-party''"
  have name: "load_name l = Some ?n" by (simp add: l_def)
  have some: "(\<forall>n \<in> set resourceTypes. readResourceType n AND ?G = 0) \<longleftrightarrow>
      \<not> (\<exists>n \<in> set resourceTypes. resource_name (rli_type info) = Some n)"
    "(\<forall>n \<in> set loadTypes. readLoadType n AND ?G = 0) \<longleftrightarrow> ?n \<notin> set loadTypes"
    using R L [unfolded name option.inject] by (blast, metis)
  have none: "?F AND ResourceTypeMask = 0 \<longleftrightarrow> resourceTypes = []" "?F AND LoadTypeMask = 0 \<longleftrightarrow> loadTypes = []"
    unfolding named_flags_and read_bits read_masked using assms(2,3)
    by (cases resourceTypes; cases loadTypes; simp)+
  have both: "(?F AND ResourceTypeMask) AND ?G = 0 \<longleftrightarrow> (\<forall>n \<in> set resourceTypes. readResourceType n AND ?G = 0)"
    "(?F AND LoadTypeMask) AND ?G = 0 \<longleftrightarrow> (\<forall>n \<in> set loadTypes. readLoadType n AND ?G = 0)"
    unfolding and.assoc named_flags_and unfolding and.assoc [symmetric] read_masked read_bits by simp_all
  show ?thesis unfolding flagsMatch_def Let_def none both some by (simp only: simp_thms if_bool_eq_disj) blast
qed

theorem named_flags_match_witness:
  "flagsMatch (named_flags [''image'', ''script''] [''third-party''])
     (getResourceFlags (\<lambda>a b. a = b) \<lparr>resourceURL = ''b'', mainDocumentURL = ''a'', rli_type = Script\<rparr>) \<and>
   \<not> flagsMatch (named_flags [''image''] []) (getResourceFlags (\<lambda>a b. a = b) \<lparr>resourceURL = ''b'', mainDocumentURL = ''a'', rli_type = StyleSheet\<rparr>)"
  using named_flags_match [of "\<lparr>resourceURL = ''b'', mainDocumentURL = ''a'', rli_type = Script\<rparr>" "[''image'', ''script'']"
      "[''third-party'']" "\<lambda>a b. a = b"]
    named_flags_match [of "\<lparr>resourceURL = ''b'', mainDocumentURL = ''a'', rli_type = StyleSheet\<rparr>" "[''image'']" "[]" "\<lambda>a b. a = b"]
  by (auto simp: readResourceType_def readLoadType_def)

end
