(* ===== verification/BytecodeExecution.thy ===== *)
theory BytecodeExecution
  imports DFABytecodeInterpreter
begin

text \<open>
  Running compiled bytecode: every instruction that the compiler wrote is read back, the code of
  a node follows the transition of the current character, and the whole run collects the actions
  of the nodes that it passes.
\<close>

section \<open>Reading what the compiler wrote\<close>

lemma advance_id [simp]: "0 \<le> int pc + d \<Longrightarrow> int pc + d < 2 ^ 32 \<Longrightarrow> advance pc d = nat (int pc + d)"
  by (simp add: advance_def)

lemma advance_nat: "pc + n < 2 ^ 32 \<Longrightarrow> advance pc (int n) = pc + n"
  by (simp add: advance_def nat_add_distrib)

lemma getByte_at: "length pre = i \<Longrightarrow> getByte (pre @ b # post) i = Some b"
  by (auto simp: getByte_def)

lemma jump_byte_eq: "jump_byte ins s = [instruction_value ins OR jumpSize_value s]"
  by (simp add: jump_byte_def)

lemma instruction_jump_bits:
  "(instruction_value ins OR jumpSize_value s) AND DFABytecodeInstructionMask = instruction_value ins"
  "(instruction_value ins OR jumpSize_value s) AND DFABytecodeJumpSizeMask = jumpSize_value s"
  by (cases ins; cases s; simp add: DFABytecodeInstructionMask_def DFABytecodeJumpSizeMask_def)+

lemma instruction_value_bits: "instruction_value ins AND DFABytecodeInstructionMask = instruction_value ins"
  by (cases ins) (simp_all add: DFABytecodeInstructionMask_def)

lemma getInstruction_jump: "length pre = i \<Longrightarrow> getInstruction (pre @ jump_byte ins s @ post) i = Some (instruction_value ins)"
  by (simp add: getInstruction_def jump_byte_eq getByte_at instruction_jump_bits)

lemma getInstruction_plain:
  "length pre = i \<Longrightarrow> getInstruction (pre @ bytesOf 1 (uint (instruction_value ins)) @ post) i = Some (instruction_value ins)"
  by (simp add: getInstruction_def getByte_at instruction_value_bits)

lemma getJumpSize_jump: "length pre = i \<Longrightarrow> getJumpSize (pre @ jump_byte ins s @ post) i = Some s"
  by (cases s) (simp_all add: getJumpSize_def jump_byte_eq getByte_at instruction_jump_bits del: jumpSize_value.simps, simp_all)

lemma int24_join: "take_bit 16 v OR push_bit 16 (drop_bit 16 v) = v" for v :: int
proof (rule bit_eqI)
  show "bit (take_bit 16 v OR push_bit 16 (drop_bit 16 v)) n \<longleftrightarrow> bit v n" for n
    by (cases "n < 16") (simp_all add: bit_simps)
qed

lemma getJumpDistance_at:
  assumes loc: "length pre = i" and f: "fits s v" and i: "i + 4 < 2 ^ 32"
  shows "getJumpDistance (pre @ bytesOf (jumpSizeInBytes s) v @ post) i s = Some v"
proof (cases s)
  case Int24
  have b: "bytesOf (jumpSizeInBytes s) v = bytesOf 2 v @ bytesOf 1 (drop_bit 16 v)"
    using bytesOf_add [of 2 1 v] by (simp add: Int24 drop_bit_eq_div)
  have r: "- 128 \<le> drop_bit 16 v" "drop_bit 16 v < 128" using f by (auto simp: Int24 fits_def drop_bit_eq_div)
  have "getBits 2 (pre @ bytesOf 2 v @ (bytesOf 1 (drop_bit 16 v) @ post)) i = Some (bytesOf 2 v)"
    by (rule getBits_at [OF loc]) simp
  moreover have "getBits 1 ((pre @ bytesOf 2 v) @ bytesOf 1 (drop_bit 16 v) @ post) (i + 2) = Some (bytesOf 1 (drop_bit 16 v))"
    by (rule getBits_at) (simp_all add: loc)
  moreover have "signedOf (bytesOf 1 (drop_bit 16 v)) = drop_bit 16 v" using r by (intro signedOf_bytesOf) simp_all
  moreover have "unsignedOf (bytesOf 2 v) = take_bit 16 v" by (simp add: unsignedOf_bytesOf take_bit_eq_mod)
  moreover have "advance i 2 = i + 2" using i by (simp add: nat_add_distrib)
  ultimately show ?thesis unfolding b by (simp add: Int24 int24_join)
next
  case Int8
  have "getBits 1 (pre @ bytesOf 1 v @ post) i = Some (bytesOf 1 v)" by (rule getBits_at [OF loc]) simp
  with f signedOf_bytesOf [of 1 v] show ?thesis by (simp add: Int8 fits_def)
next
  case Int16
  have "getBits 2 (pre @ bytesOf 2 v @ post) i = Some (bytesOf 2 v)" by (rule getBits_at [OF loc]) simp
  with f signedOf_bytesOf [of 2 v] show ?thesis by (simp add: Int16 fits_def)
next
  case Int32
  have "getBits 4 (pre @ bytesOf 4 v @ post) i = Some (bytesOf 4 v)" by (rule getBits_at [OF loc]) simp
  with f signedOf_bytesOf [of 4 v] show ?thesis by (simp add: Int32 fits_def)
qed

section \<open>Actions\<close>

definition dom_ok :: "Actions option \<Rightarrow> bool" where
  "dom_ok dm = (case dm of None \<Rightarrow> True | Some D \<Rightarrow> ht_wf actionSetTraits D)"

definition domain_selects :: "Actions option \<Rightarrow> uint64 \<Rightarrow> bool" where
  "domain_selects dm a = (case dm of None \<Rightarrow> True | Some D \<Rightarrow> (a AND IfDomainFlag \<noteq> 0) = (a \<in> set (ht_values D)))"

definition has_flags :: "uint64 \<Rightarrow> bool" where
  "has_flags a \<longleftrightarrow> a AND ActionFlagMask \<noteq> 0"

definition selected :: "uint16 \<Rightarrow> Actions option \<Rightarrow> uint64 \<Rightarrow> bool" where
  "selected flags dm a \<longleftrightarrow> (has_flags a \<longrightarrow> flagsMatch (ucast (drop_bit 32 a)) flags) \<and> domain_selects dm a"

lemma addMatching_ok:
  assumes "dom_ok dm" "ht_wf actionSetTraits acts"
  shows "\<exists>acts'. addMatching a dm acts = Some acts' \<and> ht_wf actionSetTraits acts' \<and>
    set (ht_values acts') = set (ht_values acts) \<union> (if domain_selects dm a then {a} else {})"
proof -
  have m: "(case dm of None \<Rightarrow> Some True | Some D \<Rightarrow> matchesDomain a D) = Some (domain_selects dm a)"
    using assms(1) hs_contains_ok [OF hs_extract(2)]
    by (auto simp: dom_ok_def domain_selects_def matchesDomain_def split: option.splits)
  obtain s' where "hs_add actionSetTraits a acts = Some (s', a \<notin> set (ht_values acts))" "ht_wf actionSetTraits s'"
    "set (ht_values s') = insert a (set (ht_values acts))"
    using hs_add_ok [OF hs_traits_ok(2) hs_extract(2) assms(2)] by blast
  with m assms(2) show ?thesis by (simp add: addMatching_def)
qed

lemma bit_IfDomainFlag: "bit IfDomainFlag n \<longleftrightarrow> n = 48"
proof -
  have e: "IfDomainFlag = 2 ^ 48" by (simp add: IfDomainFlag_def)
  show ?thesis unfolding e bit_exp_iff by auto
qed

lemma bit_ActionFlagMask: "bit ActionFlagMask n \<longleftrightarrow> 32 \<le> n \<and> n < 48"
proof -
  have e: "ActionFlagMask = push_bit 32 (mask 16)" by (simp add: ActionFlagMask_def mask_eq_exp_minus_1)
  show ?thesis unfolding e by (auto simp: bit_simps)
qed

lemma word_nonzero: "a \<noteq> 0 \<longleftrightarrow> (\<exists>n. bit a n)" for a :: uint64
  by (metis bit_0_eq bit_eqI bot_apply bot_bool_def)

lemma IfDomainFlag_set: "a AND IfDomainFlag \<noteq> 0 \<longleftrightarrow> bit a 48"
  unfolding word_nonzero bit_and_iff bit_IfDomainFlag by blast

lemma has_flags_iff: "has_flags a \<longleftrightarrow> (\<exists>n. 32 \<le> n \<and> n < 48 \<and> bit a n)"
  unfolding has_flags_def word_nonzero bit_and_iff bit_ActionFlagMask by blast

lemma small_bit:
  fixes a :: uint64
  assumes "uint a < 2 ^ 49" "bit a n"
  shows "n < 49"
proof -
  have "take_bit 49 (uint a) = uint a" using assms(1) by (simp add: take_bit_int_eq_self)
  then have "bit (take_bit 49 (uint a)) n" using assms(2) bit_imp_le_length [OF assms(2)] by (simp add: bit_uint_iff)
  then show ?thesis by (simp add: bit_take_bit_iff)
qed

lemma word_bytes: "word_of_int (unsignedOf (bytesOf n (uint a))) = word_of_int (take_bit (8 * n) (uint a))"
  by (simp add: unsignedOf_bytesOf power_256 take_bit_eq_mod)

text \<open>The parts of an action that are stored give the action back.\<close>

lemma action_parts:
  assumes "uint a < 2 ^ 49"
  shows "(if a AND IfDomainFlag \<noteq> 0 then IfDomainFlag else 0) OR push_bit 32 (ucast (ucast (drop_bit 32 a) :: uint16))
      OR word_of_int (take_bit 32 (uint a)) = a" (is "?d OR ?f OR ?l = a")
proof (rule bit_eqI)
  fix n assume "possible_bit TYPE(64 word) n"
  then have n: "n < 64" by simp
  have d: "bit ?d n \<longleftrightarrow> n = 48 \<and> bit a n" by (auto simp: IfDomainFlag_set bit_IfDomainFlag)
  have f: "bit ?f n \<longleftrightarrow> 32 \<le> n \<and> n < 48 \<and> bit a n" using n by (auto simp: bit_simps)
  have l: "bit ?l n \<longleftrightarrow> n < 32 \<and> bit a n" using n by (auto simp: bit_simps)
  show "bit (?d OR ?f OR ?l) n \<longleftrightarrow> bit a n"
    using d f l small_bit [OF assms, of n] by (auto simp: bit_or_iff)
qed

lemma action_no_flags: "\<not> has_flags a \<Longrightarrow> push_bit 32 (ucast (ucast (drop_bit 32 a) :: uint16)) = (0 :: uint64)"
  by (rule bit_eqI) (auto simp: bit_simps has_flags_iff)

lemma interpretTestFlags_at:
  assumes bc: "bc = pre @ action_bytes a @ post" and pc: "length pre = pc" "length bc < 2 ^ 31"
    and a: "uint a < 2 ^ 49" "has_flags a" and ok: "dom_ok dm" "ht_wf actionSetTraits acts"
  shows "\<exists>acts'. interpretTestFlagsAndAppendAction bc dm pc flags acts (a AND IfDomainFlag \<noteq> 0) = Some (pc + 7, acts') \<and>
    ht_wf actionSetTraits acts' \<and> set (ht_values acts') = set (ht_values acts) \<union> (if selected flags dm a then {a} else {})"
proof -
  obtain ins where bytes: "action_bytes a = bytesOf 1 (uint (instruction_value ins)) @ bytesOf 2 (uint (drop_bit 32 a)) @ bytesOf 4 (uint a)"
    using a(2) by (auto simp: action_bytes_def has_flags_def)
  let ?f = "ucast (drop_bit 32 a) :: uint16"
  have pc': "pc + 7 \<le> length bc" using bc bytes pc by simp
  then have adv: "advance pc 1 = pc + 1" "advance pc 3 = pc + 3" "advance pc 7 = pc + 7" using pc(2) by simp_all
  have b1: "getBits 2 bc (pc + 1) = Some (bytesOf 2 (uint (drop_bit 32 a)))"
    using getBits_at [of "pre @ bytesOf 1 (uint (instruction_value ins))" "pc + 1" "bytesOf 2 (uint (drop_bit 32 a))" 2] pc(1)
    by (simp add: bc bytes)
  have b2: "getBits 4 bc (pc + 3) = Some (bytesOf 4 (uint a))"
    using getBits_at [of "pre @ bytesOf 1 (uint (instruction_value ins)) @ bytesOf 2 (uint (drop_bit 32 a))" "pc + 3" "bytesOf 4 (uint a)" 4] pc(1)
    by (simp add: bc bytes)
  have f: "(word_of_int (unsignedOf (bytesOf 2 (uint (drop_bit 32 a)))) :: uint16) = ?f"
    unfolding word_bytes by (rule bit_eqI) (simp add: bit_simps)
  have l: "word_of_int (unsignedOf (bytesOf 4 (uint a))) = (word_of_int (take_bit 32 (uint a)) :: uint64)"
    unfolding word_bytes by simp
  obtain acts' where add: "addMatching a dm acts = Some acts'" "ht_wf actionSetTraits acts'"
    "set (ht_values acts') = set (ht_values acts) \<union> (if domain_selects dm a then {a} else {})"
    using addMatching_ok [OF ok] by blast
  have s: "selected flags dm a \<longleftrightarrow> flagsMatch ?f flags \<and> domain_selects dm a" using a(2) by (simp add: selected_def)
  show ?thesis
    unfolding interpretTestFlagsAndAppendAction_def adv b1 b2 bind.bind_lunit Let_def f l action_parts [OF a(1)] s
    using add ok(2) by (cases "flagsMatch ?f flags") simp_all
qed

lemma interpretAppendAction_at:
  assumes bc: "bc = pre @ action_bytes a @ post" and pc: "length pre = pc" "length bc < 2 ^ 31"
    and a: "uint a < 2 ^ 49" "\<not> has_flags a" and ok: "dom_ok dm" "ht_wf actionSetTraits acts"
  shows "\<exists>acts'. interpretAppendAction bc dm pc acts (a AND IfDomainFlag \<noteq> 0) = Some (pc + 5, acts') \<and>
    ht_wf actionSetTraits acts' \<and> set (ht_values acts') = set (ht_values acts) \<union> (if selected flags dm a then {a} else {})"
proof -
  obtain ins where bytes: "action_bytes a = bytesOf 1 (uint (instruction_value ins)) @ bytesOf 4 (uint a)"
    using a(2) by (auto simp: action_bytes_def has_flags_def)
  have pc': "pc + 5 \<le> length bc" using bc bytes pc by simp
  then have adv: "advance pc 1 = pc + 1" "advance pc 5 = pc + 5" using pc(2) by simp_all
  have b: "getBits 4 bc (pc + 1) = Some (bytesOf 4 (uint a))"
    using getBits_at [of "pre @ bytesOf 1 (uint (instruction_value ins))" "pc + 1" "bytesOf 4 (uint a)" 4] pc(1)
    by (simp add: bc bytes)
  have l: "word_of_int (unsignedOf (bytesOf 4 (uint a))) = (word_of_int (take_bit 32 (uint a)) :: uint64)"
    unfolding word_bytes by simp
  have parts: "(if a AND IfDomainFlag \<noteq> 0 then IfDomainFlag else 0) OR word_of_int (take_bit 32 (uint a)) = a"
    using action_parts [OF a(1)] action_no_flags [OF a(2)] by simp
  obtain acts' where add: "addMatching a dm acts = Some acts'" "ht_wf actionSetTraits acts'"
    "set (ht_values acts') = set (ht_values acts) \<union> (if domain_selects dm a then {a} else {})"
    using addMatching_ok [OF ok] by blast
  have s: "selected flags dm a \<longleftrightarrow> domain_selects dm a" using a(2) by (simp add: selected_def)
  show ?thesis
    unfolding interpretAppendAction_def adv b bind.bind_lunit Let_def l parts s using add by simp
qed

lemma action_instruction:
  assumes "bc = pre @ action_bytes a @ post" "length pre = pc"
  shows "getInstruction bc pc = Some (instruction_value
    (if has_flags a then if a AND IfDomainFlag \<noteq> 0 then TestFlagsAndAppendActionWithIfDomain else TestFlagsAndAppendAction
     else if a AND IfDomainFlag \<noteq> 0 then AppendActionWithIfDomain else AppendAction))"
  using assms getInstruction_plain [OF assms(2)] unfolding action_bytes_def has_flags_def by (simp del: bytesOf.simps)

lemma interpretAction:
  assumes bc: "bc = pre @ action_bytes a @ post" and pc: "length pre = programCounter st" "length bc < 2 ^ 31"
    and a: "uint a < 2 ^ 49" and ok: "dom_ok dm" "ht_wf actionSetTraits (is_actions st)"
  shows "\<exists>acts'. interpretInstruction bc dm url flags st
      = Some (Some (st\<lparr>programCounter := programCounter st + appendActionBytecodeSize a, is_actions := acts'\<rparr>)) \<and>
    ht_wf actionSetTraits acts' \<and>
    set (ht_values acts') = set (ht_values (is_actions st)) \<union> (if selected flags dm a then {a} else {})"
proof (cases "has_flags a")
  case True
  from interpretTestFlags_at [OF bc pc a True ok, of flags] obtain acts' where
    i: "interpretTestFlagsAndAppendAction bc dm (programCounter st) flags (is_actions st) (a AND IfDomainFlag \<noteq> 0) = Some (programCounter st + 7, acts')"
    "ht_wf actionSetTraits acts'" "set (ht_values acts') = set (ht_values (is_actions st)) \<union> (if selected flags dm a then {a} else {})"
    by blast
  have "appendActionBytecodeSize a = 7" using True by (simp add: appendActionBytecodeSize_def has_flags_def)
  then have "interpretInstruction bc dm url flags st
      = Some (Some (st\<lparr>programCounter := programCounter st + appendActionBytecodeSize a, is_actions := acts'\<rparr>))"
    unfolding interpretInstruction_def Let_def action_instruction [OF bc pc(1)] bind.bind_lunit
    using i(1) True by (cases "a AND IfDomainFlag \<noteq> 0") (simp_all add: withActions_def)
  with i(2,3) show ?thesis by blast
next
  case False
  from interpretAppendAction_at [OF bc pc a False ok, of flags] obtain acts' where
    i: "interpretAppendAction bc dm (programCounter st) (is_actions st) (a AND IfDomainFlag \<noteq> 0) = Some (programCounter st + 5, acts')"
    "ht_wf actionSetTraits acts'" "set (ht_values acts') = set (ht_values (is_actions st)) \<union> (if selected flags dm a then {a} else {})"
    by blast
  have "appendActionBytecodeSize a = 5" using False by (simp add: appendActionBytecodeSize_def has_flags_def)
  then have "interpretInstruction bc dm url flags st
      = Some (Some (st\<lparr>programCounter := programCounter st + appendActionBytecodeSize a, is_actions := acts'\<rparr>))"
    unfolding interpretInstruction_def Let_def action_instruction [OF bc pc(1)] bind.bind_lunit
    using i(1) False by (cases "a AND IfDomainFlag \<noteq> 0") (simp_all add: withActions_def)
  with i(2,3) show ?thesis by blast
qed

section \<open>Checks and jumps\<close>

fun ins_match :: "'s Ins \<Rightarrow> nat \<Rightarrow> nat option" where
  "ins_match (ICheckValue cs v d s) c = (if (if cs then c else toASCIILower c) = v then Some d else None)"
| "ins_match (ICheckRange cs lo hi d s) c =
     (let c' = if cs then c else toASCIILower c in if lo \<le> c' \<and> c' \<le> hi then Some d else None)"
| "ins_match (ITable cs lo hi ds s) c =
     (let c' = if cs then c else toASCIILower c in if lo \<le> c' \<and> c' \<le> hi then Some (ds ! (c' - lo)) else None)"
| "ins_match _ c = None"

fun is_check :: "'s Ins \<Rightarrow> bool" where
  "is_check (ICheckValue cs v d s) \<longleftrightarrow> v < 128"
| "is_check (ICheckRange cs lo hi d s) \<longleftrightarrow> lo < 128 \<and> hi < 128"
| "is_check (ITable cs lo hi ds s) \<longleftrightarrow> lo \<le> hi \<and> hi < 128 \<and> length ds = hi - lo + 1"
| "is_check _ \<longleftrightarrow> False"

definition jumped :: "nat list \<Rightarrow> nat \<Rightarrow> nat \<Rightarrow> InterpreterState \<Rightarrow> InterpreterState" where
  "jumped S d c st = st\<lparr>programCounter := S ! d, urlIndex := urlIndex st + 1, urlIndexIsAfterEndOfString := (c = 0)\<rparr>"

definition after_check :: "nat list \<Rightarrow> SizedIns \<Rightarrow> nat \<Rightarrow> InterpreterState \<Rightarrow> InterpreterState" where
  "after_check S i c st =
     (case ins_match i c of Some d \<Rightarrow> jumped S d c st | None \<Rightarrow> st\<lparr>programCounter := programCounter st + ins_len i\<rparr>)"

lemma toASCIILowerChar_int: "toASCIILowerChar (int c) = int (toASCIILower c)"
  by (simp add: toASCIILowerChar_def toASCIILower_def)

lemma toASCIILower_0: "toASCIILower c = 0 \<longleftrightarrow> c = 0"
  by (simp add: toASCIILower_def)

lemma readCharacter_at:
  "urlAt url (urlIndex st) = Some (int c) \<Longrightarrow> readCharacter cs url st = Some (int (if cs then c else toASCIILower c))"
  by (simp add: readCharacter_def toASCIILowerChar_int)

lemma takeJump_linked:
  assumes "jump_ok S (s, programCounter st, loc, d)" "\<not> urlIndexIsAfterEndOfString st"
  shows "takeJump (linked S (programCounter st) d) (int (if cs then c else toASCIILower c)) st = jumped S d c st"
  using assms by (simp add: takeJump_def linked_def jump_ok_def jumped_def toASCIILower_0)

lemma byte_value: "v < 128 \<Longrightarrow> uint (word_of_nat v :: byte) = int v"
  by (simp add: unsigned_of_nat take_bit_nat_eq_self)

lemma interpretCheckValue_at:
  assumes bc: "bc = pre @ ins_bytes (linked S (programCounter st)) (ICheckValue cs v d s) @ post"
    and pc: "length pre = programCounter st" "length bc < 2 ^ 31" and v: "v < 128"
    and ok: "jump_ok S (s, programCounter st, programCounter st + 2, d)" and st: "\<not> urlIndexIsAfterEndOfString st" "urlAt url (urlIndex st) = Some (int c)"
  shows "interpretCheckValue bc url cs st = Some (after_check S (ICheckValue cs v d s) c st)"
proof -
  let ?pc = "programCounter st"
  obtain ins where bytes: "bc = pre @ jump_byte ins s @ word_of_nat v # bytesOf (jumpSizeInBytes s) (linked S ?pc d) @ post"
    using bc by auto
  have le: "?pc + 2 + jumpSizeInBytes s \<le> length bc" using bytes pc(1) by (simp add: jump_byte_eq)
  have adv: "advance ?pc 1 = ?pc + 1" "advance ?pc 2 = ?pc + 2" "advance ?pc (2 + int (jumpSizeInBytes s)) = ?pc + 2 + jumpSizeInBytes s"
    using le pc(2) by simp_all
  have sz: "getJumpSize bc ?pc = Some s" unfolding bytes by (rule getJumpSize_jump [OF pc(1)])
  have b1: "getByte bc (?pc + 1) = Some (word_of_nat v)"
    using getByte_at [of "pre @ jump_byte ins s" "?pc + 1"] pc(1) by (simp add: bytes jump_byte_eq)
  have j: "getJumpDistance bc (?pc + 2) s = Some (linked S ?pc d)"
    using getJumpDistance_at [of "pre @ jump_byte ins s @ [word_of_nat v]" "?pc + 2" s "linked S ?pc d" post] pc le ok
    by (simp add: bytes jump_byte_eq jump_ok_def linked_def)
  show ?thesis
    unfolding interpretCheckValue_def Let_def adv readCharacter_at [OF st(2)] sz b1 j bind.bind_lunit byte_value [OF v]
      takeJump_linked [OF ok st(1)] by (simp add: after_check_def)
qed

lemma interpretCheckValueRange_at:
  assumes bc: "bc = pre @ ins_bytes (linked S (programCounter st)) (ICheckRange cs lo hi d s) @ post"
    and pc: "length pre = programCounter st" "length bc < 2 ^ 31" and v: "lo < 128" "hi < 128"
    and ok: "jump_ok S (s, programCounter st, programCounter st + 3, d)" and st: "\<not> urlIndexIsAfterEndOfString st" "urlAt url (urlIndex st) = Some (int c)"
  shows "interpretCheckValueRange bc url cs st = Some (after_check S (ICheckRange cs lo hi d s) c st)"
proof -
  let ?pc = "programCounter st"
  obtain ins where bytes: "bc = pre @ jump_byte ins s @ word_of_nat lo # word_of_nat hi
      # bytesOf (jumpSizeInBytes s) (linked S ?pc d) @ post"
    using bc by auto
  have le: "?pc + 3 + jumpSizeInBytes s \<le> length bc" using bytes pc(1) by (simp add: jump_byte_eq)
  have adv: "advance ?pc 1 = ?pc + 1" "advance ?pc 2 = ?pc + 2" "advance ?pc 3 = ?pc + 3"
    "advance ?pc (3 + int (jumpSizeInBytes s)) = ?pc + 3 + jumpSizeInBytes s"
    using le pc(2) by simp_all
  have sz: "getJumpSize bc ?pc = Some s" unfolding bytes by (rule getJumpSize_jump [OF pc(1)])
  have b1: "getByte bc (?pc + 1) = Some (word_of_nat lo)"
    using getByte_at [of "pre @ jump_byte ins s" "?pc + 1"] pc(1) by (simp add: bytes jump_byte_eq)
  have b2: "getByte bc (?pc + 2) = Some (word_of_nat hi)"
    using getByte_at [of "pre @ jump_byte ins s @ [word_of_nat lo]" "?pc + 2"] pc(1) by (simp add: bytes jump_byte_eq)
  have j: "getJumpDistance bc (?pc + 3) s = Some (linked S ?pc d)"
    using getJumpDistance_at [of "pre @ jump_byte ins s @ [word_of_nat lo, word_of_nat hi]" "?pc + 3" s "linked S ?pc d" post] pc le ok
    by (simp add: bytes jump_byte_eq jump_ok_def linked_def)
  show ?thesis
    unfolding interpretCheckValueRange_def Let_def adv readCharacter_at [OF st(2)] sz b1 b2 j bind.bind_lunit byte_value [OF v(1)]
      byte_value [OF v(2)] takeJump_linked [OF ok st(1)] by (simp add: after_check_def Let_def)
qed

lemma table_jumps_mem: "d \<in> set ds \<Longrightarrow> \<exists>loc. (s, pc, loc, d) \<in> set (table_jumps pc l s ds)"
  by (induction ds arbitrary: l) auto

lemma concat_nth_split:
  assumes "k < length ds" "\<And>d. length (f d) = n"
  shows "\<exists>pre post. concat (map f ds) = pre @ f (ds ! k) @ post \<and> length pre = k * n"
proof (intro exI conjI)
  show "concat (map f ds) = concat (map f (take k ds)) @ f (ds ! k) @ concat (map f (drop (Suc k) ds))"
    using assms(1) by (subst id_take_nth_drop [OF assms(1)]) simp
  show "length (concat (map f (take k ds))) = k * n"
    using assms by (simp add: length_concat o_def sum_list_triv)
qed

lemma interpetJumpTable_at:
  assumes bc: "bc = pre @ ins_bytes (linked S (programCounter st)) (ITable cs lo hi ds s) @ post"
    and pc: "length pre = programCounter st" "length bc < 2 ^ 31" and v: "lo \<le> hi" "hi < 128" "length ds = hi - lo + 1"
    and ok: "\<forall>jp \<in> set (table_jumps (programCounter st) (programCounter st + 3) s ds). jump_ok S jp"
    and st: "\<not> urlIndexIsAfterEndOfString st" "urlAt url (urlIndex st) = Some (int c)"
  shows "interpetJumpTable bc url cs st = Some (after_check S (ITable cs lo hi ds s) c st)"
proof -
  let ?pc = "programCounter st" and ?n = "jumpSizeInBytes s"
  define c' where "c' = (if cs then c else toASCIILower c)"
  let ?tab = "concat (map (\<lambda>d. bytesOf ?n (linked S ?pc d)) ds)"
  obtain ins where bytes: "bc = pre @ jump_byte ins s @ word_of_nat lo # word_of_nat hi # ?tab @ post" using bc by auto
  have len: "length ?tab = length ds * ?n" by (simp add: length_concat o_def sum_list_triv)
  have le: "?pc + 3 + length ds * ?n \<le> length bc" using bytes pc(1) len by (simp add: jump_byte_eq)
  have adv: "advance ?pc 1 = ?pc + 1" "advance ?pc 2 = ?pc + 2" "advance ?pc 3 = ?pc + 3"
    using le pc(2) by simp_all
  have skip: "advance ?pc (3 + int ?n * (int hi - int lo + 1)) = ?pc + (3 + length ds * ?n)"
  proof -
    have "int hi - int lo + 1 = int (length ds)" using v by simp
    then have e: "3 + int ?n * (int hi - int lo + 1) = int (3 + length ds * ?n)" by simp
    show ?thesis unfolding e by (rule advance_nat) (use le pc(2) in simp)
  qed
  have sz: "getJumpSize bc ?pc = Some s" unfolding bytes by (rule getJumpSize_jump [OF pc(1)])
  have b1: "getByte bc (?pc + 1) = Some (word_of_nat lo)"
    using getByte_at [of "pre @ jump_byte ins s" "?pc + 1"] pc(1) by (simp add: bytes jump_byte_eq)
  have b2: "getByte bc (?pc + 2) = Some (word_of_nat hi)"
    using getByte_at [of "pre @ jump_byte ins s @ [word_of_nat lo]" "?pc + 2"] pc(1) by (simp add: bytes jump_byte_eq)
  have u: "uint (word_of_nat lo :: byte) = int lo" "uint (word_of_nat hi :: byte) = int hi" using v by (simp_all add: byte_value)
  have j: "getJumpDistance bc (advance (?pc + 3) ((int c' - int lo) * int ?n)) s = Some (linked S ?pc (ds ! (c' - lo)))"
    "jump_ok S (s, ?pc, loc, ds ! (c' - lo))" if m: "lo \<le> c'" "c' \<le> hi" for loc
  proof -
    let ?k = "c' - lo"
    have k: "?k < length ds" using m v by simp
    obtain p q where sp: "?tab = p @ bytesOf ?n (linked S ?pc (ds ! ?k)) @ q" "length p = ?k * ?n"
      using concat_nth_split [OF k, of "\<lambda>d. bytesOf ?n (linked S ?pc d)" ?n] by auto
    have le': "?pc + 3 + ?k * ?n + ?n \<le> length bc" using bytes pc(1) sp by (simp add: jump_byte_eq)
    have e: "(int c' - int lo) * int ?n = int (?k * ?n)" using m by (simp add: of_nat_diff)
    have loc: "advance (?pc + 3) ((int c' - int lo) * int ?n) = ?pc + 3 + ?k * ?n"
      unfolding e by (rule advance_nat) (use le' pc(2) in simp)
    obtain l where "(s, ?pc, l, ds ! ?k) \<in> set (table_jumps ?pc (?pc + 3) s ds)" using table_jumps_mem [of "ds ! ?k" ds s ?pc "?pc + 3"] k by auto
    then have jok: "jump_ok S (s, ?pc, l, ds ! ?k)" using ok by blast
    then show "jump_ok S (s, ?pc, loc, ds ! ?k)" by (simp add: jump_ok_def)
    show "getJumpDistance bc (advance (?pc + 3) ((int c' - int lo) * int ?n)) s = Some (linked S ?pc (ds ! ?k))"
      using getJumpDistance_at [of "pre @ jump_byte ins s @ word_of_nat lo # word_of_nat hi # p" "?pc + 3 + ?k * ?n" s
          "linked S ?pc (ds ! ?k)" "q @ post"] pc le' jok [unfolded jump_ok_def] sp(2)
      unfolding loc bytes sp(1) linked_def [symmetric] by (simp add: jump_byte_eq)
  qed
  show ?thesis
  proof (cases "lo \<le> c' \<and> c' \<le> hi")
    case True
    then have t: "takeJump (linked S ?pc (ds ! (c' - lo))) (int c') st = jumped S (ds ! (c' - lo)) c st"
      unfolding c'_def using j(2) [of 0] by (intro takeJump_linked [OF _ st(1)]) (simp add: c'_def)
    show ?thesis
      unfolding interpetJumpTable_def Let_def adv readCharacter_at [OF st(2)] sz b1 b2 bind.bind_lunit u c'_def [symmetric]
      using True j(1) t by (simp add: after_check_def Let_def c'_def [symmetric])
  next
    case False
    then show ?thesis
      unfolding interpetJumpTable_def Let_def adv readCharacter_at [OF st(2)] sz b1 b2 bind.bind_lunit u c'_def [symmetric] skip
      by (auto simp: after_check_def Let_def c'_def [symmetric])
  qed
qed

lemma interpretCheck:
  assumes bc: "bc = pre @ ins_bytes (linked S (programCounter st)) i @ post"
    and pc: "length pre = programCounter st" "length bc < 2 ^ 31" and i: "is_check i"
    and ok: "\<forall>jp \<in> set (ins_jumps (programCounter st) i). jump_ok S jp"
    and st: "\<not> urlIndexIsAfterEndOfString st" "urlAt url (urlIndex st) = Some (int c)"
  shows "interpretInstruction bc dm url flags st = Some (Some (after_check S i c st))"
proof (cases i)
  case (ICheckValue cs v d s)
  obtain rest where "bc = pre @ jump_byte (if cs then CheckValueCaseSensitive else CheckValueCaseInsensitive) s @ rest"
    using bc by (auto simp: ICheckValue)
  with getInstruction_jump [OF pc(1)] have "getInstruction bc (programCounter st)
      = Some (instruction_value (if cs then CheckValueCaseSensitive else CheckValueCaseInsensitive))" by simp
  moreover have "interpretCheckValue bc url cs st = Some (after_check S i c st)"
    unfolding ICheckValue by (rule interpretCheckValue_at [OF bc [unfolded ICheckValue] pc]) (use i ok st in \<open>simp_all add: ICheckValue\<close>)
  ultimately show ?thesis using st(1) by (cases cs) (simp_all add: interpretInstruction_def unlessAfterEnd_def Let_def)
next
  case (ICheckRange cs lo hi d s)
  obtain rest where "bc = pre @ jump_byte (if cs then CheckValueRangeCaseSensitive else CheckValueRangeCaseInsensitive) s @ rest"
    using bc by (auto simp: ICheckRange)
  with getInstruction_jump [OF pc(1)] have "getInstruction bc (programCounter st)
      = Some (instruction_value (if cs then CheckValueRangeCaseSensitive else CheckValueRangeCaseInsensitive))" by simp
  moreover have "interpretCheckValueRange bc url cs st = Some (after_check S i c st)"
    unfolding ICheckRange by (rule interpretCheckValueRange_at [OF bc [unfolded ICheckRange] pc]) (use i ok st in \<open>simp_all add: ICheckRange\<close>)
  ultimately show ?thesis using st(1) by (cases cs) (simp_all add: interpretInstruction_def unlessAfterEnd_def Let_def)
next
  case (ITable cs lo hi ds s)
  obtain rest where "bc = pre @ jump_byte (if cs then JumpTableCaseSensitive else JumpTableCaseInsensitive) s @ rest"
    using bc by (auto simp: ITable)
  with getInstruction_jump [OF pc(1)] have "getInstruction bc (programCounter st)
      = Some (instruction_value (if cs then JumpTableCaseSensitive else JumpTableCaseInsensitive))" by simp
  moreover have "interpetJumpTable bc url cs st = Some (after_check S i c st)"
    unfolding ITable by (rule interpetJumpTable_at [OF bc [unfolded ITable] pc]) (use i ok st in \<open>simp_all add: ITable\<close>)
  ultimately show ?thesis using st(1) by (cases cs) (simp_all add: interpretInstruction_def unlessAfterEnd_def Let_def)
qed (use i in simp_all)

section \<open>Running the code of a node\<close>

lemma run_step:
  "interpretInstruction bc dm url flags st = Some (Some st') \<Longrightarrow> interpretInstructions bc dm url flags st = interpretInstructions bc dm url flags st'"
  by (subst interpretInstructions.simps) simp

lemma run_stop: "interpretInstruction bc dm url flags st = Some None \<Longrightarrow> interpretInstructions bc dm url flags st = Some (is_actions st)"
  by (subst interpretInstructions.simps) simp

fun first_match :: "'s Ins list \<Rightarrow> nat \<Rightarrow> nat option" where
  "first_match [] c = None"
| "first_match (i # is) c = (case ins_match i c of Some d \<Rightarrow> Some d | None \<Rightarrow> first_match is c)"

lemma ins_match_shape [simp]: "ins_match (shape i) c = ins_match i c"
  by (cases i) simp_all

lemma is_check_shape [simp]: "is_check (shape i) = is_check i"
  by (cases i) simp_all

lemma first_match_shape: "first_match (map shape is) c = first_match is c"
  by (induction "is") (simp_all split: option.splits)

lemma run_checks:
  assumes "bc = pre @ code (linked S) (programCounter st) cs @ post" "length pre = programCounter st" "length bc < 2 ^ 31"
    "\<forall>i \<in> set cs. is_check i" "\<forall>jp \<in> set (jumps (programCounter st) cs). jump_ok S jp"
    "\<not> urlIndexIsAfterEndOfString st" "urlAt url (urlIndex st) = Some (int c)"
  shows "interpretInstructions bc dm url flags st =
    (case first_match cs c of Some d \<Rightarrow> interpretInstructions bc dm url flags (jumped S d c st)
     | None \<Rightarrow> interpretInstructions bc dm url flags (st\<lparr>programCounter := programCounter st + code_len cs\<rparr>))"
  using assms
proof (induction cs arbitrary: st pre)
  case (Cons i cs)
  let ?pc = "programCounter st"
  have "interpretInstruction bc dm url flags st = Some (Some (after_check S i c st))"
    using Cons.prems by (intro interpretCheck [of bc pre S st i "code (linked S) (?pc + ins_len i) cs @ post"]) simp_all
  note step = run_step [OF this]
  show ?case
  proof (cases "ins_match i c")
    case None
    let ?st = "st\<lparr>programCounter := ?pc + ins_len i\<rparr>"
    have "interpretInstructions bc dm url flags ?st =
        (case first_match cs c of Some d \<Rightarrow> interpretInstructions bc dm url flags (jumped S d c ?st)
         | None \<Rightarrow> interpretInstructions bc dm url flags (?st\<lparr>programCounter := programCounter ?st + code_len cs\<rparr>))"
      using Cons.prems by (intro Cons.IH [of "pre @ ins_bytes (linked S ?pc) i"]) simp_all
    then show ?thesis unfolding step using None
      by (simp add: after_check_def jumped_def add.assoc split: option.splits)
  qed (simp add: step after_check_def)
qed simp

text \<open>A node follows its transitions, except that a fallback jump does not take the end of the
  string.\<close>

definition bc_step :: "DFA \<Rightarrow> nat \<Rightarrow> charval \<Rightarrow> nat option" where
  "bc_step dfa j c =
     (case dfa_step dfa j c of None \<Rightarrow> None
      | Some t \<Rightarrow> if c = 0 \<and> canUseFallbackTransition dfa (dfa_nodes dfa ! j) \<and>
                   bestFallbackTarget dfa (dfa_nodes dfa ! j) = Some t then None else Some t)"

lemma nodeTransitions_fallback:
  assumes "nodeTransitions dfa node = Some ts"
  shows "useFallbackTransition ts \<longleftrightarrow> canUseFallbackTransition dfa node"
    "useFallbackTransition ts \<Longrightarrow> bestFallbackTarget dfa node = Some (fallbackTransitionTarget ts)"
  using assms by (auto simp: nodeTransitions_def Let_def split: bind_splits prod.splits if_splits)

lemma first_match_None: "first_match is c = None \<longleftrightarrow> (\<forall>i \<in> set is. ins_match i c = None)"
  by (induction "is") (auto split: option.splits)

lemma first_match_Some: "first_match is c = Some d \<Longrightarrow> \<exists>i \<in> set is. ins_match i c = Some d"
  by (induction "is") (auto split: option.splits)

lemma checks_match_ins:
  "checks_match jts rs c d \<longleftrightarrow> (\<exists>i \<in> set (map table_shape jts @ map range_shape rs). ins_match i c = Some d)"
proof -
  have "jt_matches jt c d \<longleftrightarrow> ins_match (table_shape jt) c = Some d" for jt
    by (auto simp: jt_matches_def table_shape_def Let_def)
  moreover have "r_matches r c \<and> r_destination r = d \<longleftrightarrow> ins_match (range_shape r) c = Some d" for r
    by (auto simp: r_matches_def range_shape_def Let_def)
  ultimately show ?thesis by (auto simp: checks_match_def)
qed

lemma first_match_transitions:
  assumes ok: "transitions_ok dfa node ts" and c: "c < 128"
  shows "first_match (map table_shape (t_jumpTables ts) @ map range_shape (t_ranges ts)) c =
    (case range_at (dfa_transitions dfa node) (int c) of None \<Rightarrow> None
     | Some d \<Rightarrow> if useFallbackTransition ts \<and> d = fallbackTransitionTarget ts then None else Some d)"
    (is "first_match ?is c = ?r")
proof -
  have m: "(\<exists>i \<in> set ?is. ins_match i c = Some d) \<longleftrightarrow> ?r = Some d" for d
    using ok c unfolding transitions_ok_def checks_match_ins [symmetric] by (auto split: option.splits)
  show ?thesis
  proof (cases "first_match ?is c")
    case None
    then have "\<not> (\<exists>i \<in> set ?is. ins_match i c = Some d)" for d unfolding first_match_None by auto
    then have "?r \<noteq> Some d" for d using m by blast
    with None show ?thesis by (metis option.exhaust)
  next
    case (Some d)
    have "?r = Some d" using first_match_Some [OF Some] m [of d] by blast
    with Some show ?thesis by (simp only:)
  qed
qed

lemma checks_are_checks:
  "transitions_ok dfa node ts \<Longrightarrow> i \<in> set (map table_shape (t_jumpTables ts) @ map range_shape (t_ranges ts)) \<Longrightarrow> is_check i"
  by (auto simp: transitions_ok_def table_shape_def range_shape_def table_wf_def range_wf_def)

lemma interpretJump_at:
  assumes bc: "bc = pre @ ins_bytes (linked S (programCounter st)) (IJump d s) @ post"
    and pc: "length pre = programCounter st" "length bc < 2 ^ 31"
    and ok: "jump_ok S (s, programCounter st, programCounter st + 1, d)"
    and st: "\<not> urlIndexIsAfterEndOfString st" "urlAt url (urlIndex st) = Some (int c)"
  shows "interpretInstruction bc dm url flags st = (if c = 0 then Some None else Some (Some (jumped S d c st)))"
proof -
  let ?pc = "programCounter st"
  have bytes: "bc = pre @ jump_byte Jump s @ bytesOf (jumpSizeInBytes s) (linked S ?pc d) @ post" using bc by simp
  have le: "?pc + 1 + jumpSizeInBytes s \<le> length bc" using bytes pc(1) by (simp add: jump_byte_eq)
  have ins: "getInstruction bc ?pc = Some (instruction_value Jump)" and sz: "getJumpSize bc ?pc = Some s"
    unfolding bytes by (rule getInstruction_jump [OF pc(1)], rule getJumpSize_jump [OF pc(1)])
  have adv: "advance ?pc 1 = ?pc + 1" using le pc(2) by simp
  have j: "getJumpDistance bc (?pc + 1) s = Some (linked S ?pc d)"
    using getJumpDistance_at [of "pre @ jump_byte Jump s" "?pc + 1" s "linked S ?pc d" post] pc le ok
    by (simp add: bytes jump_byte_eq jump_ok_def linked_def)
  have "advance ?pc (linked S ?pc d) = S ! d" using ok by (simp add: linked_def jump_ok_def)
  then have "interpretJump bc st = Some (st\<lparr>programCounter := S ! d, urlIndex := urlIndex st + 1\<rparr>)"
    unfolding interpretJump_def Let_def adv sz j bind.bind_lunit by simp
  moreover have "st\<lparr>programCounter := S ! d, urlIndex := urlIndex st + 1\<rparr> = jumped S d c st" if "c \<noteq> 0"
    using st(1) that by (simp add: jumped_def)
  ultimately show ?thesis
    unfolding interpretInstruction_def Let_def ins bind.bind_lunit using st by simp
qed

lemma terminate_at:
  assumes "bc = pre @ ins_bytes J ITerminate @ post" "length pre = programCounter st"
  shows "interpretInstruction bc dm url flags st = Some None"
  using getInstruction_plain [OF assms(2), of Terminate post] assms(1)
  by (simp add: interpretInstruction_def Let_def del: bytesOf.simps)

lemma shape_cases:
  "shape i = IJump d () \<longleftrightarrow> (\<exists>s. i = IJump d s)" "shape i = ITerminate \<longleftrightarrow> i = ITerminate" "shape i = IAction a \<longleftrightarrow> i = IAction a"
  by (cases i; simp)+

lemma map_eq_appendD: "map f zs = xs @ ys \<Longrightarrow> \<exists>us vs. zs = us @ vs \<and> map f us = xs \<and> map f vs = ys"
  unfolding map_eq_append_conv by metis

lemma run_transitions:
  assumes bc: "bc = pre @ code (linked S) (programCounter st) is @ post" and pc: "length pre = programCounter st" "length bc < 2 ^ 31"
    and ts: "nodeTransitions dfa (dfa_nodes dfa ! j) = Some ts" "transitions_ok dfa (dfa_nodes dfa ! j) ts" "map shape is = transitions_shape ts"
    and ok: "\<forall>jp \<in> set (jumps (programCounter st) is). jump_ok S jp"
    and st: "\<not> urlIndexIsAfterEndOfString st" "urlAt url (urlIndex st) = Some (int c)" and c: "c < 128"
  shows "interpretInstructions bc dm url flags st =
    (case bc_step dfa j (int c) of Some t \<Rightarrow> interpretInstructions bc dm url flags (jumped S t c st) | None \<Rightarrow> Some (is_actions st))"
proof -
  let ?cs = "map table_shape (t_jumpTables ts) @ map range_shape (t_ranges ts)" and ?trs = "dfa_transitions dfa (dfa_nodes dfa ! j)"
  obtain cs i where sp: "is = cs @ [i]" "map shape cs = ?cs" "shape i = last_shape ts"
  proof -
    have "map shape is = ?cs @ [last_shape ts]" using ts(3) by (simp add: transitions_shape_def)
    from map_eq_appendD [OF this] obtain us vs where "is = us @ vs" "map shape us = ?cs" "map shape vs = [last_shape ts]"
      by (elim exE conjE)
    moreover from this(3) obtain i where "vs = [i]" "shape i = last_shape ts" by auto
    ultimately show ?thesis using that [of us i] by (simp only:)
  qed
  let ?pc = "programCounter st" and ?st = "st\<lparr>programCounter := programCounter st + code_len cs\<rparr>"
  have checks: "\<forall>i \<in> set cs. is_check i"
  proof
    fix k assume "k \<in> set cs"
    then have "shape k \<in> set ?cs" unfolding sp(2) [symmetric] by simp
    then have "is_check (shape k)" by (rule checks_are_checks [OF ts(2)])
    then show "is_check k" by simp
  qed
  have run: "interpretInstructions bc dm url flags st =
      (case first_match cs c of Some d \<Rightarrow> interpretInstructions bc dm url flags (jumped S d c st)
       | None \<Rightarrow> interpretInstructions bc dm url flags ?st)"
    using bc pc checks ok st by (intro run_checks [of bc pre S st cs "code (linked S) (?pc + code_len cs) [i] @ post"]) (simp_all add: sp(1))
  have m: "first_match cs c = (case range_at ?trs (int c) of None \<Rightarrow> None
      | Some d \<Rightarrow> if useFallbackTransition ts \<and> d = fallbackTransitionTarget ts then None else Some d)"
    using first_match_transitions [OF ts(2) c] unfolding sp(2) [symmetric] first_match_shape .
  have lastb: "bc = (pre @ code (linked S) ?pc cs) @ ins_bytes (linked S (programCounter ?st)) i @ post"
    "length (pre @ code (linked S) ?pc cs) = programCounter ?st"
    using bc pc by (simp_all add: sp(1))
  note fb = nodeTransitions_fallback [OF ts(1)]
  show ?thesis
  proof (cases "useFallbackTransition ts")
    case False
    then have "i = ITerminate" using sp(3) by (simp add: last_shape_def shape_cases)
    with run_stop [OF terminate_at [OF _ lastb(2)]] lastb(1)
    have "interpretInstructions bc dm url flags ?st = Some (is_actions st)" by simp
    moreover have "bc_step dfa j (int c) = range_at ?trs (int c)"
      using False fb(1) by (auto simp: bc_step_def dfa_step_def split: option.splits)
    ultimately show ?thesis unfolding run m using False by (simp split: option.splits)
  next
    case True
    let ?fb = "fallbackTransitionTarget ts"
    obtain s where i: "i = IJump ?fb s" using True sp(3) by (auto simp: last_shape_def shape_cases)
    have jok: "jump_ok S (s, programCounter ?st, programCounter ?st + 1, ?fb)" using ok by (simp add: sp(1) i)
    have lastr: "interpretInstruction bc dm url flags ?st = (if c = 0 then Some None else Some (Some (jumped S ?fb c ?st)))"
      using st pc(2) by (intro interpretJump_at [OF lastb(1) [unfolded i] lastb(2) _ jok]) simp_all
    have j: "jumped S ?fb c ?st = jumped S ?fb c st" by (simp add: jumped_def)
    have step: "bc_step dfa j (int c) = (case range_at ?trs (int c) of None \<Rightarrow> None
        | Some t \<Rightarrow> if c = 0 \<and> t = ?fb then None else Some t)"
      using True fb by (auto simp: bc_step_def dfa_step_def split: option.splits)
    have some: "range_at ?trs (int c) \<noteq> None" if "c \<noteq> 0"
      using ts(2) True c that unfolding transitions_ok_def by auto
    show ?thesis
    proof (cases "c = 0")
      case True
      with run_stop [of bc dm url flags ?st] lastr have "interpretInstructions bc dm url flags ?st = Some (is_actions st)" by simp
      then show ?thesis unfolding run m step using True \<open>useFallbackTransition ts\<close> by (simp split: option.splits)
    next
      case False
      with run_step [of bc dm url flags ?st] lastr
      have "interpretInstructions bc dm url flags ?st = interpretInstructions bc dm url flags (jumped S ?fb c st)" by (simp add: j)
      then show ?thesis unfolding run m step using False some \<open>useFallbackTransition ts\<close> by (auto split: option.splits)
    qed
  qed
qed

section \<open>Runs over the URL\<close>

lemma length_action_bytes [simp]: "length (action_bytes a) = appendActionBytecodeSize a"
  using length_ins_bytes [of J "IAction a"] by simp

lemma run_actions:
  assumes "bc = pre @ code J (programCounter st) is @ post" "length pre = programCounter st" "length bc < 2 ^ 31"
    "map shape is = map IAction as" "\<forall>a \<in> set as. uint a < 2 ^ 49" "dom_ok dm" "ht_wf actionSetTraits (is_actions st)"
  shows "\<exists>acts. interpretInstructions bc dm url flags st
      = interpretInstructions bc dm url flags (st\<lparr>programCounter := programCounter st + code_len is, is_actions := acts\<rparr>) \<and>
    ht_wf actionSetTraits acts \<and> set (ht_values acts) = set (ht_values (is_actions st)) \<union> {a \<in> set as. selected flags dm a}"
  using assms
proof (induction "is" arbitrary: st pre as)
  case (Cons i "is")
  then obtain a as' where as: "as = a # as'" "shape i = IAction a" "map shape is = map IAction as'" by (cases as) auto
  then have i: "i = IAction a" by (simp add: shape_cases)
  let ?pc = "programCounter st"
  obtain acts where a: "interpretInstruction bc dm url flags st
      = Some (Some (st\<lparr>programCounter := ?pc + appendActionBytecodeSize a, is_actions := acts\<rparr>))"
    "ht_wf actionSetTraits acts" "set (ht_values acts) = set (ht_values (is_actions st)) \<union> (if selected flags dm a then {a} else {})"
    using interpretAction [of bc pre a "code J (?pc + ins_len i) is @ post" st dm url flags] Cons.prems by (auto simp: i as(1))
  let ?st = "st\<lparr>programCounter := ?pc + appendActionBytecodeSize a, is_actions := acts\<rparr>"
  obtain acts' where "interpretInstructions bc dm url flags ?st
      = interpretInstructions bc dm url flags (?st\<lparr>programCounter := programCounter ?st + code_len is, is_actions := acts'\<rparr>)"
    "ht_wf actionSetTraits acts'" "set (ht_values acts') = set (ht_values (is_actions ?st)) \<union> {a \<in> set as'. selected flags dm a}"
    using Cons.IH [of "pre @ ins_bytes (J ?pc) i" ?st as'] Cons.prems a(2) as(3) by (auto simp: i as(1))
  then show ?case using run_step [OF a(1)] a(3)
    by (intro exI [of _ acts']) (auto simp: as(1) i add.assoc)
next
  case Nil
  then show ?case by (intro exI [of _ "is_actions st"]) auto
qed

text \<open>After the end of the string, the code of a node that has no fallback stops.\<close>

lemma run_transitions_after:
  assumes bc: "bc = pre @ code (linked S) (programCounter st) is @ post" and pc: "length pre = programCounter st"
    and ts: "transitions_ok dfa node ts" "map shape is = transitions_shape ts" "\<not> useFallbackTransition ts"
    and st: "urlIndexIsAfterEndOfString st"
  shows "interpretInstructions bc dm url flags st = Some (is_actions st)"
proof -
  obtain i rest where i: "is = i # rest" using ts(2) by (cases "is") (auto simp: transitions_shape_def)
  have bc': "bc = pre @ ins_bytes (linked S (programCounter st)) i @ (code (linked S) (programCounter st + ins_len i) rest @ post)"
    using bc by (simp add: i)
  have "shape i \<in> set (transitions_shape ts)" unfolding ts(2) [symmetric] by (simp add: i)
  then consider "is_check (shape i)" | "i = ITerminate"
    using checks_are_checks [OF ts(1), of "shape i"] ts(3) by (auto simp: transitions_shape_def last_shape_def shape_cases)
  then have "interpretInstruction bc dm url flags st = Some None"
  proof cases
    case 1
    then obtain ins s rest' where "bc = pre @ jump_byte ins s @ rest'" and ins: "ins \<in> {CheckValueCaseSensitive, CheckValueCaseInsensitive,
        CheckValueRangeCaseSensitive, CheckValueRangeCaseInsensitive, JumpTableCaseSensitive, JumpTableCaseInsensitive}"
      using bc' by (cases i) (auto split: if_splits)
    with getInstruction_jump [OF pc] have "getInstruction bc (programCounter st) = Some (instruction_value ins)" by simp
    with ins st show ?thesis by (auto simp: interpretInstruction_def Let_def unlessAfterEnd_def)
  next
    case 2
    with terminate_at [OF _ pc] bc' show ?thesis by simp
  qed
  then show ?thesis by (rule run_stop)
qed

text \<open>The bytecode of an automaton inside a larger one.\<close>

definition bytecode_of :: "DFA \<Rightarrow> byte list \<Rightarrow> nat \<Rightarrow> (nat \<Rightarrow> SizedIns list) \<Rightarrow> nat list \<Rightarrow> bool" where
  "bytecode_of dfa bc B blk S \<longleftrightarrow>
     (\<exists>pre post. bc = pre @ code (linked S) B (concat (map blk (order dfa (length (dfa_nodes dfa))))) @ post \<and> length pre = B) \<and>
     (\<forall>j < length (dfa_nodes dfa). node_code_ok dfa B blk S j) \<and> length bc < 2 ^ 31"

lemma order_split:
  assumes "j < n" "dfa_root dfa < n"
  shows "\<exists>vs. order dfa n = (if j = dfa_root dfa then [] else order dfa j) @ j # vs"
  using assms upt_split [of j n] by (auto simp: order_def)

lemma block_located:
  assumes b: "bytecode_of dfa bc B blk S" and j: "j < length (dfa_nodes dfa)" "dfa_root dfa < length (dfa_nodes dfa)"
  shows "\<exists>p q. bc = p @ code (linked S) (block_at dfa B blk j) (blk j) @ q \<and> length p = block_at dfa B blk j"
proof -
  let ?n = "length (dfa_nodes dfa)" and ?us = "if j = dfa_root dfa then [] else order dfa j"
  obtain pre post where bc: "bc = pre @ code (linked S) B (concat (map blk (order dfa ?n))) @ post" "length pre = B"
    using b by (auto simp: bytecode_of_def)
  obtain vs where vs: "order dfa ?n = ?us @ j # vs" using order_split [OF j] by blast
  have at: "B + code_len (concat (map blk ?us)) = block_at dfa B blk j"
    by (simp add: block_at_def sum_before_def code_len_concat)
  have "concat (map blk (order dfa ?n)) = concat (map blk ?us) @ blk j @ concat (map blk vs)" unfolding vs by simp
  then have "bc = (pre @ code (linked S) B (concat (map blk ?us))) @ code (linked S) (block_at dfa B blk j) (blk j)
      @ (code (linked S) (block_at dfa B blk j + code_len (blk j)) (concat (map blk vs)) @ post)"
    unfolding bc(1) by (simp only: code_append append_assoc at)
  moreover have "length (pre @ code (linked S) B (concat (map blk ?us))) = block_at dfa B blk j" using bc(2) at by simp
  ultimately show ?thesis by blast
qed

text \<open>Jumping to a node runs its actions, except for the root, whose start is after them.\<close>

definition entry_actions :: "DFA \<Rightarrow> nat \<Rightarrow> uint64 set" where
  "entry_actions dfa j = (if j = dfa_root dfa then {} else set (dfa_nodeActions dfa (dfa_nodes dfa ! j)))"

lemma node_entry:
  assumes b: "bytecode_of dfa bc B blk S" and j: "j < length (dfa_nodes dfa)" "\<not> killed dfa j" and root: "dfa_root dfa < length (dfa_nodes dfa)"
    and acts: "\<forall>a \<in> set (dfa_nodeActions dfa (dfa_nodes dfa ! j)). uint a < 2 ^ 49"
    and st: "programCounter st = S ! j" "dom_ok dm" "ht_wf actionSetTraits (is_actions st)"
  shows "\<exists>pre is post ts acts.
    interpretInstructions bc dm url flags st
      = interpretInstructions bc dm url flags (st\<lparr>programCounter := length pre, is_actions := acts\<rparr>) \<and>
    bc = pre @ code (linked S) (length pre) is @ post \<and> map shape is = transitions_shape ts \<and>
    (\<forall>jp \<in> set (jumps (length pre) is). jump_ok S jp) \<and>
    nodeTransitions dfa (dfa_nodes dfa ! j) = Some ts \<and> transitions_ok dfa (dfa_nodes dfa ! j) ts \<and>
    ht_wf actionSetTraits acts \<and> set (ht_values acts) = set (ht_values (is_actions st)) \<union> {a \<in> entry_actions dfa j. selected flags dm a}"
proof -
  let ?as = "dfa_nodeActions dfa (dfa_nodes dfa ! j)" and ?at = "block_at dfa B blk j"
  have ok: "node_code_ok dfa B blk S j" and small: "length bc < 2 ^ 31" using b j(1) by (simp_all add: bytecode_of_def)
  obtain ts where S: "S ! j = start_at dfa B blk j" and ts: "nodeTransitions dfa (dfa_nodes dfa ! j) = Some ts"
    "transitions_ok dfa (dfa_nodes dfa ! j) ts" "map shape (blk j) = node_shape dfa j ts"
    and jok: "\<forall>jp \<in> set (jumps ?at (blk j)). jump_ok S jp"
    using ok j(2) by (auto simp: node_code_ok_def)
  obtain as "is" where sp: "blk j = as @ is" "map shape as = map IAction ?as" "map shape is = transitions_shape ts"
    using map_eq_appendD [OF ts(3) [unfolded node_shape_def]] by (elim exE conjE)
  obtain p q where loc: "bc = p @ code (linked S) ?at (blk j) @ q" "length p = ?at" using block_located [OF b j(1) root] by blast
  note len = actions_code [OF sp(2), of ?at]
  let ?pre = "p @ code (linked S) ?at as"
  have bc: "bc = ?pre @ code (linked S) (length ?pre) is @ q" using loc by (simp add: sp(1))
  have ji: "\<forall>jp \<in> set (jumps (length ?pre) is). jump_ok S jp" using jok loc(2) by (simp add: sp(1))
  have "\<exists>acts. interpretInstructions bc dm url flags st
      = interpretInstructions bc dm url flags (st\<lparr>programCounter := length ?pre, is_actions := acts\<rparr>) \<and>
    ht_wf actionSetTraits acts \<and> set (ht_values acts) = set (ht_values (is_actions st)) \<union> {a \<in> entry_actions dfa j. selected flags dm a}"
  proof (cases "j = dfa_root dfa")
    case True
    have "st\<lparr>programCounter := length ?pre, is_actions := is_actions st\<rparr> = st"
      using st(1) S True len loc(2) by (simp add: start_at_def actions_len_def)
    with True st(3) show ?thesis by (intro exI [of _ "is_actions st"]) (simp add: entry_actions_def)
  next
    case False
    have pc: "programCounter st = ?at" using st(1) S False by (simp add: start_at_def)
    have "bc = p @ code (linked S) (programCounter st) as @ (code (linked S) (length ?pre) is @ q)"
      using bc pc by simp
    from run_actions [OF this _ small sp(2) acts st(2,3), of url flags] loc(2) pc False
    show ?thesis by (simp add: entry_actions_def)
  qed
  with bc sp(3) ji ts(1,2) show ?thesis by blast
qed

lemma run_node:
  assumes b: "bytecode_of dfa bc B blk S" and j: "j < length (dfa_nodes dfa)" "\<not> killed dfa j" and root: "dfa_root dfa < length (dfa_nodes dfa)"
    and acts: "\<forall>a \<in> set (dfa_nodeActions dfa (dfa_nodes dfa ! j)). uint a < 2 ^ 49"
    and st: "programCounter st = S ! j" "dom_ok dm" "ht_wf actionSetTraits (is_actions st)"
    and url: "\<not> urlIndexIsAfterEndOfString st" "urlAt url (urlIndex st) = Some (int c)" "c < 128"
  shows "\<exists>acts. ht_wf actionSetTraits acts \<and>
    set (ht_values acts) = set (ht_values (is_actions st)) \<union> {a \<in> entry_actions dfa j. selected flags dm a} \<and>
    interpretInstructions bc dm url flags st = (case bc_step dfa j (int c) of
      Some t \<Rightarrow> interpretInstructions bc dm url flags (jumped S t c (st\<lparr>is_actions := acts\<rparr>)) | None \<Rightarrow> Some acts)"
proof -
  obtain pre "is" post ts acts where e: "interpretInstructions bc dm url flags st
      = interpretInstructions bc dm url flags (st\<lparr>programCounter := length pre, is_actions := acts\<rparr>)"
    "bc = pre @ code (linked S) (length pre) is @ post" "map shape is = transitions_shape ts"
    "\<forall>jp \<in> set (jumps (length pre) is). jump_ok S jp"
    "nodeTransitions dfa (dfa_nodes dfa ! j) = Some ts" "transitions_ok dfa (dfa_nodes dfa ! j) ts"
    and a: "ht_wf actionSetTraits acts" "set (ht_values acts) = set (ht_values (is_actions st)) \<union> {a \<in> entry_actions dfa j. selected flags dm a}"
    using node_entry [OF b j root acts st, of url flags] by (elim exE conjE)
  let ?st = "st\<lparr>programCounter := length pre, is_actions := acts\<rparr>"
  have small: "length bc < 2 ^ 31" using b by (simp add: bytecode_of_def)
  have "interpretInstructions bc dm url flags ?st =
      (case bc_step dfa j (int c) of Some t \<Rightarrow> interpretInstructions bc dm url flags (jumped S t c ?st) | None \<Rightarrow> Some (is_actions ?st))"
    using e(2,3,4) url small by (intro run_transitions [OF _ _ _ e(5,6), of bc pre S ?st "is" post]) simp_all
  moreover have "jumped S t c ?st = jumped S t c (st\<lparr>is_actions := acts\<rparr>)" for t by (simp add: jumped_def)
  ultimately show ?thesis using a e(1) by (intro exI [of _ acts]) (simp split: option.splits)
qed

lemma run_node_after:
  assumes b: "bytecode_of dfa bc B blk S" and j: "j < length (dfa_nodes dfa)" "\<not> killed dfa j" and root: "dfa_root dfa < length (dfa_nodes dfa)"
    and acts: "\<forall>a \<in> set (dfa_nodeActions dfa (dfa_nodes dfa ! j)). uint a < 2 ^ 49"
    and st: "programCounter st = S ! j" "dom_ok dm" "ht_wf actionSetTraits (is_actions st)"
    and url: "urlIndexIsAfterEndOfString st" and fb: "\<not> canUseFallbackTransition dfa (dfa_nodes dfa ! j)"
  shows "\<exists>acts. ht_wf actionSetTraits acts \<and>
    set (ht_values acts) = set (ht_values (is_actions st)) \<union> {a \<in> entry_actions dfa j. selected flags dm a} \<and>
    interpretInstructions bc dm url flags st = Some acts"
proof -
  obtain pre "is" post ts acts where e: "interpretInstructions bc dm url flags st
      = interpretInstructions bc dm url flags (st\<lparr>programCounter := length pre, is_actions := acts\<rparr>)"
    "bc = pre @ code (linked S) (length pre) is @ post" "map shape is = transitions_shape ts"
    "\<forall>jp \<in> set (jumps (length pre) is). jump_ok S jp"
    "nodeTransitions dfa (dfa_nodes dfa ! j) = Some ts" "transitions_ok dfa (dfa_nodes dfa ! j) ts"
    and a: "ht_wf actionSetTraits acts" "set (ht_values acts) = set (ht_values (is_actions st)) \<union> {a \<in> entry_actions dfa j. selected flags dm a}"
    using node_entry [OF b j root acts st, of url flags] by (elim exE conjE)
  let ?st = "st\<lparr>programCounter := length pre, is_actions := acts\<rparr>"
  have "\<not> useFallbackTransition ts" using fb nodeTransitions_fallback(1) [OF e(5)] by simp
  then have "interpretInstructions bc dm url flags ?st = Some (is_actions ?st)"
    using e(2,3) url by (intro run_transitions_after [OF _ _ e(6), of bc pre S ?st "is" post]) simp_all
  with a e(1) show ?thesis by (intro exI [of _ acts]) simp
qed

text \<open>The nodes that the bytecode enters on an input, and the actions that it collects there.\<close>

fun bc_reach :: "DFA \<Rightarrow> nat \<Rightarrow> input \<Rightarrow> nat list" where
  "bc_reach dfa j [] = []"
| "bc_reach dfa j (c # w) = (case bc_step dfa j c of None \<Rightarrow> [] | Some t \<Rightarrow> t # bc_reach dfa t w)"

definition entered_actions :: "DFA \<Rightarrow> nat list \<Rightarrow> uint64 set" where
  "entered_actions dfa js = (\<Union>j \<in> set js. entry_actions dfa j)"

text \<open>What the interpreter needs of an automaton: it is well formed, its actions have no bits above
  those of the flags, and the end of the string leads to nodes without a fallback.\<close>

definition interpretable :: "DFA \<Rightarrow> bool" where
  "interpretable dfa \<longleftrightarrow> dfa_wf dfa \<and>
     (\<forall>j < length (dfa_nodes dfa). \<not> killed dfa j \<longrightarrow>
        (\<forall>a \<in> set (dfa_nodeActions dfa (dfa_nodes dfa ! j)). uint a < 2 ^ 49) \<and>
        (\<forall>t. dfa_step dfa j 0 = Some t \<longrightarrow> \<not> canUseFallbackTransition dfa (dfa_nodes dfa ! t)))"

lemma bc_step_target:
  assumes "dfa_wf dfa" "j < length (dfa_nodes dfa)" "\<not> killed dfa j" "bc_step dfa j c = Some t"
  shows "t < length (dfa_nodes dfa) \<and> \<not> killed dfa t \<and> dfa_step dfa j c = Some t"
proof -
  have s: "dfa_step dfa j c = Some t" using assms(4) by (auto simp: bc_step_def split: option.splits if_splits)
  have "node_wf_dfa dfa (dfa_nodes dfa ! j)" using assms(1-3) by (simp add: dfa_wf_def)
  moreover have "t \<in> set (map (snd \<circ> snd) (dfa_transitions dfa (dfa_nodes dfa ! j)))"
    using s unfolding dfa_step_def by (rule range_at_target)
  ultimately show ?thesis using s by (auto simp: node_wf_dfa_def)
qed

lemma urlAt_drop:
  assumes "drop i (url @ [0]) = c # w"
  shows "urlAt url i = Some c \<and> drop (Suc i) (url @ [0]) = w \<and> (if w = [] then c = 0 else c \<in> set url)"
proof -
  consider "i < length url" | "i = length url" | "length url < i" by linarith
  then show ?thesis
  proof cases
    case 1
    then have "drop i (url @ [0]) = url ! i # drop (Suc i) url @ [0]" by (simp add: Cons_nth_drop_Suc)
    with assms 1 show ?thesis by (auto simp: urlAt_def)
  qed (use assms in \<open>auto simp: urlAt_def\<close>)
qed

lemma run_url:
  assumes b: "bytecode_of dfa bc B blk S" and ok: "interpretable dfa" and dm: "dom_ok dm"
    and "j < length (dfa_nodes dfa)" "\<not> killed dfa j" "programCounter st = S ! j" "ht_wf actionSetTraits (is_actions st)"
    and "\<not> urlIndexIsAfterEndOfString st" "drop (urlIndex st) (url @ [0]) = w" "w \<noteq> []" and chars: "\<forall>c \<in> set url. 1 \<le> c \<and> c < 128"
  shows "\<exists>acts. interpretInstructions bc dm url flags st = Some acts \<and> ht_wf actionSetTraits acts \<and>
    set (ht_values acts) = set (ht_values (is_actions st)) \<union> {a \<in> entered_actions dfa (j # bc_reach dfa j w). selected flags dm a}"
  using assms(4-10)
proof (induction w arbitrary: j st)
  case (Cons c w)
  have wf: "dfa_wf dfa" "dfa_root dfa < length (dfa_nodes dfa)" using ok by (simp_all add: interpretable_def dfa_wf_def)
  have small: "\<forall>a \<in> set (dfa_nodeActions dfa (dfa_nodes dfa ! k)). uint a < 2 ^ 49" if "k < length (dfa_nodes dfa)" "\<not> killed dfa k" for k
    using ok that by (simp add: interpretable_def)
  note u = urlAt_drop [OF Cons.prems(6)]
  have "c \<in> set (url @ [0])" using Cons.prems(6) by (metis in_set_dropD list.set_intros(1))
  then have c: "0 \<le> c" "c < 128" using chars by auto
  define c' where "c' = nat c"
  have cc: "c = int c'" "c' < 128" using c by (simp_all add: c'_def)
  obtain acts where acts: "ht_wf actionSetTraits acts"
    "set (ht_values acts) = set (ht_values (is_actions st)) \<union> {a \<in> entry_actions dfa j. selected flags dm a}"
    and run: "interpretInstructions bc dm url flags st = (case bc_step dfa j (int c') of
      Some t \<Rightarrow> interpretInstructions bc dm url flags (jumped S t c' (st\<lparr>is_actions := acts\<rparr>)) | None \<Rightarrow> Some acts)"
    using run_node [OF b Cons.prems(1,2) wf(2) small [OF Cons.prems(1,2)] Cons.prems(3) dm Cons.prems(4,5), of url c' flags] u cc by auto
  show ?case
  proof (cases "bc_step dfa j c")
    case None
    then show ?thesis using run acts cc by (auto simp: entered_actions_def)
  next
    case (Some t)
    let ?st = "jumped S t c' (st\<lparr>is_actions := acts\<rparr>)"
    have t: "t < length (dfa_nodes dfa)" "\<not> killed dfa t" "dfa_step dfa j c = Some t"
      using bc_step_target [OF wf(1) Cons.prems(1,2) Some] by simp_all
    have st: "programCounter ?st = S ! t" "is_actions ?st = acts" "urlIndexIsAfterEndOfString ?st \<longleftrightarrow> c = 0"
      "urlIndex ?st = Suc (urlIndex st)" using cc by (simp_all add: jumped_def)
    have "\<exists>acts'. interpretInstructions bc dm url flags ?st = Some acts' \<and> ht_wf actionSetTraits acts' \<and>
        set (ht_values acts') = set (ht_values acts) \<union> {a \<in> entered_actions dfa (t # bc_reach dfa t w). selected flags dm a}"
    proof (cases "w = []")
      case True
      then have c0: "c = 0" using u by simp
      then have "\<not> canUseFallbackTransition dfa (dfa_nodes dfa ! t)" using ok Cons.prems(1,2) t(3) by (simp add: interpretable_def)
      from run_node_after [OF b t(1,2) wf(2) small [OF t(1,2)] st(1) dm _ _ this, where url = url and flags = flags] acts(1) st c0 True
      show ?thesis by (auto simp: entered_actions_def)
    next
      case False
      then have "c \<noteq> 0" using u chars by auto
      with Cons.IH [OF t(1,2) st(1), unfolded st] acts(1) u False show ?thesis by simp
    qed
    then show ?thesis using run Some acts cc by (auto simp: entered_actions_def)
  qed
qed simp

end
