(* ===== verification/BytecodeRuns.thy ===== *)
theory BytecodeRuns imports BytecodeExecution "HOL-Library.Sublist" begin

text \<open>Runs of the interpreter over the bytecode of several automata: the loop over the actions of the
  root of the first automaton, the run of the bytes of one automaton, and the loop over the automata.
  What the bytecode collects is compared with the actions that the automata have after the prefixes of
  the URL.\<close>

section \<open>The actions of the root\<close>

definition is_action_value :: "byte \<Rightarrow> bool" where
  "is_action_value v \<longleftrightarrow> v = instruction_value AppendAction \<or> v = instruction_value AppendActionWithIfDomain \<or>
     v = instruction_value TestFlagsAndAppendAction \<or> v = instruction_value TestFlagsAndAppendActionWithIfDomain"

lemma action_size: "appendActionBytecodeSize a = (if has_flags a then 7 else 5)"
  by (simp add: appendActionBytecodeSize_def has_flags_def)

lemma root_actions_run:
  assumes "bc = pre @ code J pc is @ post" "length pre = pc" "length bc < 2 ^ 31"
    "map shape is = map IAction as" "\<forall>a \<in> set as. uint a < 2 ^ 49" "dom_ok dm" "ht_wf actionSetTraits acts"
    "pc + code_len is < limit" "getInstruction bc (pc + code_len is) = Some v" "\<not> is_action_value v"
  shows "\<exists>acts'. interpretRootActions bc dm flags limit pc acts = Some (pc + code_len is, acts') \<and>
    ht_wf actionSetTraits acts' \<and> set (ht_values acts') = set (ht_values acts) \<union> {a \<in> set as. has_flags a \<and> selected flags dm a}"
  using assms
proof (induction "is" arbitrary: pc pre as acts)
  case Nil
  then show ?case by (subst interpretRootActions.simps) (auto simp: is_action_value_def)
next
  case (Cons i "is")
  then obtain a as' where as: "as = a # as'" "shape i = IAction a" "map shape is = map IAction as'" by (cases as) auto
  then have i: "i = IAction a" by (simp add: shape_cases)
  have bc: "bc = pre @ action_bytes a @ (code J (pc + ins_len i) is @ post)" using Cons.prems(1) by (simp add: i)
  have a: "uint a < 2 ^ 49" using Cons.prems(5) by (simp add: as(1))
  note ins = action_instruction [OF bc Cons.prems(2)]
  have "\<exists>acts1. interpretRootActions bc dm flags limit pc acts = interpretRootActions bc dm flags limit (pc + ins_len i) acts1 \<and>
      ht_wf actionSetTraits acts1 \<and> set (ht_values acts1) = set (ht_values acts) \<union> (if has_flags a \<and> selected flags dm a then {a} else {})"
  proof (cases "has_flags a")
    case True
    from interpretTestFlags_at [OF bc Cons.prems(2,3) a True Cons.prems(6,7), of flags] obtain acts1 where
      t: "interpretTestFlagsAndAppendAction bc dm pc flags acts (a AND IfDomainFlag \<noteq> 0) = Some (pc + 7, acts1)"
      "ht_wf actionSetTraits acts1" "set (ht_values acts1) = set (ht_values acts) \<union> (if selected flags dm a then {a} else {})" by blast
    have "interpretRootActions bc dm flags limit pc acts = interpretRootActions bc dm flags limit (pc + 7) acts1"
      using t(1) ins True Cons.prems(8) by (subst interpretRootActions.simps) (cases "a AND IfDomainFlag \<noteq> 0", simp_all)
    with t(2,3) True show ?thesis by (intro exI [of _ acts1]) (simp add: i action_size)
  next
    case False
    have "pc + 5 \<le> length bc" using bc Cons.prems(2) False by (simp add: action_size)
    then have "advance pc 5 = pc + 5" using Cons.prems(3) by simp
    then have "interpretRootActions bc dm flags limit pc acts = interpretRootActions bc dm flags limit (pc + 5) acts"
      using ins False Cons.prems(8) by (subst interpretRootActions.simps) (cases "a AND IfDomainFlag \<noteq> 0", simp_all)
    with False Cons.prems(7) show ?thesis by (intro exI [of _ acts]) (simp add: i action_size)
  qed
  then obtain acts1 where a1: "interpretRootActions bc dm flags limit pc acts = interpretRootActions bc dm flags limit (pc + ins_len i) acts1"
    "ht_wf actionSetTraits acts1" "set (ht_values acts1) = set (ht_values acts) \<union> (if has_flags a \<and> selected flags dm a then {a} else {})" by blast
  obtain acts' where "interpretRootActions bc dm flags limit (pc + ins_len i) acts1 = Some (pc + ins_len i + code_len is, acts')"
    "ht_wf actionSetTraits acts'" "set (ht_values acts') = set (ht_values acts1) \<union> {a \<in> set as'. has_flags a \<and> selected flags dm a}"
    using Cons.IH [of "pre @ ins_bytes (J pc) i" "pc + ins_len i" as' acts1] Cons.prems a1(2) as by (auto simp: add.assoc)
  with a1 show ?case by (intro exI [of _ acts']) (auto simp: as(1) add.assoc)
qed

lemma everything_run:
  assumes "bc = pre @ code J pc is @ post" "length pre = pc" "length bc < 2 ^ 31"
    "map shape is = map IAction as" "\<forall>a \<in> set as. uint a < 2 ^ 49" "ht_wf actionSetTraits acts"
    "pc + code_len is < limit" "getInstruction bc (pc + code_len is) = Some v" "\<not> is_action_value v"
  shows "\<exists>acts'. actionsMatchingEverything_loop bc None limit pc acts = Some acts' \<and>
    ht_wf actionSetTraits acts' \<and> set (ht_values acts') = set (ht_values acts) \<union> {a \<in> set as. \<not> has_flags a}"
  using assms
proof (induction "is" arbitrary: pc pre as acts)
  case Nil
  then show ?case by (subst actionsMatchingEverything_loop.simps) (auto simp: is_action_value_def)
next
  case (Cons i "is")
  then obtain a as' where as: "as = a # as'" "shape i = IAction a" "map shape is = map IAction as'" by (cases as) auto
  then have i: "i = IAction a" by (simp add: shape_cases)
  have bc: "bc = pre @ action_bytes a @ (code J (pc + ins_len i) is @ post)" using Cons.prems(1) by (simp add: i)
  have a: "uint a < 2 ^ 49" using Cons.prems(5) by (simp add: as(1))
  note ins = action_instruction [OF bc Cons.prems(2)]
  have none: "dom_ok None" "selected flags None a \<longleftrightarrow> (has_flags a \<longrightarrow> flagsMatch (ucast (drop_bit 32 a)) flags)" for flags
    by (simp_all add: dom_ok_def selected_def domain_selects_def)
  have "\<exists>acts1. actionsMatchingEverything_loop bc None limit pc acts = actionsMatchingEverything_loop bc None limit (pc + ins_len i) acts1 \<and>
      ht_wf actionSetTraits acts1 \<and> set (ht_values acts1) = set (ht_values acts) \<union> (if \<not> has_flags a then {a} else {})"
  proof (cases "has_flags a")
    case False
    from interpretAppendAction_at [OF bc Cons.prems(2,3) a False none(1) Cons.prems(6)] obtain acts1 where
      t: "interpretAppendAction bc None pc acts (a AND IfDomainFlag \<noteq> 0) = Some (pc + 5, acts1)"
      "ht_wf actionSetTraits acts1" "set (ht_values acts1) = set (ht_values acts) \<union> {a}" using False by (auto simp: none(2))
    have "actionsMatchingEverything_loop bc None limit pc acts = actionsMatchingEverything_loop bc None limit (pc + 5) acts1"
      using t(1) ins False Cons.prems(7) by (subst actionsMatchingEverything_loop.simps) (cases "a AND IfDomainFlag \<noteq> 0", simp_all)
    with t(2,3) False show ?thesis by (intro exI [of _ acts1]) (simp add: i action_size)
  next
    case True
    have "pc + 7 \<le> length bc" using bc Cons.prems(2) True by (simp add: action_size)
    then have "advance pc 7 = pc + 7" using Cons.prems(3) by simp
    then have "actionsMatchingEverything_loop bc None limit pc acts = actionsMatchingEverything_loop bc None limit (pc + 7) acts"
      using ins True Cons.prems(7) by (subst actionsMatchingEverything_loop.simps) (cases "a AND IfDomainFlag \<noteq> 0", simp_all)
    with True Cons.prems(6) show ?thesis by (intro exI [of _ acts]) (simp add: i action_size)
  qed
  then obtain acts1 where a1: "actionsMatchingEverything_loop bc None limit pc acts = actionsMatchingEverything_loop bc None limit (pc + ins_len i) acts1"
    "ht_wf actionSetTraits acts1" "set (ht_values acts1) = set (ht_values acts) \<union> (if \<not> has_flags a then {a} else {})" by blast
  obtain acts' where "actionsMatchingEverything_loop bc None limit (pc + ins_len i) acts1 = Some acts'"
    "ht_wf actionSetTraits acts'" "set (ht_values acts') = set (ht_values acts1) \<union> {a \<in> set as'. \<not> has_flags a}"
    using Cons.IH [of "pre @ ins_bytes (J pc) i" "pc + ins_len i" as' acts1] Cons.prems a1(2) as by (auto simp: add.assoc)
  with a1 show ?case by (intro exI [of _ acts']) (auto simp: as(1) add.assoc)
qed

section \<open>Several automata\<close>

text \<open>The bytes that the compiler appends for an automaton.\<close>

definition dfa_segment :: "DFA \<Rightarrow> nat \<Rightarrow> byte list \<Rightarrow> bool" where
  "dfa_segment dfa pos seg \<longleftrightarrow>
     (\<exists>blk S. seg = bytesOf 4 (int (length seg)) @ code (linked S) (pos + 4) (concat (map blk (order dfa (length (dfa_nodes dfa))))) \<and>
        (\<forall>j < length (dfa_nodes dfa). node_code_ok dfa (pos + 4) blk S j)) \<and>
     length seg \<le> 4 + max_code_size dfa"

lemma compile_segment:
  assumes "dfa_wf dfa" "length (dfa_nodes dfa) < 2 ^ 32 - 1" "length bytecode + 4 + max_code_size dfa < 2 ^ 30"
  shows "\<exists>seg. compile dfa bytecode = Some (bytecode @ seg) \<and> dfa_segment dfa (length bytecode) seg"
proof -
  let ?n = "length (dfa_nodes dfa)"
  obtain blk S where c: "compile dfa bytecode = Some (bytecode @ bytesOf 4 (int (4 + code_len (concat (map blk (order dfa ?n)))))
      @ code (linked S) (length bytecode + 4) (concat (map blk (order dfa ?n))))"
    "\<forall>j < ?n. node_code_ok dfa (length bytecode + 4) blk S j" "code_len (concat (map blk (order dfa ?n))) \<le> max_code_size dfa"
    using compile_layout [OF assms] unfolding Let_def by blast
  let ?is = "concat (map blk (order dfa ?n))"
  let ?seg = "bytesOf 4 (int (4 + code_len ?is)) @ code (linked S) (length bytecode + 4) ?is"
  have "length ?seg = 4 + code_len ?is" by simp
  then have "dfa_segment dfa (length bytecode) ?seg" using c(2,3) unfolding dfa_segment_def by (intro conjI exI [of _ blk] exI [of _ S]) simp_all
  with c(1) show ?thesis by blast
qed

text \<open>What the run of an automaton collects: the actions of its root, of which the interpreter
  skips those without flags in the first automaton, and the actions of the nodes it enters.\<close>

definition root_actions :: "DFA \<Rightarrow> uint64 set" where
  "root_actions dfa = set (dfa_nodeActions dfa (dfa_nodes dfa ! dfa_root dfa))"

definition collected :: "DFA \<Rightarrow> bool \<Rightarrow> input \<Rightarrow> uint64 set" where
  "collected dfa first w = {a \<in> root_actions dfa. first \<longrightarrow> has_flags a} \<union> entered_actions dfa (bc_reach dfa (dfa_root dfa) w)"

fun ins_opcode :: "SizedIns \<Rightarrow> DFABytecodeInstruction" where
  "ins_opcode (IAction a) =
     (if has_flags a then if a AND IfDomainFlag \<noteq> 0 then TestFlagsAndAppendActionWithIfDomain else TestFlagsAndAppendAction
      else if a AND IfDomainFlag \<noteq> 0 then AppendActionWithIfDomain else AppendAction)"
| "ins_opcode (ICheckValue cs v d s) = (if cs then CheckValueCaseSensitive else CheckValueCaseInsensitive)"
| "ins_opcode (ICheckRange cs lo hi d s) = (if cs then CheckValueRangeCaseSensitive else CheckValueRangeCaseInsensitive)"
| "ins_opcode (ITable cs lo hi ds s) = (if cs then JumpTableCaseSensitive else JumpTableCaseInsensitive)"
| "ins_opcode (IJump d s) = Jump"
| "ins_opcode ITerminate = Terminate"

lemma getInstruction_ins:
  assumes "bc = pre @ ins_bytes J i @ post" "length pre = pc"
  shows "getInstruction bc pc = Some (instruction_value (ins_opcode i))"
proof (cases i)
  case (IAction a)
  then show ?thesis using action_instruction [of bc pre a post pc] assms by simp
next
  case ITerminate
  then show ?thesis using getInstruction_plain [OF assms(2), of Terminate post] assms(1) by (simp del: bytesOf.simps)
qed (use assms(1) getInstruction_jump [OF assms(2)] in \<open>simp_all del: bytesOf.simps\<close>)

lemma action_opcode: "is_action_value (instruction_value (ins_opcode i)) \<Longrightarrow> \<exists>a. i = IAction a"
  by (cases i) (auto simp: is_action_value_def split: if_splits)

lemma transitions_first:
  assumes "bc = pre @ code (linked S) pc is @ post" "length pre = pc" "map shape is = transitions_shape ts"
  shows "\<exists>v. getInstruction bc pc = Some v \<and> \<not> is_action_value v" "0 < code_len is"
proof -
  obtain i rest where i: "is = i # rest" using assms(3) by (cases "is") (auto simp: transitions_shape_def)
  have bc: "bc = pre @ ins_bytes (linked S pc) i @ (code (linked S) (pc + ins_len i) rest @ post)" using assms(1) by (simp add: i)
  have "shape i \<in> set (transitions_shape ts)" unfolding assms(3) [symmetric] by (simp add: i)
  then have "\<not> (\<exists>a. i = IAction a)"
    by (auto simp: transitions_shape_def last_shape_def table_shape_def range_shape_def split: if_splits)
  then have "\<not> is_action_value (instruction_value (ins_opcode i))" using action_opcode by blast
  then show "\<exists>v. getInstruction bc pc = Some v \<and> \<not> is_action_value v" using getInstruction_ins [OF bc assms(2)] by blast
  have "0 < ins_len i" by (cases i) (simp_all add: action_size)
  then show "0 < code_len is" by (simp add: i)
qed

text \<open>The code of the root: its actions, and then its transitions.\<close>

lemma segment_root:
  assumes bc: "bc = pre @ seg @ post" "length pre = pos" "length bc < 2 ^ 31" and seg: "dfa_segment dfa pos seg" and ok: "interpretable dfa"
  shows "\<exists>blk S as q v. bytecode_of dfa bc (pos + 4) blk S \<and>
    bc = (pre @ bytesOf 4 (int (length seg))) @ code (linked S) (pos + 4) as @ q \<and>
    map shape as = map IAction (dfa_nodeActions dfa (dfa_nodes dfa ! dfa_root dfa)) \<and>
    S ! dfa_root dfa = pos + 4 + code_len as \<and> pos + 4 + code_len as < pos + length seg \<and>
    getInstruction bc (pos + 4 + code_len as) = Some v \<and> \<not> is_action_value v"
proof -
  let ?n = "length (dfa_nodes dfa)" and ?r = "dfa_root dfa"
  have root: "?r < ?n" "\<not> killed dfa ?r" using ok by (simp_all add: interpretable_def dfa_wf_def)
  obtain blk S where s: "seg = bytesOf 4 (int (length seg)) @ code (linked S) (pos + 4) (concat (map blk (order dfa ?n)))"
    "\<forall>j < ?n. node_code_ok dfa (pos + 4) blk S j" using seg by (auto simp: dfa_segment_def)
  let ?is = "concat (map blk (order dfa ?n))" and ?pre = "pre @ bytesOf 4 (int (length seg))"
  have bc': "bc = ?pre @ code (linked S) (pos + 4) ?is @ post" using bc(1) by (subst (asm) s(1)) simp
  have b: "bytecode_of dfa bc (pos + 4) blk S" unfolding bytecode_of_def
    using bc' s(2) bc(2,3) by (intro conjI exI [of _ ?pre] exI [of _ post]) simp_all
  have r: "node_code_ok dfa (pos + 4) blk S ?r" using s(2) root(1) by blast
  obtain ts where ts: "map shape (blk ?r) = node_shape dfa ?r ts" and S: "S ! ?r = start_at dfa (pos + 4) blk ?r"
    using r root(2) by (auto simp: node_code_ok_def)
  obtain as "is" where sp: "blk ?r = as @ is" "map shape as = map IAction (dfa_nodeActions dfa (dfa_nodes dfa ! ?r))" "map shape is = transitions_shape ts"
    using map_eq_appendD [OF ts [unfolded node_shape_def]] by (elim exE conjE)
  have "order dfa ?n = ?r # tl (order dfa ?n)" by (simp add: order_def)
  then have all: "?is = as @ is @ concat (map blk (tl (order dfa ?n)))" using sp(1) by (metis append_assoc concat.simps(2) list.simps(9))
  have len: "length seg = 4 + code_len ?is" by (subst s(1)) simp
  have loc: "bc = ?pre @ code (linked S) (pos + 4) as @ (code (linked S) (pos + 4 + code_len as) is
      @ (code (linked S) (pos + 4 + code_len as + code_len is) (concat (map blk (tl (order dfa ?n)))) @ post))"
    unfolding bc' all by simp
  then have loc': "bc = (?pre @ code (linked S) (pos + 4) as) @ code (linked S) (pos + 4 + code_len as) is
      @ (code (linked S) (pos + 4 + code_len as + code_len is) (concat (map blk (tl (order dfa ?n)))) @ post)" by simp
  have lp: "length (?pre @ code (linked S) (pos + 4) as) = pos + 4 + code_len as" using bc(2) by simp
  obtain v where v: "getInstruction bc (pos + 4 + code_len as) = Some v" "\<not> is_action_value v" and pos: "0 < code_len is"
    using transitions_first [OF loc' lp sp(3)] by blast
  have "S ! ?r = pos + 4 + code_len as" using S actions_code [OF sp(2)] by (simp add: start_at_def actions_len_def)
  moreover have "pos + 4 + code_len as < pos + length seg" unfolding len all using pos by simp
  ultimately show ?thesis using b loc sp(2) v by blast
qed

lemma run_segment:
  assumes bc: "bc = pre @ seg @ post" "length pre = pos" "length bc < 2 ^ 31" and seg: "dfa_segment dfa pos seg" and ok: "interpretable dfa"
    and dm: "dom_ok dm" and acts: "ht_wf actionSetTraits acts" and chars: "\<forall>c \<in> set url. 1 \<le> c \<and> c < 128"
  shows "\<exists>acts'. interpretDFAs bc dm url flags pos acts = interpretDFAs bc dm url flags (pos + length seg) acts' \<and>
    ht_wf actionSetTraits acts' \<and>
    set (ht_values acts') = set (ht_values acts) \<union> {a \<in> collected dfa (pos = 0) (url @ [0]). selected flags dm a}"
proof -
  let ?r = "dfa_root dfa"
  obtain blk S as q v where b: "bytecode_of dfa bc (pos + 4) blk S"
    and loc: "bc = (pre @ bytesOf 4 (int (length seg))) @ code (linked S) (pos + 4) as @ q"
    and sh: "map shape as = map IAction (dfa_nodeActions dfa (dfa_nodes dfa ! ?r))"
    and S: "S ! ?r = pos + 4 + code_len as" and lt: "pos + 4 + code_len as < pos + length seg"
    and v: "getInstruction bc (pos + 4 + code_len as) = Some v" "\<not> is_action_value v"
    using segment_root [OF bc seg ok] by (elim exE conjE)
  have root: "?r < length (dfa_nodes dfa)" "\<not> killed dfa ?r" using ok by (simp_all add: interpretable_def dfa_wf_def)
  have small: "\<forall>a \<in> set (dfa_nodeActions dfa (dfa_nodes dfa ! ?r)). uint a < 2 ^ 49" using ok root by (simp add: interpretable_def)
  have len: "pos + length seg \<le> length bc" using bc by simp
  have "getBits 4 bc pos = Some (bytesOf 4 (int (length seg)))"
    using getBits_at [OF bc(2), of "bytesOf 4 (int (length seg))" 4 "code (linked S) (pos + 4) as @ q"] loc by (simp del: bytesOf.simps)
  moreover have "unsignedOf (bytesOf 4 (int (length seg))) = int (length seg)" using unsignedOf_id [of "int (length seg)" 4] len bc(3) by simp
  moreover have "advance pos 4 = pos + 4" "advance pos (int (length seg)) = pos + length seg" using len lt bc(3) by simp_all
  moreover have "pos < length bc" using len lt by linarith
  ultimately have step: "interpretDFAs bc dm url flags pos acts = do {
      (pc, actions) \<leftarrow> (if pos = 0 then interpretRootActions bc dm flags (length seg) (pos + 4) acts else Some (pos + 4, acts));
      if pos = 0 \<and> pc \<ge> length bc then Some actions
      else do {
        actions \<leftarrow> interpretInstructions bc dm url flags \<lparr>programCounter = pc, urlIndex = 0, urlIndexIsAfterEndOfString = False, is_actions = actions\<rparr>;
        interpretDFAs bc dm url flags (pos + length seg) actions
      }}" by (subst interpretDFAs.simps) (simp add: Let_def del: bytesOf.simps cong: if_cong)
  have lp: "length (pre @ bytesOf 4 (int (length seg))) = pos + 4" using bc(2) by simp
  let ?st = "\<lambda>pc acts. \<lparr>programCounter = pc, urlIndex = 0, urlIndexIsAfterEndOfString = False, is_actions = acts\<rparr>"
  have url: "\<exists>acts'. interpretInstructions bc dm url flags (?st (S ! ?r) acts1) = Some acts' \<and> ht_wf actionSetTraits acts' \<and>
      set (ht_values acts') = set (ht_values acts1) \<union> {a \<in> entered_actions dfa (bc_reach dfa ?r (url @ [0])). selected flags dm a}"
    if "ht_wf actionSetTraits acts1" for acts1
    using run_url [OF b ok dm root, of "?st (S ! ?r) acts1" url "url @ [0]" flags] that chars by (simp add: entered_actions_def entry_actions_def)
  show ?thesis
  proof (cases "pos = 0")
    case True
    obtain acts1 where a1: "interpretRootActions bc dm flags (length seg) (pos + 4) acts = Some (pos + 4 + code_len as, acts1)"
      "ht_wf actionSetTraits acts1" "set (ht_values acts1) = set (ht_values acts) \<union> {a \<in> root_actions dfa. has_flags a \<and> selected flags dm a}"
      using root_actions_run [OF loc lp bc(3) sh small dm acts _ v, of "length seg" flags] lt True unfolding root_actions_def by auto
    obtain acts2 where "interpretInstructions bc dm url flags (?st (S ! ?r) acts1) = Some acts2" "ht_wf actionSetTraits acts2"
      "set (ht_values acts2) = set (ht_values acts1) \<union> {a \<in> entered_actions dfa (bc_reach dfa ?r (url @ [0])). selected flags dm a}"
      using url [OF a1(2)] by blast
    with a1 True S lt len show ?thesis unfolding step by (intro exI [of _ acts2]) (auto simp: collected_def)
  next
    case False
    obtain acts1 where a1: "interpretInstructions bc dm url flags (?st (pos + 4) acts) = interpretInstructions bc dm url flags (?st (S ! ?r) acts1)"
      "ht_wf actionSetTraits acts1" "set (ht_values acts1) = set (ht_values acts) \<union> {a \<in> root_actions dfa. selected flags dm a}"
      using run_actions [of bc "pre @ bytesOf 4 (int (length seg))" "linked S" "?st (pos + 4) acts" as q, OF _ _ bc(3) sh small dm, of url flags]
        loc lp acts S unfolding root_actions_def by (auto simp del: bytesOf.simps)
    obtain acts2 where "interpretInstructions bc dm url flags (?st (S ! ?r) acts1) = Some acts2" "ht_wf actionSetTraits acts2"
      "set (ht_values acts2) = set (ht_values acts1) \<union> {a \<in> entered_actions dfa (bc_reach dfa ?r (url @ [0])). selected flags dm a}"
      using url [OF a1(2)] by blast
    with a1 False show ?thesis unfolding step by (intro exI [of _ acts2]) (auto simp: collected_def)
  qed
qed

text \<open>The bytes of an automaton do not depend on where they are: the jumps are relative.\<close>

lemma jumps_shift: "jumps (pos + pc) is = map (\<lambda>(s, p, l, d). (s, pos + p, pos + l, d)) (jumps pc is)"
proof (induction "is" arbitrary: pc)
  case (Cons i "is")
  have t: "table_jumps (pos + pc) (pos + loc) s ds = map (\<lambda>(s, p, l, d). (s, pos + p, pos + l, d)) (table_jumps pc loc s ds)" for loc s ds
    by (induction ds arbitrary: loc) (simp_all add: add.assoc)
  have "ins_jumps (pos + pc) i = map (\<lambda>(s, p, l, d). (s, pos + p, pos + l, d)) (ins_jumps pc i)"
    using t [of "pc + 3"] by (cases i) (simp_all add: add.assoc)
  with Cons.IH [of "pc + ins_len i"] show ?case by (simp add: add.assoc)
qed simp

lemma code_shift:
  assumes "\<forall>i \<in> set is. \<forall>d \<in> ins_dests i. S' ! d = pos + S ! d"
  shows "code (linked S') (pos + pc) is = code (linked S) pc is"
  using assms
proof (induction "is" arbitrary: pc)
  case (Cons i "is")
  then have "linked S' (pos + pc) d = linked S pc d" if "d \<in> ins_dests i" for d using that by (simp add: linked_def)
  then have "ins_bytes (linked S' (pos + pc)) i = ins_bytes (linked S pc) i" by (cases i) (auto intro!: arg_cong [where f = concat] map_cong)
  with Cons.IH [of "pc + ins_len i"] Cons.prems show ?case by (simp add: add.assoc)
qed simp

lemma block_dests:
  assumes "dfa_wf dfa" "\<forall>j < length (dfa_nodes dfa). node_code_ok dfa B blk S j" "j < length (dfa_nodes dfa)" "i \<in> set (blk j)" "d \<in> ins_dests i"
  shows "d < length (dfa_nodes dfa) \<and> \<not> killed dfa d"
proof -
  have ok: "node_code_ok dfa B blk S j" using assms(2,3) by blast
  with assms(4) have k: "\<not> killed dfa j" by (auto simp: node_code_ok_def)
  with ok obtain ts where ts: "transitions_ok dfa (dfa_nodes dfa ! j) ts" "map shape (blk j) = node_shape dfa j ts" by (auto simp: node_code_ok_def)
  have "shape i \<in> set (node_shape dfa j ts)" "d \<in> ins_dests (shape i)" using assms(4,5) by (auto simp: ts(2) [symmetric])
  moreover have "node_wf_dfa dfa (dfa_nodes dfa ! j)" using assms(1,3) k by (simp add: dfa_wf_def)
  ultimately show ?thesis using node_dests_ok ts(1) by blast
qed

lemma segment_starts:
  assumes seg: "seg = bytesOf 4 (int (length seg)) @ code (linked S) 4 (concat (map blk (order dfa (length (dfa_nodes dfa)))))"
    "\<forall>j < length (dfa_nodes dfa). node_code_ok dfa 4 blk S j" and "dfa_wf dfa" "j < length (dfa_nodes dfa)" "\<not> killed dfa j" "length seg < 2 ^ 31"
  shows "S ! j \<le> length seg" "block_at dfa 4 blk j + code_len (blk j) \<le> length seg"
proof -
  have b: "bytecode_of dfa seg 4 blk S" unfolding bytecode_of_def
    using assms by (intro conjI exI [of _ "bytesOf 4 (int (length seg))"] exI [of _ "[]"]) simp_all
  have root: "dfa_root dfa < length (dfa_nodes dfa)" using assms(3) by (simp add: dfa_wf_def)
  obtain p q where "seg = p @ code (linked S) (block_at dfa 4 blk j) (blk j) @ q" "length p = block_at dfa 4 blk j"
    using block_located [OF b assms(4) root] by blast
  then show le: "block_at dfa 4 blk j + code_len (blk j) \<le> length seg" by simp
  have ok: "node_code_ok dfa 4 blk S j" using assms(2,4) by blast
  with assms(5) obtain ts where ts: "map shape (blk j) = node_shape dfa j ts" "S ! j = start_at dfa 4 blk j" by (auto simp: node_code_ok_def)
  obtain as "is" where "blk j = as @ is" "map shape as = map IAction (dfa_nodeActions dfa (dfa_nodes dfa ! j))"
    using map_eq_appendD [OF ts(1) [unfolded node_shape_def]] by (elim exE conjE)
  then have "actions_len dfa j \<le> code_len (blk j)" using actions_code by (simp add: actions_len_def)
  with le ts(2) show "S ! j \<le> length seg" unfolding start_at_def by (simp split: if_splits)
qed

lemma segment_shift:
  assumes seg: "dfa_segment dfa 0 seg" and wf: "dfa_wf dfa" and size: "pos + length seg < 2 ^ 30"
  shows "dfa_segment dfa pos seg"
proof -
  let ?n = "length (dfa_nodes dfa)"
  obtain blk S where s: "seg = bytesOf 4 (int (length seg)) @ code (linked S) 4 (concat (map blk (order dfa ?n)))"
    "\<forall>j < ?n. node_code_ok dfa 4 blk S j" "length seg \<le> 4 + max_code_size dfa" using seg by (auto simp: dfa_segment_def)
  let ?is = "concat (map blk (order dfa ?n))"
  define S' where "S' = map (\<lambda>d. pos + S ! d) [0..<?n]"
  have S': "S' ! d = pos + S ! d" if "d < ?n" for d using that by (simp add: S'_def)
  note dests = block_dests [OF wf s(2)]
  have root: "dfa_root dfa < ?n" using wf by (simp add: dfa_wf_def)
  have "\<forall>i \<in> set ?is. \<forall>d \<in> ins_dests i. S' ! d = pos + S ! d" using dests S' root by (auto simp: set_order)
  then have code: "code (linked S') (pos + 4) ?is = code (linked S) 4 ?is" by (rule code_shift)
  have at: "block_at dfa (pos + 4) blk j = pos + block_at dfa 4 blk j" "start_at dfa (pos + 4) blk j = pos + start_at dfa 4 blk j" for j
    by (simp_all add: block_at_def start_at_def)
  have "node_code_ok dfa (pos + 4) blk S' j" if j: "j < ?n" for j
  proof (cases "killed dfa j")
    case False
    have ok: "node_code_ok dfa 4 blk S j" using s(2) j by blast
    have "jump_ok S' (z, pos + p, pos + l, d)" if jp: "(z, p, l, d) \<in> set (jumps (block_at dfa 4 blk j) (blk j))" for z p l d
    proof -
      have d: "d < ?n" "\<not> killed dfa d" and p: "p < block_at dfa 4 blk j + code_len (blk j)"
        using jumps_set [OF jp] dests [OF j] by auto
      have "S ! d \<le> length seg" using segment_starts(1) [OF s(1,2) wf d] size by simp
      moreover have "block_at dfa 4 blk j + code_len (blk j) \<le> length seg" using segment_starts(2) [OF s(1,2) wf j False] size by simp
      moreover have "jump_ok S (z, p, l, d)" using ok False jp by (simp add: node_code_ok_def)
      ultimately show ?thesis using S' [OF d(1)] p size by (simp add: jump_ok_def)
    qed
    then have "\<forall>jp \<in> set (jumps (pos + block_at dfa 4 blk j) (blk j)). jump_ok S' jp" by (auto simp: jumps_shift)
    with ok False S' [OF j] show ?thesis by (simp add: node_code_ok_def at)
  qed (use s(2) j in \<open>simp add: node_code_ok_def\<close>)
  with s code show ?thesis unfolding dfa_segment_def by (intro conjI exI [of _ blk] exI [of _ S']) simp_all
qed

text \<open>Every automaton of a rule list is compiled into a vector of its own, and the vectors are written
  one after another.\<close>

primrec compile_all :: "DFA list \<Rightarrow> byte list option" where
  "compile_all [] = Some []"
| "compile_all (dfa # dfas) = do { bytes \<leftarrow> compile dfa []; rest \<leftarrow> compile_all dfas; Some (bytes @ rest) }"

primrec segments :: "DFA list \<Rightarrow> nat \<Rightarrow> byte list \<Rightarrow> bool" where
  "segments [] pos bytes \<longleftrightarrow> bytes = []"
| "segments (dfa # dfas) pos bytes \<longleftrightarrow>
     (\<exists>seg rest. bytes = seg @ rest \<and> dfa_segment dfa pos seg \<and> segments dfas (pos + length seg) rest)"

primrec collected_all :: "DFA list \<Rightarrow> bool \<Rightarrow> input \<Rightarrow> uint64 set" where
  "collected_all [] first w = {}"
| "collected_all (dfa # dfas) first w = collected dfa first w \<union> collected_all dfas False w"

definition total_size :: "DFA list \<Rightarrow> nat" where
  "total_size dfas = sum_list (map (\<lambda>dfa. 4 + max_code_size dfa) dfas)"

lemma compile_all_segments:
  assumes "\<forall>dfa \<in> set dfas. dfa_wf dfa \<and> length (dfa_nodes dfa) < 2 ^ 32 - 1" "pos + total_size dfas < 2 ^ 30"
  shows "\<exists>bytes. compile_all dfas = Some bytes \<and> segments dfas pos bytes \<and> length bytes \<le> total_size dfas"
  using assms
proof (induction dfas arbitrary: pos)
  case (Cons dfa dfas)
  have wf: "dfa_wf dfa" and s: "pos + (4 + max_code_size dfa) + total_size dfas < 2 ^ 30" using Cons.prems by (simp_all add: total_size_def)
  obtain seg where seg: "compile dfa [] = Some seg" "dfa_segment dfa 0 seg"
    using compile_segment [of dfa "[]"] Cons.prems(1) s by auto
  have len: "length seg \<le> 4 + max_code_size dfa" using seg(2) by (simp add: dfa_segment_def)
  have shift: "dfa_segment dfa pos seg" using segment_shift [OF seg(2) wf, of pos] len s by simp
  obtain bytes where "compile_all dfas = Some bytes" "segments dfas (pos + length seg) bytes" "length bytes \<le> total_size dfas"
    using Cons.IH [of "pos + length seg"] Cons.prems(1) len s by auto
  with seg shift len show ?case by (intro exI [of _ "seg @ bytes"]) (auto simp: total_size_def)
qed simp

lemma run_segments:
  assumes "segments dfas pos bytes" "bc = pre @ bytes" "length pre = pos" "length bc < 2 ^ 31" "\<forall>dfa \<in> set dfas. interpretable dfa"
    and dm: "dom_ok dm" and "ht_wf actionSetTraits acts" and chars: "\<forall>c \<in> set url. 1 \<le> c \<and> c < 128"
  shows "\<exists>acts'. interpretDFAs bc dm url flags pos acts = Some acts' \<and> ht_wf actionSetTraits acts' \<and>
    set (ht_values acts') = set (ht_values acts) \<union> {a \<in> collected_all dfas (pos = 0) (url @ [0]). selected flags dm a}"
  using assms(1-5,7)
proof (induction dfas arbitrary: pos bytes pre acts)
  case Nil
  then show ?case by (subst interpretDFAs.simps) auto
next
  case (Cons dfa dfas)
  then obtain seg rest where s: "bytes = seg @ rest" "dfa_segment dfa pos seg" "segments dfas (pos + length seg) rest" by auto
  have bc: "bc = pre @ seg @ rest" using Cons.prems(2) s(1) by simp
  have ok: "interpretable dfa" using Cons.prems(5) by simp
  obtain acts1 where a1: "interpretDFAs bc dm url flags pos acts = interpretDFAs bc dm url flags (pos + length seg) acts1"
    "ht_wf actionSetTraits acts1"
    "set (ht_values acts1) = set (ht_values acts) \<union> {a \<in> collected dfa (pos = 0) (url @ [0]). selected flags dm a}"
    using run_segment [OF bc Cons.prems(3,4) s(2) ok dm Cons.prems(6) chars, of flags] by blast
  have "4 \<le> length seg" using s(2) unfolding dfa_segment_def by (metis le_add1 length_append length_bytesOf)
  then have "seg \<noteq> []" by auto
  moreover obtain acts2 where "interpretDFAs bc dm url flags (pos + length seg) acts1 = Some acts2" "ht_wf actionSetTraits acts2"
    "set (ht_values acts2) = set (ht_values acts1) \<union> {a \<in> collected_all dfas (pos + length seg = 0) (url @ [0]). selected flags dm a}"
    using Cons.IH [OF s(3) _ _ Cons.prems(4) _ a1(2), of "pre @ seg"] bc Cons.prems(3,5) by (elim exE conjE meta_impE) simp_all
  ultimately show ?case using a1 by (intro exI [of _ acts2]) auto
qed

lemma everything_segments:
  assumes "segments (dfa # dfas) 0 bc" "length bc < 2 ^ 31" "interpretable dfa"
  shows "\<exists>acts. actionsMatchingEverything bc = Some acts \<and> ht_wf actionSetTraits acts \<and>
    set (ht_values acts) = {a \<in> root_actions dfa. \<not> has_flags a}"
proof -
  obtain seg rest where s: "bc = [] @ seg @ rest" "dfa_segment dfa 0 seg" using assms(1) by auto
  have root: "dfa_root dfa < length (dfa_nodes dfa)" "\<not> killed dfa (dfa_root dfa)" using assms(3) by (simp_all add: interpretable_def dfa_wf_def)
  obtain S as q v where loc: "bc = bytesOf 4 (int (length seg)) @ code (linked S) 4 as @ q"
    and sh: "map shape as = map IAction (dfa_nodeActions dfa (dfa_nodes dfa ! dfa_root dfa))" and lt: "4 + code_len as < length seg"
    and v: "getInstruction bc (4 + code_len as) = Some v" "\<not> is_action_value v"
    using segment_root [OF s(1) _ assms(2) s(2) assms(3)] by auto
  have "getBits 4 bc 0 = Some (bytesOf 4 (int (length seg)))"
    using getBits_at [of "[]" 0 "bytesOf 4 (int (length seg))" 4 "code (linked S) 4 as @ q"] loc by (simp del: bytesOf.simps)
  moreover have "unsignedOf (bytesOf 4 (int (length seg))) = int (length seg)" using unsignedOf_id [of "int (length seg)" 4] assms(2) s(1) by simp
  moreover have "\<forall>a \<in> set (dfa_nodeActions dfa (dfa_nodes dfa ! dfa_root dfa)). uint a < 2 ^ 49" using assms(3) root by (simp add: interpretable_def)
  ultimately show ?thesis
    using everything_run [OF loc _ assms(2) sh _ ht_wf_empty(1) lt v]
    by (simp add: actionsMatchingEverything_def root_actions_def ht_wf_empty(2) del: bytesOf.simps)
qed

section \<open>The nodes that the bytecode enters\<close>

text \<open>No node's transition on the end of the string goes where its fallback goes.\<close>

definition end_distinct :: "DFA \<Rightarrow> bool" where
  "end_distinct dfa \<longleftrightarrow> (\<forall>j < length (dfa_nodes dfa). \<not> killed dfa j \<longrightarrow> canUseFallbackTransition dfa (dfa_nodes dfa ! j) \<longrightarrow>
     dfa_step dfa j 0 = None \<or> dfa_step dfa j 0 \<noteq> bestFallbackTarget dfa (dfa_nodes dfa ! j))"

definition reached :: "DFA \<Rightarrow> nat \<Rightarrow> input \<Rightarrow> nat set" where
  "reached dfa j w = {t. \<exists>p. prefix p w \<and> p \<noteq> [] \<and> dfa_run dfa j p = Some t}"

lemma reached_Nil: "reached dfa j [] = {}"
  by (simp add: reached_def)

lemma visited_reached: "(\<exists>p. prefix p w \<and> dfa_run dfa s p = Some t) \<longleftrightarrow> t = s \<or> t \<in> reached dfa s w"
proof -
  have p: "prefix p w \<longleftrightarrow> p = [] \<or> prefix p w \<and> p \<noteq> []" for p by auto
  show ?thesis by (subst p) (auto simp: reached_def)
qed

lemma reached_Cons:
  "reached dfa j (c # w) = (case dfa_step dfa j c of None \<Rightarrow> {} | Some t \<Rightarrow> insert t (reached dfa t w))"
proof -
  have p: "prefix p (c # w) \<and> p \<noteq> [] \<longleftrightarrow> (\<exists>q. p = c # q \<and> prefix q w)" for p by (cases p) auto
  have "t \<in> reached dfa j (c # w) \<longleftrightarrow> (\<exists>p. prefix p w \<and> dfa_run dfa j (c # p) = Some t)" for t
    unfolding reached_def mem_Collect_eq conj_assoc [symmetric] p by blast
  then show ?thesis by (auto simp: visited_reached split: option.splits)
qed

lemma bc_reach_reached: "set (bc_reach dfa j w) \<subseteq> reached dfa j w"
proof (induction w arbitrary: j)
  case (Cons c w)
  show ?case
  proof (cases "bc_step dfa j c")
    case (Some t)
    then have "dfa_step dfa j c = Some t" by (auto simp: bc_step_def split: option.splits if_splits)
    with Some Cons.IH [of t] show ?thesis by (auto simp: reached_Cons)
  qed simp
qed simp

lemma bc_reach_eq:
  assumes "dfa_wf dfa" "end_distinct dfa" "j < length (dfa_nodes dfa)" "\<not> killed dfa j"
  shows "set (bc_reach dfa j w) = reached dfa j w"
  using assms(3,4)
proof (induction w arbitrary: j)
  case (Cons c w)
  have "bc_step dfa j c = dfa_step dfa j c" using assms(2) Cons.prems by (auto simp: bc_step_def end_distinct_def split: option.splits)
  then show ?case using bc_step_target [OF assms(1) Cons.prems, of c] Cons.IH by (auto simp: reached_Cons split: option.splits)
qed (simp add: reached_Nil)

definition prefix_actions :: "DFA \<Rightarrow> input \<Rightarrow> uint64 set" where
  "prefix_actions dfa w = {a. \<exists>p. prefix p w \<and> a \<in> dfa_accepts dfa p}"

lemma prefix_actions_reached:
  "prefix_actions dfa w = root_actions dfa \<union> (\<Union>t \<in> reached dfa (dfa_root dfa) w. entry_actions dfa t)"
proof -
  have "a \<in> prefix_actions dfa w \<longleftrightarrow>
      (\<exists>t. (\<exists>p. prefix p w \<and> dfa_run dfa (dfa_root dfa) p = Some t) \<and> a \<in> set (dfa_nodeActions dfa (dfa_nodes dfa ! t)))" for a
    by (auto simp: prefix_actions_def dfa_accepts_def dfa_accepts_from_def split: option.splits)
  then show ?thesis by (auto simp: visited_reached root_actions_def entry_actions_def)
qed

lemma collected_sound: "collected dfa first w \<subseteq> prefix_actions dfa w"
  using bc_reach_reached [of dfa "dfa_root dfa" w]
  by (auto simp: prefix_actions_reached collected_def entered_actions_def)

lemma collected_complete:
  assumes "dfa_wf dfa" "end_distinct dfa"
  shows "prefix_actions dfa w = collected dfa first w \<union> {a \<in> root_actions dfa. first \<and> \<not> has_flags a}"
proof -
  have "set (bc_reach dfa (dfa_root dfa) w) = reached dfa (dfa_root dfa) w"
    by (rule bc_reach_eq [OF assms]) (use assms(1) in \<open>simp_all add: dfa_wf_def\<close>)
  then show ?thesis by (auto simp: prefix_actions_reached collected_def entered_actions_def)
qed

lemma collected_all_sound: "collected_all dfas first w \<subseteq> (\<Union>dfa \<in> set dfas. prefix_actions dfa w)"
  using collected_sound by (induction dfas arbitrary: first) fastforce+

lemma collected_all_complete:
  assumes "\<forall>dfa \<in> set dfas. dfa_wf dfa \<and> end_distinct dfa"
  shows "(\<Union>dfa \<in> set dfas. prefix_actions dfa w) =
    collected_all dfas first w \<union> (if dfas = [] then {} else {a \<in> root_actions (hd dfas). first \<and> \<not> has_flags a})"
  using assms
proof (induction dfas arbitrary: first)
  case (Cons dfa dfas)
  have "(\<Union>dfa \<in> set dfas. prefix_actions dfa w) = collected_all dfas False w" using Cons.IH [of False] Cons.prems by simp
  moreover have "prefix_actions dfa w = collected dfa first w \<union> {a \<in> root_actions dfa. first \<and> \<not> has_flags a}"
    using Cons.prems by (intro collected_complete) simp_all
  ultimately show ?case by auto
qed simp

text \<open>The whole: compile, then interpret.\<close>

lemma compiled_run:
  assumes "\<forall>dfa \<in> set dfas. interpretable dfa \<and> length (dfa_nodes dfa) < 2 ^ 32 - 1" "total_size dfas < 2 ^ 30"
    "dom_ok dm" "\<forall>c \<in> set url. 1 \<le> c \<and> c < 128"
  shows "\<exists>bytecode acts. compile_all dfas = Some bytecode \<and> segments dfas 0 bytecode \<and> length bytecode < 2 ^ 31 \<and>
    interpretBytecode bytecode dm url flags = Some acts \<and> ht_wf actionSetTraits acts \<and>
    set (ht_values acts) = {a \<in> collected_all dfas True (url @ [0]). selected flags dm a}"
proof -
  obtain bytes where b: "compile_all dfas = Some bytes" "segments dfas 0 bytes" "length bytes \<le> total_size dfas"
    using compile_all_segments [of dfas 0] assms(1,2) by (auto simp: interpretable_def)
  have len: "length bytes < 2 ^ 31" using b(3) assms(2) by simp
  have "\<forall>dfa \<in> set dfas. interpretable dfa" using assms(1) by blast
  from run_segments [OF b(2) _ _ len this assms(3) ht_wf_empty(1) assms(4), of "[]" flags] b len
  show ?thesis by (simp add: interpretBytecode_def ht_wf_empty(2))
qed

section \<open>The size of the bytecode\<close>

lemma collectRanges_length: "length (collectRanges is m destinations ranges) \<le> length ranges + length is + 1"
proof (induction "is" m destinations ranges rule: collectRanges.induct)
  case (3 i rest rangeMin destinations ranges)
  have "length (snd (closeRange rangeMin (i - 1) destinations ranges)) = length ranges + 1" by (simp add: closeRange_def Let_def)
  with 3 show ?case by (cases "closeRange rangeMin (i - 1) destinations ranges") (fastforce simp: Let_def)
next
  case (4 i rest destinations ranges)
  then show ?case by (cases "destinations ! i \<noteq> noDestination") simp_all
qed simp_all

lemma collectJumpTables_length:
  "collectJumpTables before run rest tables = (tables', ranges) \<Longrightarrow>
   sum_list (map (length \<circ> jt_destinations) tables') + length ranges =
   sum_list (map (length \<circ> jt_destinations) tables) + length before + length run + length rest"
proof (induction before run rest tables rule: collectJumpTables.induct)
  case (1 before run tables)
  then show ?case by (auto simp: extractJumpTable_def split: if_splits)
next
  case (2 before run r rest tables)
  then show ?case by (auto simp: extractJumpTable_def split: if_splits)
qed

lemma transitions_size:
  assumes "node_wf_dfa dfa node" "length (dfa_nodes dfa) < 2 ^ 32 - 1"
  shows "\<exists>size. nodeTransitionsMaxBytecodeSize dfa node = Some size \<and> size \<le> 908"
proof -
  obtain ts where ts: "nodeTransitions dfa node = Some ts" "transitions_ok dfa node ts" using nodeTransitions_ok [OF assms] by blast
  let ?n = "sum_list (map (length \<circ> jt_destinations) (t_jumpTables ts)) + length (t_ranges ts)"
  obtain destinations where "collectJumpTables [] [] (collectRanges [0..<128] None destinations []) [] = (t_jumpTables ts, t_ranges ts)"
    using ts(1) by (auto simp: nodeTransitions_def Let_def split: prod.splits bind_splits)
  then have n: "?n \<le> 129" using collectJumpTables_length collectRanges_length [of "[0..<128]" None destinations "[]"] by fastforce
  have "sum_list (map checkForJumpTableMaxBytecodeSize (t_jumpTables ts)) \<le> sum_list (map (\<lambda>jt. 7 * length (jt_destinations jt)) (t_jumpTables ts))"
    using ts(2) by (intro sum_list_mono) (auto simp: transitions_ok_def table_wf_def checkForJumpTableMaxBytecodeSize_def)
  then have "sum_list (map checkForJumpTableMaxBytecodeSize (t_jumpTables ts)) \<le> 7 * sum_list (map (length \<circ> jt_destinations) (t_jumpTables ts))"
    by (simp add: sum_list_const_mult comp_def)
  moreover have "sum_list (map checkForRangeMaxBytecodeSize (t_ranges ts)) \<le> sum_list (map (\<lambda>r. 7) (t_ranges ts))"
    by (intro sum_list_mono) (simp add: checkForRangeMaxBytecodeSize_def)
  ultimately show ?thesis using n by (simp add: nodeTransitionsMaxBytecodeSize_def ts(1) sum_list_triv)
qed

definition size_bound :: "DFA \<Rightarrow> nat" where
  "size_bound dfa = 8 + sum_list (map (\<lambda>node. 908 + 7 * m_actionsLength node) (dfa_nodes dfa))"

lemma max_size_bound:
  assumes "dfa_wf dfa" "length (dfa_nodes dfa) < 2 ^ 32 - 1" "j < length (dfa_nodes dfa)"
  shows "max_size dfa j \<le> 908 + 7 * m_actionsLength (dfa_nodes dfa ! j)"
proof (cases "killed dfa j")
  case False
  have "node_wf_dfa dfa (dfa_nodes dfa ! j)" using assms False by (simp add: dfa_wf_def)
  from transitions_size [OF this assms(2)] obtain size where s: "nodeTransitionsMaxBytecodeSize dfa (dfa_nodes dfa ! j) = Some size" "size \<le> 908" by blast
  have "sum_list (map appendActionBytecodeSize as) \<le> 7 * length as" for as
    by (induction as) (simp_all add: action_size)
  from this [of "dfa_nodeActions dfa (dfa_nodes dfa ! j)"] s False show ?thesis
    by (simp add: max_size_def compiledNodeMaxBytecodeSize_def dfa_nodeActions_def Let_def)
qed (simp add: max_size_def compiledNodeMaxBytecodeSize_def)

lemma max_code_size_bound:
  assumes "dfa_wf dfa" "length (dfa_nodes dfa) < 2 ^ 32 - 1"
  shows "4 + max_code_size dfa \<le> size_bound dfa"
proof -
  let ?n = "length (dfa_nodes dfa)" and ?f = "\<lambda>j. 908 + 7 * m_actionsLength (dfa_nodes dfa ! j)"
  have o: "set (order dfa ?n) = {..<?n}" "distinct (order dfa ?n)" using assms(1) by (auto simp: order_def dfa_wf_def)
  have "sum_list (map (max_size dfa) (order dfa ?n)) \<le> sum_list (map ?f (order dfa ?n))"
    using max_size_bound [OF assms] o(1) by (intro sum_list_mono) auto
  also have "\<dots> = sum ?f {..<?n}" by (simp add: sum_list_distinct_conv_sum_set o)
  also have "\<dots> = sum_list (map ?f [0..<?n])" by (simp add: sum_list_distinct_conv_sum_set atLeast0LessThan)
  also have "map ?f [0..<?n] = map (\<lambda>node. 908 + 7 * m_actionsLength node) (dfa_nodes dfa)" by (rule nth_equalityI) simp_all
  finally show ?thesis by (simp add: max_code_size_def size_bound_def)
qed

lemma total_size_bound:
  assumes "\<forall>dfa \<in> set dfas. dfa_wf dfa \<and> length (dfa_nodes dfa) < 2 ^ 32 - 1"
  shows "total_size dfas \<le> sum_list (map size_bound dfas)"
  unfolding total_size_def using assms max_code_size_bound by (intro sum_list_mono) blast

text \<open>C6: The compiler appends the bytes of an automaton to the bytecode and leaves what is
  there. It returns, and the bytes it appends are at most 8 for the automaton, 908 for each node
  and 7 for each action of a node; their number is what the 32-bit header of the automaton holds.\<close>

theorem compile_bounded:
  assumes "dfa_wf dfa" "length (dfa_nodes dfa) < 2 ^ 32 - 1" "length bytecode + size_bound dfa < 2 ^ 30"
  shows "\<exists>bytes. compile dfa bytecode = Some (bytecode @ bytes) \<and> length bytes \<le> size_bound dfa \<and>
    map_option (nat \<circ> unsignedOf) (getBits 4 (bytecode @ bytes) (length bytecode)) = Some (length bytes)"
proof -
  note b = max_code_size_bound [OF assms(1,2)]
  have "length bytecode + 4 + max_code_size dfa < 2 ^ 30" using b assms(3) by simp
  from compile_segment [OF assms(1,2) this] obtain seg where s: "compile dfa bytecode = Some (bytecode @ seg)" "dfa_segment dfa (length bytecode) seg" by blast
  have len: "length seg \<le> size_bound dfa" using s(2) b by (simp add: dfa_segment_def)
  obtain rest where "seg = bytesOf 4 (int (length seg)) @ rest" using s(2) unfolding dfa_segment_def by blast
  then have "getBits 4 (bytecode @ seg) (length bytecode) = Some (bytesOf 4 (int (length seg)))"
    using getBits_at [of bytecode "length bytecode" "bytesOf 4 (int (length seg))" 4 rest] by simp
  moreover have "unsignedOf (bytesOf 4 (int (length seg))) = int (length seg)" using unsignedOf_id [of "int (length seg)" 4] len assms(3) by simp
  ultimately show ?thesis using s(1) len by (intro exI [of _ seg]) simp
qed

section \<open>What the interpreter reports\<close>

text \<open>C4: The bytecode compiled from a list of automata, run by the interpreter, reports
  what the automata say. The compiler returns a bytecode. The actions that match everything, taken
  together with those that the interpreter reports for a URL, are exactly the actions that some
  automaton has after some prefix of the URL and its terminator and that the flags of the load and the
  domain select. The automata are well formed, their bytecode has fewer than 2^30 bytes, and in none of
  them a transition on the end of the string has the target of the fallback of its node.\<close>

theorem interpret_correct:
  assumes "dfas \<noteq> []" "\<forall>dfa \<in> set dfas. interpretable dfa \<and> end_distinct dfa \<and> length (dfa_nodes dfa) < 2 ^ 32 - 1"
    "sum_list (map size_bound dfas) < 2 ^ 30" "dom_ok dm" "\<forall>c \<in> set url. 1 \<le> c \<and> c < 128"
  shows "\<exists>bytecode universal acts. compile_all dfas = Some bytecode \<and>
    actionsMatchingEverything bytecode = Some universal \<and> interpretBytecode bytecode dm url flags = Some acts \<and>
    set (ht_values acts) \<union> {a \<in> set (ht_values universal). selected flags dm a} =
      {a \<in> \<Union>dfa \<in> set dfas. prefix_actions dfa (url @ [0]). selected flags dm a}"
proof -
  obtain dfa rest where d: "dfas = dfa # rest" using assms(1) by (cases dfas) auto
  have ok: "\<forall>dfa \<in> set dfas. interpretable dfa \<and> length (dfa_nodes dfa) < 2 ^ 32 - 1" "\<forall>dfa \<in> set dfas. dfa_wf dfa \<and> end_distinct dfa"
    using assms(2) by (auto simp: interpretable_def)
  have "total_size dfas < 2 ^ 30" using total_size_bound [of dfas] ok assms(3) by auto
  from compiled_run [OF ok(1) this assms(4,5), of flags] obtain bytecode acts where
    r: "compile_all dfas = Some bytecode" "segments dfas 0 bytecode" "length bytecode < 2 ^ 31"
    "interpretBytecode bytecode dm url flags = Some acts"
    "set (ht_values acts) = {a \<in> collected_all dfas True (url @ [0]). selected flags dm a}" by (elim exE conjE)
  have "interpretable dfa" using ok(1) d by simp
  from everything_segments [OF r(2) [unfolded d] r(3) this] obtain universal where
    u: "actionsMatchingEverything bytecode = Some universal" "set (ht_values universal) = {a \<in> root_actions dfa. \<not> has_flags a}" by (elim exE conjE)
  show ?thesis
    using r u collected_all_complete [OF ok(2), of "url @ [0]" True] d
    by (intro exI [of _ bytecode] exI [of _ universal] exI [of _ acts]) auto
qed

text \<open>The automaton of the rules a and a followed by b, with one action for each.\<close>

definition run_dfa :: DFA where
  "run_dfa = \<lparr>dfa_nodes = [\<lparr>m_actionsStart = 0, m_transitionsStart = 0, m_actionsLength = 1, m_transitionsLength = 1, m_isKilled = False\<rparr>,
       \<lparr>m_actionsStart = 1, m_transitionsStart = 1, m_actionsLength = 1, m_transitionsLength = 1, m_isKilled = False\<rparr>,
       \<lparr>m_actionsStart = 2, m_transitionsStart = 2, m_actionsLength = 1, m_transitionsLength = 0, m_isKilled = False\<rparr>],
     dfa_actions = [5, 7, 9], transitionRanges = [\<lparr>cr_first = 97, cr_last = 97\<rparr>, \<lparr>cr_first = 98, cr_last = 98\<rparr>],
     transitionDestinations = [1, 2], dfa_root = 0\<rparr>"

lemma run_dfa_nodes:
  "dfa_transitions run_dfa (dfa_nodes run_dfa ! 0) = [(97, 97, 1)]" "dfa_transitions run_dfa (dfa_nodes run_dfa ! 1) = [(98, 98, 2)]"
  "dfa_transitions run_dfa (dfa_nodes run_dfa ! 2) = []" "length (dfa_nodes run_dfa) = 3"
  "dfa_nodeActions run_dfa (dfa_nodes run_dfa ! 0) = [5]" "dfa_nodeActions run_dfa (dfa_nodes run_dfa ! 1) = [7]"
  "dfa_nodeActions run_dfa (dfa_nodes run_dfa ! 2) = [9]"
  by (simp_all add: run_dfa_def dfa_transitions_def dfa_nodeActions_def)

lemma less_3: "(\<forall>j < (3 :: nat). P j) \<longleftrightarrow> P 0 \<and> P 1 \<and> P 2"
  by (auto simp: numeral_3_eq_3 less_Suc_eq numeral_2_eq_2)

lemma run_dfa_ok: "interpretable run_dfa" "end_distinct run_dfa"
proof -
  have "dfa_wf run_dfa" by (simp add: dfa_wf_def node_wf_dfa_def dfa_transitions_def run_dfa_def)
  then show "interpretable run_dfa" unfolding interpretable_def run_dfa_nodes(4) less_3
    by (simp add: run_dfa_nodes [unfolded One_nat_def] dfa_step_def canUseFallbackTransition_def)
  show "end_distinct run_dfa" unfolding end_distinct_def run_dfa_nodes(4) less_3
    by (simp add: run_dfa_nodes [unfolded One_nat_def] dfa_step_def canUseFallbackTransition_def)
qed

lemma run_dfa_size: "size_bound run_dfa < 2 ^ 29"
  by (simp add: size_bound_def run_dfa_def)

theorem interpret_correct_witness:
  "\<exists>bytecode universal acts. compile_all [run_dfa] = Some bytecode \<and>
    actionsMatchingEverything bytecode = Some universal \<and> interpretBytecode bytecode None [97] 0 = Some acts \<and>
    set (ht_values acts) \<union> {a \<in> set (ht_values universal). selected 0 None a} =
      {a \<in> prefix_actions run_dfa [97, 0]. selected 0 None a}"
  using interpret_correct [of "[run_dfa]" None "[97]" 0] run_dfa_ok run_dfa_size run_dfa_nodes(4) by (simp add: dom_ok_def)

theorem compile_bounded_witness:
  "\<exists>bytes. compile run_dfa [1] = Some ([1] @ bytes) \<and> length bytes \<le> size_bound run_dfa \<and>
    map_option (nat \<circ> unsignedOf) (getBits 4 ([1] @ bytes) 1) = Some (length bytes)"
  using compile_bounded [of run_dfa "[1]"] run_dfa_ok(1) run_dfa_size run_dfa_nodes(4) by (simp add: interpretable_def)

text \<open>The two conditions on an automaton besides being well formed: its actions have no bits above those of the
  flags, and the end of the string never leads to a node with a fallback.\<close>

definition actions_fit :: "DFA \<Rightarrow> bool" where
  "actions_fit dfa \<longleftrightarrow> (\<forall>j < length (dfa_nodes dfa). \<not> killed dfa j \<longrightarrow>
     (\<forall>a \<in> set (dfa_nodeActions dfa (dfa_nodes dfa ! j)). uint a < 2 ^ 49))"

definition end_stops :: "DFA \<Rightarrow> bool" where
  "end_stops dfa \<longleftrightarrow> (\<forall>j < length (dfa_nodes dfa). \<not> killed dfa j \<longrightarrow>
     (\<forall>t. dfa_step dfa j 0 = Some t \<longrightarrow> \<not> canUseFallbackTransition dfa (dfa_nodes dfa ! t)))"

lemma interpretable_iff: "interpretable dfa \<longleftrightarrow> dfa_wf dfa \<and> actions_fit dfa \<and> end_stops dfa"
  by (auto simp: interpretable_def actions_fit_def end_stops_def)

text \<open>C5: On the bytecode of well-formed automata whose actions fit and in which the end of the string leads to
  no node with a fallback, the interpreter ends for every URL, flags and domain: no instruction is unknown, no
  byte is read outside of the bytecode or of the URL, and no loop is entered. It reports only
  actions that some automaton has after a prefix of the URL and its terminator, and only actions that
  the flags and the domain select. A node with a fallback behind the end of the string is excluded: there
  the interpreter would advance behind the terminator.\<close>

theorem interpret_safe:
  assumes "\<forall>dfa \<in> set dfas. dfa_wf dfa \<and> actions_fit dfa \<and> end_stops dfa \<and> length (dfa_nodes dfa) < 2 ^ 32 - 1"
    "sum_list (map size_bound dfas) < 2 ^ 30" "dom_ok dm" "\<forall>c \<in> set url. 1 \<le> c \<and> c < 128"
  shows "\<exists>bytecode acts. compile_all dfas = Some bytecode \<and> interpretBytecode bytecode dm url flags = Some acts \<and>
    ht_wf actionSetTraits acts \<and>
    set (ht_values acts) \<subseteq> {a \<in> \<Union>dfa \<in> set dfas. prefix_actions dfa (url @ [0]). selected flags dm a}"
proof -
  have ok: "\<forall>dfa \<in> set dfas. interpretable dfa \<and> length (dfa_nodes dfa) < 2 ^ 32 - 1"
    using assms(1) by (simp add: interpretable_iff)
  have "total_size dfas < 2 ^ 30" using total_size_bound [of dfas] assms(1,2) by simp
  from compiled_run [OF ok this assms(3,4), of flags] collected_all_sound [of dfas True "url @ [0]"]
  show ?thesis by (elim exE conjE) (intro exI conjI, assumption+, auto)
qed

text \<open>The automaton of the rules a at the end of the string and a followed by any character, both with
  the same action, after minimization.\<close>

definition end_dfa :: DFA where
  "end_dfa = \<lparr>dfa_nodes = [\<lparr>m_actionsStart = 0, m_transitionsStart = 0, m_actionsLength = 0, m_transitionsLength = 1, m_isKilled = False\<rparr>,
       \<lparr>m_actionsStart = 0, m_transitionsStart = 1, m_actionsLength = 0, m_transitionsLength = 1, m_isKilled = False\<rparr>,
       \<lparr>m_actionsStart = 0, m_transitionsStart = 2, m_actionsLength = 1, m_transitionsLength = 0, m_isKilled = False\<rparr>],
     dfa_actions = [7], transitionRanges = [\<lparr>cr_first = 97, cr_last = 97\<rparr>, \<lparr>cr_first = 0, cr_last = 127\<rparr>],
     transitionDestinations = [1, 2], dfa_root = 0\<rparr>"

lemma end_dfa_nodes:
  "dfa_transitions end_dfa (dfa_nodes end_dfa ! 0) = [(97, 97, 1)]" "dfa_transitions end_dfa (dfa_nodes end_dfa ! 1) = [(0, 127, 2)]"
  "dfa_transitions end_dfa (dfa_nodes end_dfa ! 2) = []" "length (dfa_nodes end_dfa) = 3"
  "dfa_nodeActions end_dfa (dfa_nodes end_dfa ! 0) = []" "dfa_nodeActions end_dfa (dfa_nodes end_dfa ! 1) = []"
  "dfa_nodeActions end_dfa (dfa_nodes end_dfa ! 2) = [7]" "dfa_root end_dfa = 0"
  by (simp_all add: end_dfa_def dfa_transitions_def dfa_nodeActions_def)

lemma end_dfa_ok: "interpretable end_dfa"
proof -
  have "dfa_wf end_dfa" by (simp add: dfa_wf_def node_wf_dfa_def dfa_transitions_def end_dfa_def)
  then show ?thesis unfolding interpretable_def end_dfa_nodes(4) less_3
    by (simp add: end_dfa_nodes [unfolded One_nat_def] dfa_step_def canUseFallbackTransition_def)
qed

lemma end_dfa_size: "size_bound end_dfa < 2 ^ 29"
  by (simp add: size_bound_def end_dfa_def)

theorem interpret_safe_witness:
  "\<exists>bytecode acts. compile_all [end_dfa] = Some bytecode \<and> interpretBytecode bytecode None [97, 98] 0 = Some acts \<and>
    ht_wf actionSetTraits acts \<and> set (ht_values acts) \<subseteq> {a \<in> prefix_actions end_dfa [97, 98, 0]. selected 0 None a}"
  using interpret_safe [of "[end_dfa]" None "[97, 98]" 0] end_dfa_ok [unfolded interpretable_iff] end_dfa_size end_dfa_nodes(4)
  by (simp add: dom_ok_def)

lemma bc_reach_url: "\<forall>c \<in> set w. 1 \<le> c \<Longrightarrow> set (bc_reach dfa j w) = reached dfa j w"
proof (induction w arbitrary: j)
  case (Cons c w)
  then have "bc_step dfa j c = dfa_step dfa j c" by (auto simp: bc_step_def split: option.splits)
  with Cons show ?case by (auto simp: reached_Cons split: option.splits)
qed (simp add: reached_Nil)

lemma bc_reach_end:
  "\<forall>c \<in> set w. 1 \<le> c \<Longrightarrow> dfa_run dfa j w = Some k \<Longrightarrow> bc_step dfa k 0 = None \<Longrightarrow>
   bc_reach dfa j (w @ [0]) = bc_reach dfa j w"
proof (induction w arbitrary: j)
  case (Cons c w)
  then have "bc_step dfa j c = dfa_step dfa j c" by (auto simp: bc_step_def split: option.splits)
  with Cons show ?case by (auto split: option.splits)
qed simp

lemma dfa_run_append: "dfa_run dfa j (u @ v) = (case dfa_run dfa j u of None \<Rightarrow> None | Some k \<Rightarrow> dfa_run dfa k v)"
  by (induction u arbitrary: j) (auto split: option.splits)

text \<open>C12: A transition on the end of the string that has the target of the fallback of
  its node is lost: the compiler emits no check for it, because the fallback has its target, and the fallback is
  not taken at the end of the string. So if the automaton is in such a node after a URL, what the
  interpreter reports for the URL, taken together with the actions that match everything, are exactly the
  selected actions that the automaton has after the prefixes of the URL itself. The actions of the
  target, which the automaton has after the URL and its terminator, are not among them unless a
  prefix of the URL has them too.\<close>

theorem end_of_string_lost:
  assumes "dfa_wf dfa" "actions_fit dfa" "end_stops dfa" "length (dfa_nodes dfa) < 2 ^ 32 - 1" "size_bound dfa < 2 ^ 30"
    "dom_ok dm" "\<forall>c \<in> set url. 1 \<le> c \<and> c < 128"
    and "dfa_run dfa (dfa_root dfa) url = Some j" "canUseFallbackTransition dfa (dfa_nodes dfa ! j)"
    "dfa_step dfa j 0 = Some t" "bestFallbackTarget dfa (dfa_nodes dfa ! j) = Some t"
  shows "dfa_accepts dfa (url @ [0]) = set (dfa_nodeActions dfa (dfa_nodes dfa ! t)) \<and>
   (\<exists>bytecode universal acts. compile_all [dfa] = Some bytecode \<and> actionsMatchingEverything bytecode = Some universal \<and>
      interpretBytecode bytecode dm url flags = Some acts \<and>
      set (ht_values acts) \<union> {a \<in> set (ht_values universal). selected flags dm a} =
        {a \<in> prefix_actions dfa url. selected flags dm a})"
proof -
  have ok: "interpretable dfa" using assms(1-3) by (simp add: interpretable_iff)
  have "total_size [dfa] < 2 ^ 30" using total_size_bound [of "[dfa]"] assms(1,4,5) by simp
  from compiled_run [OF _ this assms(6,7), of flags] ok assms(4) obtain bytecode acts where
    r: "compile_all [dfa] = Some bytecode" "segments [dfa] 0 bytecode" "length bytecode < 2 ^ 31"
    "interpretBytecode bytecode dm url flags = Some acts"
    "set (ht_values acts) = {a \<in> collected_all [dfa] True (url @ [0]). selected flags dm a}" by auto
  obtain universal where
    u: "actionsMatchingEverything bytecode = Some universal" "set (ht_values universal) = {a \<in> root_actions dfa. \<not> has_flags a}"
    using everything_segments [OF r(2,3) ok] by (elim exE conjE)
  have w: "\<forall>c \<in> set url. 1 \<le> c" using assms(7) by blast
  have "bc_step dfa j 0 = None" using assms(9-11) by (simp add: bc_step_def)
  from bc_reach_end [OF w assms(8) this] bc_reach_url [OF w]
  have "set (bc_reach dfa (dfa_root dfa) (url @ [0])) = reached dfa (dfa_root dfa) url" by simp
  then have "collected_all [dfa] True (url @ [0]) \<union> {a \<in> root_actions dfa. \<not> has_flags a} = prefix_actions dfa url"
    by (auto simp: prefix_actions_reached collected_def entered_actions_def)
  moreover have "dfa_accepts dfa (url @ [0]) = set (dfa_nodeActions dfa (dfa_nodes dfa ! t))"
    using assms(8,10) by (simp add: dfa_accepts_def dfa_accepts_from_def dfa_run_append)
  ultimately show ?thesis using r u by auto
qed

theorem end_of_string_lost_witness:
  "dfa_accepts end_dfa [97, 0] = {7} \<and>
   (\<exists>bytecode acts. compile_all [end_dfa] = Some bytecode \<and> interpretBytecode bytecode None [97] 0 = Some acts \<and>
      7 \<notin> set (ht_values acts))"
proof -
  have f: "canUseFallbackTransition end_dfa (dfa_nodes end_dfa ! 1)" "bestFallbackTarget end_dfa (dfa_nodes end_dfa ! 1) = Some 2"
    "dfa_step end_dfa 1 0 = Some 2" "dfa_run end_dfa (dfa_root end_dfa) [97] = Some 1"
    by (simp_all add: dfa_step_def end_dfa_nodes [unfolded One_nat_def] canUseFallbackTransition_def bestFallbackTarget_def histogram_add_def)
  have "prefix_actions end_dfa [97] = {}"
    by (auto simp: prefix_actions_def prefix_Cons dfa_accepts_def dfa_accepts_from_def dfa_step_def end_dfa_nodes [unfolded One_nat_def])
  moreover have "length (dfa_nodes end_dfa) < 2 ^ 32 - 1" "size_bound end_dfa < 2 ^ 30" "dom_ok None" "\<forall>c \<in> set [97]. 1 \<le> c \<and> c < (128 :: int)"
    using end_dfa_size by (simp_all add: end_dfa_nodes dom_ok_def)
  ultimately show ?thesis
    using end_of_string_lost [OF _ _ _ _ _ _ _ f(4,1,3,2), of None 0] end_dfa_ok [unfolded interpretable_iff]
    by (auto simp: end_dfa_nodes [unfolded One_nat_def])
qed

end
