(* ===== verification/ContentExtension.thy ===== *)
theory ContentExtension
  imports ActionSerializer BytecodeRuns
begin

text \<open>
  \<^verbatim>\<open>CompiledContentExtension.h\<close> and \<^verbatim>\<open>ContentExtension.cpp\<close>: a compiled extension in memory. The actions that
  match every URL are collected once; those of them that hide elements and come before every action
  that ignores previous rules become a style sheet. The actions of the last domain are cached.
\<close>

section \<open>Operations\<close>

record CompiledContentExtension =
  filtersWithoutDomainsBytecode :: "byte list"
  filtersWithDomainsBytecode :: "byte list"
  domainFiltersBytecode :: "byte list"
  cce_actions :: "byte list"

text \<open>The style sheet is represented by the text it was parsed from.\<close>

record ContentExtension =
  m_identifier :: String
  m_compiledExtension :: CompiledContentExtension
  m_globalDisplayNoneStyleSheet :: "String option"
  m_cachedDomain :: String
  m_cachedDomainActions :: Actions
  m_cachedUniversalDomainActions :: "nat list"
  m_universalActionsWithoutDomains :: "nat list"
  m_universalActionsWithDomains :: "uint64 list"

text \<open>\<^verbatim>\<open>static_cast<uint32_t>(action)\<close>\<close>

definition locationOf :: "uint64 \<Rightarrow> nat" where
  "locationOf action = unat (ucast action :: uint32)"

text \<open>\<^verbatim>\<open>utf8()\<close> of a string of ASCII characters; other strings are not modelled.\<close>

definition asciiCharacters :: "String \<Rightarrow> charval list option" where
  "asciiCharacters s = (if \<forall>c \<in> set (string_chars s). c < 128 then Some (map uint (string_chars s)) else None)"

partial_function (option) findFirstIgnorePreviousRules_loop :: "byte list \<Rightarrow> nat \<Rightarrow> nat option" where
  "findFirstIgnorePreviousRules_loop actions currentActionIndex =
     (if currentActionIndex < length actions then do {
        t \<leftarrow> deserializeType actions currentActionIndex;
        if t = IgnorePreviousRules then Some currentActionIndex
        else do {
          n \<leftarrow> serializedLength actions currentActionIndex;
          findFirstIgnorePreviousRules_loop actions ((currentActionIndex + n) mod 2 ^ 32)
        }
      }
      else Some (2 ^ 32 - 1))"

definition findFirstIgnorePreviousRules :: "ContentExtension \<Rightarrow> nat option" where
  "findFirstIgnorePreviousRules e = findFirstIgnorePreviousRules_loop (cce_actions (m_compiledExtension e)) 0"

definition inGlobalDisplayNoneStyleSheet :: "byte list \<Rightarrow> nat \<Rightarrow> nat \<Rightarrow> bool option" where
  "inGlobalDisplayNoneStyleSheet actions firstIgnorePreviousRules location =
     (if location < firstIgnorePreviousRules then do {
        t \<leftarrow> deserializeType actions location;
        Some (t = CSSDisplayNoneSelector)
      }
      else Some False)"

fun collectSelectors :: "byte list \<Rightarrow> nat \<Rightarrow> nat list \<Rightarrow> StringBuilder \<Rightarrow> StringBuilder option" where
  "collectSelectors actions firstIgnorePreviousRules [] css = Some css"
| "collectSelectors actions firstIgnorePreviousRules (location # rest) css = do {
     inSheet \<leftarrow> inGlobalDisplayNoneStyleSheet actions firstIgnorePreviousRules location;
     if inSheet then do {
       css \<leftarrow> (if \<not> sb_isEmpty css then sb_appendChar 44 css else Some css);
       action \<leftarrow> deserialize actions location;
       css \<leftarrow> sb_appendString (m_stringArgument action) css;
       collectSelectors actions firstIgnorePreviousRules rest css
     }
     else collectSelectors actions firstIgnorePreviousRules rest css
   }"

text \<open>\<^verbatim>\<open>Vector::removeAllMatching\<close> for a predicate that may fail an assertion.\<close>

fun removeAllMatching :: "('a \<Rightarrow> bool option) \<Rightarrow> 'a list \<Rightarrow> 'a list option" where
  "removeAllMatching p [] = Some []"
| "removeAllMatching p (x # xs) = do {
     b \<leftarrow> p x;
     rest \<leftarrow> removeAllMatching p xs;
     Some (if b then rest else x # rest)
   }"

text \<open>\<open>display:none !important;\<close>\<close>

definition displayNoneCSSRule :: String where
  "displayNoneCSSRule = String8 (map of_char ''display:none !important;'')"

text \<open>\<^verbatim>\<open>StyleSheetContents::parseString\<close> hands the text to the CSS parser, which is not modelled, and always
  returns true.\<close>

definition parseString :: "String \<Rightarrow> bool" where
  "parseString sheetText = True"

definition compileGlobalDisplayNoneStyleSheet :: "ContentExtension \<Rightarrow> ContentExtension option" where
  "compileGlobalDisplayNoneStyleSheet e = do {
     firstIgnorePreviousRules \<leftarrow> findFirstIgnorePreviousRules e;
     let actions = cce_actions (m_compiledExtension e);
     css \<leftarrow> collectSelectors actions firstIgnorePreviousRules (m_universalActionsWithoutDomains e) newStringBuilder;
     if sb_isEmpty css then Some e
     else do {
       css \<leftarrow> sb_append8 [123] css;
       css \<leftarrow> sb_appendString displayNoneCSSRule css;
       css \<leftarrow> sb_append8 [125] css;
       let text = sb_toString css;
       rest \<leftarrow> removeAllMatching (inGlobalDisplayNoneStyleSheet actions firstIgnorePreviousRules) (m_universalActionsWithoutDomains e);
       Some (e\<lparr>m_globalDisplayNoneStyleSheet := (if parseString text then Some text else None),
         m_universalActionsWithoutDomains := rest\<rparr>)
     }
   }"

definition createContentExtension :: "String \<Rightarrow> CompiledContentExtension \<Rightarrow> ContentExtension option" where
  "createContentExtension identifier compiledExtension = do {
     withoutDomains \<leftarrow> actionsMatchingEverything (filtersWithoutDomainsBytecode compiledExtension);
     withDomains \<leftarrow> actionsMatchingEverything (filtersWithDomainsBytecode compiledExtension);
     compileGlobalDisplayNoneStyleSheet
       \<lparr>m_identifier = identifier, m_compiledExtension = compiledExtension, m_globalDisplayNoneStyleSheet = None,
        m_cachedDomain = NullString, m_cachedDomainActions = ht_empty, m_cachedUniversalDomainActions = [],
        m_universalActionsWithoutDomains = map locationOf (ht_values withoutDomains),
        m_universalActionsWithDomains = ht_values withDomains\<rparr>
   }"

fun selectUniversal :: "Actions \<Rightarrow> uint64 list \<Rightarrow> nat list option" where
  "selectUniversal domainActions [] = Some []"
| "selectUniversal domainActions (action # rest) = do {
     found \<leftarrow> hs_contains actionSetTraits domainActions action;
     locations \<leftarrow> selectUniversal domainActions rest;
     Some (if (action AND IfDomainFlag \<noteq> 0) = found then locationOf action # locations else locations)
   }"

definition populateDomainCacheIfNeeded :: "String \<Rightarrow> ContentExtension \<Rightarrow> ContentExtension option" where
  "populateDomainCacheIfNeeded domain e =
     (if string_content (m_cachedDomain e) \<noteq> string_content domain then do {
        characters \<leftarrow> asciiCharacters domain;
        domainActions \<leftarrow> interpretBytecode (domainFiltersBytecode (m_compiledExtension e)) None characters (LoadTypeMask OR ResourceTypeMask);
        (cached, _) \<leftarrow> hs_addAll actionSetTraits (ht_values domainActions) (ht_clear (m_cachedDomainActions e));
        universal \<leftarrow> selectUniversal cached (m_universalActionsWithDomains e);
        Some (e\<lparr>m_cachedDomainActions := cached, m_cachedUniversalDomainActions := universal, m_cachedDomain := domain\<rparr>)
      }
      else Some e)"

definition cachedDomainActions :: "String \<Rightarrow> ContentExtension \<Rightarrow> (ContentExtension \<times> Actions) option" where
  "cachedDomainActions domain e = do {
     e \<leftarrow> populateDomainCacheIfNeeded domain e;
     Some (e, m_cachedDomainActions e)
   }"

definition universalActionsWithDomains :: "String \<Rightarrow> ContentExtension \<Rightarrow> (ContentExtension \<times> nat list) option" where
  "universalActionsWithDomains domain e = do {
     e \<leftarrow> populateDomainCacheIfNeeded domain e;
     Some (e, m_cachedUniversalDomainActions e)
   }"


section \<open>The sequence of the actions\<close>

lemma action_seq_Cons: "action_seq bs \<Longrightarrow> is_action a \<Longrightarrow> action_seq (a @ bs)"
proof (induction bs rule: action_seq.induct)
  case none
  then show ?case using more [OF action_seq.none, of a] by simp
next
  case (more bs b)
  from action_seq.more [OF more.IH [OF more.prems] more.hyps(2)] show ?case by simp
qed

lemma action_seq_first:
  assumes "action_seq bs" "bs \<noteq> []"
  shows "\<exists>a rest. bs = a @ rest \<and> is_action a \<and> action_seq rest"
  using assms
proof (induction bs rule: action_seq.induct)
  case (more bs b)
  show ?case
  proof (cases "bs = []")
    case True
    then show ?thesis using more.hyps(2) action_seq.none by auto
  next
    case False
    with more.IH obtain a rest where "bs = a @ rest" "is_action a" "action_seq rest" by blast
    then show ?thesis using action_seq.more [OF _ more.hyps(2)] by (intro exI [of _ a] exI [of _ "rest @ b"]) simp
  qed
qed simp

lemma is_action_pos: "is_action a \<Longrightarrow> 0 < length a"
  by (auto simp: is_action_def selectorBytes_def)

text \<open>The action whose bytes these are, at a location.\<close>

definition action_of :: "byte list \<Rightarrow> nat \<Rightarrow> Action \<Rightarrow> bool" where
  "action_of a L act \<longleftrightarrow> (\<exists>k. plain k \<and> a = [actionType_value k] \<and> act = newAction k L) \<or>
     (\<exists>s. s \<noteq> NullString \<and> a = selectorBytes s \<and> act = newStringAction CSSDisplayNoneSelector s L)"

lemma read_action:
  assumes "is_action a" "length pre + length a < 2 ^ 32"
  shows "\<exists>act. action_of a (length pre) act \<and> deserialize (pre @ a @ post) (length pre) = Some act \<and>
    deserializeType (pre @ a @ post) (length pre) = Some (m_type act) \<and>
    serializedLength (pre @ a @ post) (length pre) = Some (length a)"
  using assms(1) unfolding is_action_def
proof (elim disjE exE conjE)
  fix k assume "plain k" "a = [actionType_value k]"
  then show ?thesis using deserialize_plain [of k pre post]
    by (intro exI [of _ "newAction k (length pre)"])
      (auto simp: action_of_def plain_def deserializeType_def serializedLength_def actionTypeAt_def nth_append newAction_def)
next
  fix s assume "s \<noteq> NullString" "a = selectorBytes s"
  then show ?thesis using deserialize_selector [of s pre post] assms(2)
    by (intro exI [of _ "newStringAction CSSDisplayNoneSelector s (length pre)"]) (auto simp: action_of_def newStringAction_def)
qed

lemma is_action_unique:
  assumes "is_action a" "is_action b" "a @ x = b @ y"
  shows "a = b"
proof -
  have l: "length a < 2 ^ 32" "length b < 2 ^ 32" using assms(1,2) by (auto simp: is_action_def)
  have "length a = length b" using read_action [OF assms(1), of "[]" x] read_action [OF assms(2), of "[]" y] l assms(3) by auto
  with assms(3) show ?thesis by simp
qed

lemma action_seq_cancel: "action_seq as \<Longrightarrow> action_seq (as @ x) \<Longrightarrow> action_seq x"
proof (induction as rule: measure_induct_rule [where f = length])
  case (less as)
  show ?case
  proof (cases "as = []")
    case False
    then obtain a rest where a: "as = a @ rest" "is_action a" "action_seq rest" using action_seq_first [OF less.prems(1)] by blast
    obtain b rest' where b: "as @ x = b @ rest'" "is_action b" "action_seq rest'" using action_seq_first [OF less.prems(2)] False by blast
    have "a = b" using is_action_unique [OF a(2) b(2), of "rest @ x" rest'] a(1) b(1) by simp
    with a b less.IH [of rest] is_action_pos [OF a(2)] show ?thesis by simp
  qed (use less.prems in simp)
qed

text \<open>Locations of actions.\<close>

definition at_action :: "byte list \<Rightarrow> nat \<Rightarrow> bool" where
  "at_action A L \<longleftrightarrow> L < length A \<and> action_seq (take L A)"

lemma at_action_split:
  assumes "action_seq A" "at_action A L"
  obtains a rest where "A = take L A @ a @ rest" "length (take L A) = L" "is_action a" "action_seq rest" "action_seq (take L A @ a)"
proof -
  have "action_seq (drop L A)" using action_seq_cancel [of "take L A" "drop L A"] assms by (simp add: at_action_def)
  moreover have "drop L A \<noteq> []" using assms(2) by (simp add: at_action_def)
  ultimately obtain a rest where a: "drop L A = a @ rest" "is_action a" "action_seq rest" using action_seq_first by blast
  have "A = take L A @ a @ rest" by (simp flip: a(1))
  with a(2,3) assms(2) more [of "take L A" a] show thesis by (intro that [of a rest]) (simp_all add: at_action_def)
qed

lemma at_action_read:
  assumes "action_seq A" "at_action A L" "length A < 2 ^ 32"
  shows "\<exists>act n. deserialize A L = Some act \<and> deserializeType A L = Some (m_type act) \<and> serializedLength A L = Some n \<and>
    0 < n \<and> L + n \<le> length A \<and> string_length (m_stringArgument act) < n \<and> m_actionID act = L \<and> m_extensionIdentifier act = NullString \<and>
    action_seq (take (L + n) A) \<and> (m_type act = CSSDisplayNoneSelector \<or> plain (m_type act)) \<and>
    (\<forall>L'. L < L' \<longrightarrow> at_action A L' \<longrightarrow> L + n \<le> L')"
proof -
  obtain a rest where a: "A = take L A @ a @ rest" "length (take L A) = L" "is_action a" "action_seq rest" "action_seq (take L A @ a)"
    using at_action_split [OF assms(1,2)] .
  have len: "L + length a \<le> length A" using arg_cong [OF a(1), of length] a(2) by simp
  obtain act where act: "action_of a L act" "deserialize A L = Some act" "deserializeType A L = Some (m_type act)" "serializedLength A L = Some (length a)"
    using read_action [OF a(3), of "take L A" rest] len assms(3) a(1,2) by auto
  have id: "m_actionID act = L" "m_extensionIdentifier act = NullString" "string_length (m_stringArgument act) < length a" "m_type act = CSSDisplayNoneSelector \<or> plain (m_type act)"
    using act(1) by (auto simp: action_of_def newAction_def newStringAction_def length_selectorBytes string_length_def)
  have t: "take (L + length a) A = take L A @ a" using arg_cong [OF a(1), of "take (L + length a)"] a(2) by simp
  have "L + length a \<le> L'" if "L < L'" "at_action A L'" for L'
  proof -
    have "take L' A = take L A @ take (L' - L) (drop L A)" using that(1) by (simp add: take_add [symmetric])
    then have "action_seq (take (L' - L) (drop L A))" using action_seq_cancel [of "take L A"] assms(2) that(2) by (simp add: at_action_def)
    moreover have "take (L' - L) (drop L A) \<noteq> []" using that by (simp add: at_action_def)
    ultimately obtain b r where b: "take (L' - L) (drop L A) = b @ r" "is_action b" using action_seq_first by blast
    have "a @ rest = drop L A" using a(1,2) by (metis append_eq_conv_conj)
    also have "\<dots> = b @ (r @ drop (L' - L) (drop L A))" using b(1) by (metis append.assoc append_take_drop_id)
    finally have "a = b" using is_action_unique [OF a(3) b(2)] by blast
    then have "length a \<le> L' - L" using arg_cong [OF b(1), of length] by simp
    with that(1) show ?thesis by simp
  qed
  with act id len t a(5) is_action_pos [OF a(3)] show ?thesis by (intro exI [of _ act] exI [of _ "length a"]) simp
qed

text \<open>The walk over the actions finds the first one that ignores the previous rules.\<close>

definition ignore_at :: "byte list \<Rightarrow> nat \<Rightarrow> bool" where
  "ignore_at A L \<longleftrightarrow> at_action A L \<and> deserializeType A L = Some IgnorePreviousRules"

lemma findIgnore_loop_ok:
  assumes "action_seq A" "length A < 2 ^ 32" "action_seq (take i A)" "i \<le> length A" "\<forall>L < i. \<not> ignore_at A L"
  shows "\<exists>first. findFirstIgnorePreviousRules_loop A i = Some first \<and>
    (if \<exists>L. ignore_at A L then ignore_at A first \<and> (\<forall>L. ignore_at A L \<longrightarrow> first \<le> L) else first = 2 ^ 32 - 1)"
  using assms(3-5)
proof (induction "length A - i" arbitrary: i rule: less_induct)
  case less
  show ?case
  proof (cases "i < length A")
    case True
    then have at: "at_action A i" using less.prems by (simp add: at_action_def)
    obtain act :: Action and n where r: "deserializeType A i = Some (m_type act)" "serializedLength A i = Some n" "0 < n" "i + n \<le> length A"
      "action_seq (take (i + n) A)" "\<forall>L'. i < L' \<longrightarrow> at_action A L' \<longrightarrow> i + n \<le> L'"
      using at_action_read [OF assms(1) at assms(2)] by (elim exE conjE)
    show ?thesis
    proof (cases "m_type act = IgnorePreviousRules")
      case True
      then have "ignore_at A i" using at r(1) by (simp add: ignore_at_def)
      moreover have "\<forall>L. ignore_at A L \<longrightarrow> i \<le> L" using less.prems(3) by (meson not_less)
      moreover have "findFirstIgnorePreviousRules_loop A i = Some i" using True r(1) at
        by (subst findFirstIgnorePreviousRules_loop.simps) (simp add: at_action_def)
      ultimately show ?thesis by auto
    next
      case False
      have "\<not> ignore_at A L" if "L < i + n" for L
        using that less.prems(3) r(1,6) False by (cases L i rule: linorder_cases) (auto simp: ignore_at_def)
      then have "\<exists>first. findFirstIgnorePreviousRules_loop A (i + n) = Some first \<and>
        (if \<exists>L. ignore_at A L then ignore_at A first \<and> (\<forall>L. ignore_at A L \<longrightarrow> first \<le> L) else first = 2 ^ 32 - 1)"
        using less.hyps [of "i + n"] r(3,4,5) by auto
      moreover have "findFirstIgnorePreviousRules_loop A i = findFirstIgnorePreviousRules_loop A (i + n)"
        using False r(1,2,4) at assms(2) by (subst findFirstIgnorePreviousRules_loop.simps) (simp add: at_action_def)
      ultimately show ?thesis by simp
    qed
  next
    case False
    then have "\<not> (\<exists>L. ignore_at A L)" using less.prems by (auto simp: ignore_at_def at_action_def)
    with False show ?thesis by (subst findFirstIgnorePreviousRules_loop.simps) simp
  qed
qed


section \<open>The style sheet\<close>

definition selectorAt :: "byte list \<Rightarrow> nat \<Rightarrow> UChar list" where
  "selectorAt A L = (case deserialize A L of Some act \<Rightarrow> string_chars (m_stringArgument act) | None \<Rightarrow> [])"

definition in_sheet :: "byte list \<Rightarrow> nat \<Rightarrow> bool" where
  "in_sheet A L \<longleftrightarrow> (\<forall>K. ignore_at A K \<longrightarrow> L < K) \<and> deserializeType A L = Some CSSDisplayNoneSelector"

definition sheet_text :: "UChar list \<Rightarrow> UChar list list \<Rightarrow> UChar list" where
  "sheet_text css ss = foldl (\<lambda>css s. (if css = [] then [] else css @ [44]) @ s) css ss"

lemma sheet_text_length: "length (sheet_text css ss) \<le> length css + sum_list (map (\<lambda>s. length s + 1) ss)"
proof (induction ss arbitrary: css)
  case (Cons s ss)
  from Cons.IH [of "(if css = [] then [] else css @ [44]) @ s"] show ?case by (auto simp: sheet_text_def)
qed (simp add: sheet_text_def)

lemma sum_list_filter_le: "sum_list (map f (filter p xs)) \<le> (sum_list (map f xs) :: nat)"
  by (induction xs) auto

lemma selectors_fit_sorted:
  assumes "action_seq A" "length A < 2 ^ 32" "sorted_wrt (<) xs" "\<forall>x \<in> set xs. at_action A x \<and> b \<le> x" "b \<le> length A"
  shows "sum_list (map (\<lambda>L. length (selectorAt A L) + 1) xs) \<le> length A - b"
  using assms(3-5)
proof (induction xs arbitrary: b)
  case (Cons x xs)
  have at: "at_action A x" using Cons.prems by simp
  obtain act :: Action and n where r: "deserialize A x = Some act" "x + n \<le> length A" "string_length (m_stringArgument act) < n"
    "\<forall>L'. x < L' \<longrightarrow> at_action A L' \<longrightarrow> x + n \<le> L'"
    using at_action_read [OF assms(1) at assms(2)] by (elim exE conjE)
  have "\<forall>y \<in> set xs. at_action A y \<and> x + n \<le> y" using Cons.prems r(4) by simp
  then have "sum_list (map (\<lambda>L. length (selectorAt A L) + 1) xs) \<le> length A - (x + n)" using Cons.IH [of "x + n"] Cons.prems r(2) by simp
  moreover have "length (selectorAt A x) + 1 \<le> n" using r(1,3) by (simp add: selectorAt_def string_length_def)
  moreover have "b \<le> x" using Cons.prems by simp
  ultimately show ?case using r(2) by simp
qed simp

lemma selectors_fit:
  assumes "action_seq A" "length A < 2 ^ 32" "distinct U" "\<forall>x \<in> set U. at_action A x"
  shows "sum_list (map (\<lambda>L. length (selectorAt A L) + 1) U) \<le> length A"
proof -
  let ?f = "\<lambda>L. length (selectorAt A L) + 1"
  have "sum_list (map ?f (sorted_list_of_set (set U))) \<le> length A - 0"
    by (rule selectors_fit_sorted [OF assms(1,2)]) (use assms(4) in simp_all)
  moreover have "sum_list (map ?f (sorted_list_of_set (set U))) = sum ?f (set U)"
    by (simp add: sum_list_distinct_conv_sum_set)
  ultimately show ?thesis using assms(3) by (simp add: sum_list_distinct_conv_sum_set)
qed

lemma inSheet_ok:
  assumes "action_seq A" "length A < 2 ^ 32" "at_action A L"
    "if \<exists>L. ignore_at A L then ignore_at A first \<and> (\<forall>L. ignore_at A L \<longrightarrow> first \<le> L) else first = 2 ^ 32 - 1"
  shows "inGlobalDisplayNoneStyleSheet A first L = Some (in_sheet A L)"
proof -
  obtain act :: Action where r: "deserializeType A L = Some (m_type act)" using at_action_read [OF assms(1,3,2)] by (elim exE conjE)
  have "L < length A" using assms(3) by (simp add: at_action_def)
  then have "L < first \<longleftrightarrow> (\<forall>K. ignore_at A K \<longrightarrow> L < K)" using assms(2,4) by (auto split: if_splits)
  then show ?thesis using r by (simp add: inGlobalDisplayNoneStyleSheet_def in_sheet_def)
qed

lemma collectSelectors_ok:
  assumes "action_seq A" "length A < 2 ^ 32" "\<forall>L \<in> set U. at_action A L"
    and first: "if \<exists>L. ignore_at A L then ignore_at A first \<and> (\<forall>L. ignore_at A L \<longrightarrow> first \<le> L) else first = 2 ^ 32 - 1"
    and "sb_wf css" "length (sb_chars css) + sum_list (map (\<lambda>L. length (selectorAt A L) + 1) U) < 2 ^ 32"
  shows "\<exists>css'. collectSelectors A first U css = Some css' \<and> sb_wf css' \<and>
    sb_chars css' = sheet_text (sb_chars css) (map (selectorAt A) (filter (in_sheet A) U))"
  using assms(3,5,6)
proof (induction U arbitrary: css)
  case (Cons L U)
  have s: "inGlobalDisplayNoneStyleSheet A first L = Some (in_sheet A L)" using inSheet_ok [OF assms(1,2) _ first] Cons.prems(1) by simp
  show ?case
  proof (cases "in_sheet A L")
    case False
    then show ?thesis using Cons s by simp
  next
    case True
    obtain act :: Action where r: "deserialize A L = Some act" using at_action_read [OF assms(1) _ assms(2), of L] Cons.prems(1) by auto
    have len: "string_length (m_stringArgument act) = length (selectorAt A L)" using r by (simp add: selectorAt_def string_length_def)
    obtain css1 where 1: "(if \<not> sb_isEmpty css then sb_appendChar 44 css else Some css) = Some css1" "sb_wf css1"
      "sb_chars css1 = (if sb_chars css = [] then [] else sb_chars css @ [44])"
      using sb_appendChar_ok [of css 44] Cons.prems by (cases "sb_chars css = []") (auto simp: sb_isEmpty_def)
    have l1: "length (sb_chars css1) \<le> length (sb_chars css) + 1" using 1(3) by simp
    obtain css2 where 2: "sb_appendString (m_stringArgument act) css1 = Some css2" "sb_wf css2"
      "sb_chars css2 = sb_chars css1 @ selectorAt A L"
      using sb_appendString_ok [OF _ 1(2), of "m_stringArgument act"] len l1 Cons.prems(3) r by (auto simp: selectorAt_def)
    have "length (sb_chars css2) + sum_list (map (\<lambda>L. length (selectorAt A L) + 1) U) < 2 ^ 32" using Cons.prems(3) 2(3) l1 by simp
    from Cons.IH [OF _ 2(2) this] Cons.prems(1) obtain css' where "collectSelectors A first U css2 = Some css'" "sb_wf css'"
      "sb_chars css' = sheet_text (sb_chars css2) (map (selectorAt A) (filter (in_sheet A) U))" by auto
    with True s 1 2 r show ?thesis by (simp add: sheet_text_def)
  qed
qed (simp add: sheet_text_def)

lemma removeAllMatching_ok: "\<forall>x \<in> set xs. p x = Some (q x) \<Longrightarrow> removeAllMatching p xs = Some (filter (\<lambda>x. \<not> q x) xs)"
  by (induction xs) auto

lemma sheet_text_empty: "sheet_text css ss = [] \<longleftrightarrow> css = [] \<and> (\<forall>s \<in> set ss. s = [])"
  by (induction ss arbitrary: css) (auto simp: sheet_text_def)

text \<open>The locations that the style sheet stands for: none if all of its selectors are empty.\<close>

definition sheet_locations :: "byte list \<Rightarrow> nat set \<Rightarrow> nat set" where
  "sheet_locations A U =
     (if \<forall>L \<in> U. in_sheet A L \<longrightarrow> selectorAt A L = [] then {} else {L \<in> U. in_sheet A L})"

text \<open>The text of the style sheet for a set of locations: their selectors in some order, and the rule.\<close>

definition is_sheet :: "byte list \<Rightarrow> nat set \<Rightarrow> String \<Rightarrow> bool" where
  "is_sheet A S text \<longleftrightarrow> (\<exists>locations. distinct locations \<and> set locations = S \<and>
     string_chars text = sheet_text [] (map (selectorAt A) locations) @ [123] @ string_chars displayNoneCSSRule @ [125])"

definition sheet_for :: "byte list \<Rightarrow> nat set \<Rightarrow> String option \<Rightarrow> bool" where
  "sheet_for A S sheet \<longleftrightarrow> (case sheet of None \<Rightarrow> S = {} | Some text \<Rightarrow> S \<noteq> {} \<and> is_sheet A S text)"

lemma compileSheet_ok:
  assumes seq: "action_seq A" "length A < 2 ^ 32 - 64" and e: "cce_actions (m_compiledExtension e) = A" "U = m_universalActionsWithoutDomains e"
    and U: "distinct U" "\<forall>x \<in> set U. at_action A x" and fresh: "m_globalDisplayNoneStyleSheet e = None"
  shows "\<exists>sheet U'. compileGlobalDisplayNoneStyleSheet e =
      Some (e\<lparr>m_globalDisplayNoneStyleSheet := sheet, m_universalActionsWithoutDomains := U'\<rparr>) \<and>
    set U' = set U - sheet_locations A (set U) \<and>
    sheet_for A (sheet_locations A (set U)) sheet"
proof -
  have l: "length A < 2 ^ 32" using seq(2) by simp
  obtain first where f: "findFirstIgnorePreviousRules e = Some first"
    and first: "if \<exists>L. ignore_at A L then ignore_at A first \<and> (\<forall>L. ignore_at A L \<longrightarrow> first \<le> L) else first = 2 ^ 32 - 1"
    using findIgnore_loop_ok [OF seq(1) l, of 0] action_seq.none e(1) by (auto simp: findFirstIgnorePreviousRules_def)
  let ?t = "sheet_text [] (map (selectorAt A) (filter (in_sheet A) U))"
  have fit: "length (sb_chars newStringBuilder) + sum_list (map (\<lambda>L. length (selectorAt A L) + 1) U) < 2 ^ 32"
    using selectors_fit [OF seq(1) l U] l by (simp add: sb_new)
  obtain css where css: "collectSelectors A first U newStringBuilder = Some css" "sb_wf css" "sb_chars css = ?t"
    using collectSelectors_ok [OF seq(1) l U(2) first sb_new(1) fit] by (auto simp: sb_new)
  have rm: "removeAllMatching (inGlobalDisplayNoneStyleSheet A first) U = Some (filter (\<lambda>L. \<not> in_sheet A L) U)"
    by (rule removeAllMatching_ok) (use inSheet_ok [OF seq(1) l _ first] U(2) in blast)
  show ?thesis
  proof (cases "?t = []")
    case True
    then have "compileGlobalDisplayNoneStyleSheet e = Some e"
      using f css e by (simp add: compileGlobalDisplayNoneStyleSheet_def sb_isEmpty_def)
    then show ?thesis using True e(2) fresh
      by (intro exI [of _ None] exI [of _ U]) (auto simp: sheet_locations_def sheet_text_empty sheet_for_def)
  next
    case False
    have "length ?t \<le> sum_list (map (\<lambda>L. length (selectorAt A L) + 1) (filter (in_sheet A) U))"
      using sheet_text_length [of "[]" "map (selectorAt A) (filter (in_sheet A) U)"] by (simp add: comp_def)
    also have "\<dots> \<le> length A" using sum_list_filter_le selectors_fit [OF seq(1) l U] by (rule order_trans)
    finally have t: "length (sb_chars css) < 2 ^ 32 - 64" using seq(2) css(3) by simp
    have d: "string_length displayNoneCSSRule = 24" by (simp add: displayNoneCSSRule_def string_length_def)
    obtain css1 where 1: "sb_append8 [123] css = Some css1" "sb_wf css1" "sb_chars css1 = ?t @ [123]"
      using sb_append8_ok [OF _ css(2), of "[123]"] t css(3) by auto
    obtain css2 where 2: "sb_appendString displayNoneCSSRule css1 = Some css2" "sb_wf css2" "sb_chars css2 = ?t @ [123] @ string_chars displayNoneCSSRule"
      using sb_appendString_ok [OF _ 1(2), of displayNoneCSSRule] t 1(3) css(3) d by auto
    obtain css3 where 3: "sb_append8 [125] css2 = Some css3" "sb_wf css3" "sb_chars css3 = ?t @ [123] @ string_chars displayNoneCSSRule @ [125]"
      using sb_append8_ok [OF _ 2(2), of "[125]"] t 2(3) css(3) d by (auto simp: string_length_def)
    let ?text = "sb_toString css3"
    have "compileGlobalDisplayNoneStyleSheet e = Some (e\<lparr>m_globalDisplayNoneStyleSheet := Some ?text,
        m_universalActionsWithoutDomains := filter (\<lambda>L. \<not> in_sheet A L) U\<rparr>)"
      using f css e False 1 2 3 rm by (simp add: compileGlobalDisplayNoneStyleSheet_def sb_isEmpty_def Let_def parseString_def)
    moreover have S: "sheet_locations A (set U) = set (filter (in_sheet A) U)" "sheet_locations A (set U) \<noteq> {}"
      using False by (auto simp: sheet_locations_def sheet_text_empty)
    moreover have "is_sheet A (sheet_locations A (set U)) ?text"
      unfolding is_sheet_def S(1) using sb_toString_ok(2) [OF 3(2)] 3(3) U(1) by (intro exI [of _ "filter (in_sheet A) U"]) simp
    ultimately show ?thesis
      by (intro exI [of _ "Some ?text"] exI [of _ "filter (\<lambda>L. \<not> in_sheet A L) U"]) (auto simp: sheet_for_def)
  qed
qed


section \<open>Extensions from automata\<close>

definition good_dfas :: "DFA list \<Rightarrow> bool" where
  "good_dfas dfas \<longleftrightarrow> (\<forall>dfa \<in> set dfas. interpretable dfa \<and> end_distinct dfa \<and> length (dfa_nodes dfa) < 2 ^ 32 - 1) \<and>
     sum_list (map size_bound dfas) < 2 ^ 30"

definition first_root :: "DFA list \<Rightarrow> uint64 set" where
  "first_root dfas = (case dfas of [] \<Rightarrow> {} | dfa # _ \<Rightarrow> root_actions dfa)"

text \<open>The actions that the automata have after the prefixes of a string and its terminator.\<close>

definition accepted :: "DFA list \<Rightarrow> charval list \<Rightarrow> uint64 set" where
  "accepted dfas url = (\<Union>dfa \<in> set dfas. prefix_actions dfa (url @ [0]))"

lemma root_accepted: "first_root dfas \<subseteq> accepted dfas url"
proof (cases dfas)
  case (Cons dfa rest)
  have "root_actions dfa \<subseteq> prefix_actions dfa (url @ [0])" by (simp add: prefix_actions_reached)
  then show ?thesis using Cons by (auto simp: first_root_def accepted_def)
qed (simp add: first_root_def)

lemma good_run:
  assumes "good_dfas dfas" "compile_all dfas = Some b" "dom_ok dm" "\<forall>c \<in> set url. 1 \<le> c \<and> c < 128"
  shows "\<exists>acts. interpretBytecode b dm url flags = Some acts \<and> ht_wf actionSetTraits acts \<and>
    set (ht_values acts) \<union> {a \<in> first_root dfas. \<not> has_flags a \<and> selected flags dm a} = {a \<in> accepted dfas url. selected flags dm a}"
proof -
  have ok: "\<forall>dfa \<in> set dfas. interpretable dfa \<and> length (dfa_nodes dfa) < 2 ^ 32 - 1" "\<forall>dfa \<in> set dfas. dfa_wf dfa \<and> end_distinct dfa"
    using assms(1) by (auto simp: good_dfas_def interpretable_def)
  have "total_size dfas < 2 ^ 30" using total_size_bound [of dfas] ok assms(1) by (auto simp: good_dfas_def)
  from compiled_run [OF ok(1) this assms(3,4), of flags] obtain acts where
    r: "interpretBytecode b dm url flags = Some acts" "ht_wf actionSetTraits acts"
    "set (ht_values acts) = {a \<in> collected_all dfas True (url @ [0]). selected flags dm a}" using assms(2) by auto
  show ?thesis using r collected_all_complete [OF ok(2), of "url @ [0]" True]
    by (intro exI [of _ acts]) (cases dfas; auto simp: accepted_def first_root_def)
qed

lemma good_everything:
  assumes "good_dfas dfas" "dfas \<noteq> []" "compile_all dfas = Some b"
  shows "\<exists>u. actionsMatchingEverything b = Some u \<and> ht_wf actionSetTraits u \<and> set (ht_values u) = {a \<in> first_root dfas. \<not> has_flags a}"
proof -
  obtain dfa rest where d: "dfas = dfa # rest" using assms(2) by (cases dfas) auto
  have ok: "\<forall>dfa \<in> set dfas. interpretable dfa \<and> length (dfa_nodes dfa) < 2 ^ 32 - 1" "\<forall>dfa \<in> set dfas. dfa_wf dfa"
    using assms(1) by (auto simp: good_dfas_def interpretable_def)
  have "total_size dfas < 2 ^ 30" using total_size_bound [of dfas] ok assms(1) by (auto simp: good_dfas_def)
  from compiled_run [OF ok(1) this, of None "[]" 0] have "segments dfas 0 b" "length b < 2 ^ 31" using assms(3) by (auto simp: dom_ok_def)
  from everything_segments [OF this(1) [unfolded d] this(2)] ok(1) d show ?thesis by (auto simp: first_root_def)
qed

lemma flagsMatch_all: "flagsMatch f (LoadTypeMask OR ResourceTypeMask)"
proof -
  have "(f AND LoadTypeMask) AND (LoadTypeMask OR ResourceTypeMask) = f AND LoadTypeMask"
    "(f AND ResourceTypeMask) AND (LoadTypeMask OR ResourceTypeMask) = f AND ResourceTypeMask"
    by (rule bit_eqI, auto simp: bit_simps)+
  then show ?thesis by (simp add: flagsMatch_def Let_def)
qed

lemma selectUniversal_ok:
  "ht_wf actionSetTraits d \<Longrightarrow> selectUniversal d as = Some (map locationOf (filter (domain_selects (Some d)) as))"
  by (induction as) (auto simp: hs_contains_ok [OF hs_extract(2)] domain_selects_def)

section \<open>The domain cache\<close>

text \<open>The cache of an extension is fresh, or it holds the actions of its domain.\<close>

definition domain_actions :: "DFA list \<Rightarrow> String \<Rightarrow> uint64 set" where
  "domain_actions D domain = accepted D (map uint (string_chars domain))"

definition cached_for :: "DFA list \<Rightarrow> String \<Rightarrow> ContentExtension \<Rightarrow> bool" where
  "cached_for D domain e \<longleftrightarrow> ht_wf actionSetTraits (m_cachedDomainActions e) \<and>
     set (ht_values (m_cachedDomainActions e)) = domain_actions D domain \<and>
     m_cachedUniversalDomainActions e =
       map locationOf (filter (domain_selects (Some (m_cachedDomainActions e))) (m_universalActionsWithDomains e))"

definition cache_ok :: "DFA list \<Rightarrow> ContentExtension \<Rightarrow> bool" where
  "cache_ok D e \<longleftrightarrow> ht_wf actionSetTraits (m_cachedDomainActions e) \<and>
     set (m_cachedUniversalDomainActions e) \<subseteq> locationOf ` set (m_universalActionsWithDomains e) \<and>
     (string_content (m_cachedDomain e) = None \<or> cached_for D (m_cachedDomain e) e)"

definition host_ok :: "String \<Rightarrow> bool" where
  "host_ok domain \<longleftrightarrow> domain \<noteq> NullString \<and> (\<forall>c \<in> set (string_chars domain). 1 \<le> uint c \<and> uint c < 128)"

text \<open>A null host, which the URL of an empty document has, is looked up as the empty string.\<close>

definition host_any :: "String \<Rightarrow> bool" where
  "host_any domain \<longleftrightarrow> domain = NullString \<or> host_ok domain"

lemma cached_for_cache:
  assumes "cached_for D domain e" "string_chars (m_cachedDomain e) = string_chars domain"
  shows "cache_ok D e"
  using assms by (auto simp: cache_ok_def cached_for_def domain_actions_def)

lemma populate_ok:
  assumes good: "good_dfas D" "first_root D = {}" "compile_all D = Some (domainFiltersBytecode (m_compiledExtension e))"
    and e: "cache_ok D e" and h: "host_any domain"
  shows "\<exists>c u d. populateDomainCacheIfNeeded domain e = Some (e\<lparr>m_cachedDomainActions := c, m_cachedUniversalDomainActions := u, m_cachedDomain := d\<rparr>) \<and>
    string_content d = string_content domain \<and>
    cache_ok D (e\<lparr>m_cachedDomainActions := c, m_cachedUniversalDomainActions := u, m_cachedDomain := d\<rparr>) \<and>
    (host_ok domain \<longrightarrow> cached_for D domain (e\<lparr>m_cachedDomainActions := c, m_cachedUniversalDomainActions := u, m_cachedDomain := d\<rparr>))"
proof (cases "string_content (m_cachedDomain e) = string_content domain")
  case True
  have "cached_for D domain e" if ok: "host_ok domain"
  proof -
    have "string_chars (m_cachedDomain e) = string_chars domain" using True ok
      by (auto simp: string_content_def string_isNull_def host_ok_def split: if_splits)
    then show ?thesis using e True ok
      by (auto simp: cache_ok_def cached_for_def domain_actions_def string_content_def string_isNull_def host_ok_def split: if_splits)
  qed
  with True e show ?thesis
    by (intro exI [of _ "m_cachedDomainActions e"] exI [of _ "m_cachedUniversalDomainActions e"] exI [of _ "m_cachedDomain e"])
      (simp add: populateDomainCacheIfNeeded_def)
next
  case False
  let ?url = "map uint (string_chars domain)"
  have a: "asciiCharacters domain = Some ?url" using h by (auto simp: asciiCharacters_def host_any_def host_ok_def word_less_def)
  have url: "\<forall>c \<in> set ?url. 1 \<le> c \<and> c < 128" using h by (auto simp: host_any_def host_ok_def)
  obtain acts where r: "interpretBytecode (domainFiltersBytecode (m_compiledExtension e)) None ?url (LoadTypeMask OR ResourceTypeMask) = Some acts"
    "ht_wf actionSetTraits acts" "set (ht_values acts) = accepted D ?url"
    using good_run [OF good(1,3) _ url, of None "LoadTypeMask OR ResourceTypeMask"] good(2)
    by (auto simp: dom_ok_def selected_def flagsMatch_all domain_selects_def)
  have wf: "ht_wf actionSetTraits (ht_clear (m_cachedDomainActions e))" "ht_values (ht_clear (m_cachedDomainActions e)) = []"
    using e by (simp_all add: cache_ok_def ht_clear_def ht_wf_empty) (simp add: ht_values_def)
  obtain c where c: "hs_addAll actionSetTraits (ht_values acts) (ht_clear (m_cachedDomainActions e)) = Some (c, set (ht_values acts) \<noteq> {})"
    "ht_wf actionSetTraits c" "set (ht_values c) = set (ht_values acts)"
    using hs_addAll_ok [OF hs_traits_ok(2) hs_extract(2) wf(1), of "ht_values acts"] wf(2) by auto
  let ?u = "map locationOf (filter (domain_selects (Some c)) (m_universalActionsWithDomains e))"
  let ?e = "e\<lparr>m_cachedDomainActions := c, m_cachedUniversalDomainActions := ?u, m_cachedDomain := domain\<rparr>"
  have "cached_for D domain ?e" using r c by (simp add: cached_for_def domain_actions_def)
  moreover from this have "cache_ok D ?e" by (rule cached_for_cache) simp
  ultimately show ?thesis using False a r c selectUniversal_ok [OF c(2)]
    by (intro exI [of _ c] exI [of _ ?u] exI [of _ domain]) (simp add: populateDomainCacheIfNeeded_def)
qed


section \<open>Creating an extension\<close>

definition compiled_from :: "DFA list \<Rightarrow> DFA list \<Rightarrow> DFA list \<Rightarrow> byte list \<Rightarrow> CompiledContentExtension \<Rightarrow> bool" where
  "compiled_from WO W D A ce \<longleftrightarrow> good_dfas WO \<and> good_dfas W \<and> good_dfas D \<and> WO \<noteq> [] \<and> W \<noteq> [] \<and> first_root D = {} \<and>
     compile_all WO = Some (filtersWithoutDomainsBytecode ce) \<and> compile_all W = Some (filtersWithDomainsBytecode ce) \<and>
     compile_all D = Some (domainFiltersBytecode ce) \<and> cce_actions ce = A \<and>
     (\<forall>a \<in> first_root WO. at_action A (locationOf a) \<and> a AND IfDomainFlag = 0 \<and> uint a < 2 ^ 49)"

definition universal_locations :: "DFA list \<Rightarrow> nat set" where
  "universal_locations WO = locationOf ` {a \<in> first_root WO. \<not> has_flags a}"

definition extension_ok :: "DFA list \<Rightarrow> DFA list \<Rightarrow> DFA list \<Rightarrow> byte list \<Rightarrow> CompiledContentExtension \<Rightarrow> ContentExtension \<Rightarrow> bool" where
  "extension_ok WO W D A ce e \<longleftrightarrow> m_compiledExtension e = ce \<and> cache_ok D e \<and>
     set (m_universalActionsWithoutDomains e) = universal_locations WO - sheet_locations A (universal_locations WO) \<and>
     sheet_for A (sheet_locations A (universal_locations WO)) (m_globalDisplayNoneStyleSheet e) \<and>
     set (m_universalActionsWithDomains e) = {a \<in> first_root W. \<not> has_flags a}"

lemma locationOf_plain:
  assumes "\<not> has_flags a" "a AND IfDomainFlag = 0" "uint a < 2 ^ 49"
  shows "ucast (ucast a :: uint32) = a"
proof (rule bit_eqI)
  fix n assume "possible_bit TYPE(64 word) n"
  then have n: "n < 64" by simp
  have "\<not> bit a n" if "49 \<le> n" "n < 64"
  proof -
    have "uint a = take_bit 49 (uint a)" using assms(3) by (simp add: take_bit_int_eq_self)
    then have "\<not> bit (uint a) n" using that by (metis bit_take_bit_iff not_le)
    then show ?thesis using that by (simp add: bit_uint_iff)
  qed
  moreover have "\<not> bit a 48" using assms(2) IfDomainFlag_set by blast
  moreover have "\<not> bit a n" if "32 \<le> n" "n < 48" using assms(1) that by (auto simp: has_flags_iff)
  ultimately have "\<not> bit a n" if "32 \<le> n" "n < 64" using that by (cases "n = 48"; cases "n < 48") auto
  then show "bit (ucast (ucast a :: uint32) :: uint64) n = bit a n" using n by (cases "n < 32") (auto simp: bit_simps)
qed

lemma locationOf_inj: "\<forall>a \<in> S. \<not> has_flags a \<and> a AND IfDomainFlag = 0 \<and> uint a < 2 ^ 49 \<Longrightarrow> inj_on locationOf S"
  unfolding locationOf_def by (rule inj_onI) (metis locationOf_plain word_unat_eq_iff)

lemma create_ok:
  assumes ce: "compiled_from WO W D A ce" and A: "action_seq A" "length A < 2 ^ 32 - 64"
  shows "\<exists>e. createContentExtension identifier ce = Some e \<and> extension_ok WO W D A ce e \<and> m_identifier e = identifier"
proof -
  obtain u where u: "actionsMatchingEverything (filtersWithoutDomainsBytecode ce) = Some u" "ht_wf actionSetTraits u"
    "set (ht_values u) = {a \<in> first_root WO. \<not> has_flags a}" using good_everything [of WO] ce by (auto simp: compiled_from_def)
  obtain v where v: "actionsMatchingEverything (filtersWithDomainsBytecode ce) = Some v" "ht_wf actionSetTraits v"
    "set (ht_values v) = {a \<in> first_root W. \<not> has_flags a}" using good_everything [of W] ce by (auto simp: compiled_from_def)
  let ?U = "map locationOf (ht_values u)"
  let ?e = "\<lparr>m_identifier = identifier, m_compiledExtension = ce, m_globalDisplayNoneStyleSheet = None,
        m_cachedDomain = NullString, m_cachedDomainActions = ht_empty, m_cachedUniversalDomainActions = [],
        m_universalActionsWithoutDomains = ?U, m_universalActionsWithDomains = ht_values v\<rparr>"
  have d: "distinct ?U" unfolding distinct_map using u(3) ce hs_values_distinct [OF hs_extract(2) u(2)]
    by (auto simp: compiled_from_def intro!: locationOf_inj)
  have at: "\<forall>L \<in> set ?U. at_action A L" using u(3) ce by (auto simp: compiled_from_def)
  have acts: "cce_actions (m_compiledExtension ?e) = A" "?U = m_universalActionsWithoutDomains ?e" using ce by (simp_all add: compiled_from_def)
  have U: "set ?U = universal_locations WO" using u(3) by (simp add: universal_locations_def)
  obtain sheet U' where r: "compileGlobalDisplayNoneStyleSheet ?e =
      Some (?e\<lparr>m_globalDisplayNoneStyleSheet := sheet, m_universalActionsWithoutDomains := U'\<rparr>)"
    "set U' = universal_locations WO - sheet_locations A (universal_locations WO)"
    "sheet_for A (sheet_locations A (universal_locations WO)) sheet"
    using compileSheet_ok [OF A acts d at] unfolding U by auto
  then show ?thesis using u(1) v(1,3)
    by (simp add: createContentExtension_def extension_ok_def cache_ok_def ht_wf_empty string_content_def string_isNull_def)
qed

end
