(* ===== verification/ContentExtensionsBackend.thy ===== *)
theory ContentExtensionsBackend
  imports ContentExtension
begin

text \<open>
  \<^verbatim>\<open>ContentExtensionsBackend.cpp\<close>: the extensions by their identifier, the actions of a load, and their
  effect on the request and the document. Whether a URL has the data protocol, the host of a URL and
  the comparison of origins belong to \<^verbatim>\<open>URL\<close> and \<^verbatim>\<open>SecurityOrigin\<close> and are parameters.
\<close>

section \<open>The actions of a load\<close>

record LoadContext =
  canAccess :: "string \<Rightarrow> string \<Rightarrow> bool"
  protocolIsData :: "string \<Rightarrow> bool"
  host :: "string \<Rightarrow> String"

text \<open>The locations in descending order: the actions are added until one ignores the previous rules. The
  result says whether there was one.\<close>

fun addActions :: "byte list \<Rightarrow> String \<Rightarrow> nat list \<Rightarrow> (Action list \<times> bool) option" where
  "addActions actions identifier [] = Some ([], False)"
| "addActions actions identifier (location # rest) = do {
     action \<leftarrow> deserialize actions location;
     let action = setExtensionIdentifier identifier action;
     if m_type action = IgnorePreviousRules then Some ([], True)
     else do {
       (finalActions, sawIgnorePreviousRules) \<leftarrow> addActions actions identifier rest;
       Some (action # finalActions, sawIgnorePreviousRules)
     }
   }"

definition urlCharacters :: "string \<Rightarrow> charval list" where
  "urlCharacters url = map of_char url"

definition actionsForExtension :: "LoadContext \<Rightarrow> ResourceLoadInfo \<Rightarrow> ContentExtension \<Rightarrow> (ContentExtension \<times> Action list) option" where
  "actionsForExtension ctx resourceLoadInfo e = do {
     let url = urlCharacters (resourceURL resourceLoadInfo);
     let flags = getResourceFlags (canAccess ctx) resourceLoadInfo;
     let compiledExtension = m_compiledExtension e;
     withoutDomainsActions \<leftarrow> interpretBytecode (filtersWithoutDomainsBytecode compiledExtension) None url flags;
     let domain = host ctx (mainDocumentURL resourceLoadInfo);
     (e, domainActions) \<leftarrow> cachedDomainActions domain e;
     withDomainsActions \<leftarrow> interpretWithDomains (filtersWithDomainsBytecode compiledExtension) url flags domainActions;
     (e, universalWithDomains) \<leftarrow> universalActionsWithDomains domain e;
     let universalWithoutDomains = m_universalActionsWithoutDomains e;
     (finalActions, sawIgnorePreviousRules) \<leftarrow>
       (if ht_values withoutDomainsActions \<noteq> [] \<or> ht_values withDomainsActions \<noteq> [] \<or> universalWithDomains \<noteq> [] \<or> universalWithoutDomains \<noteq> []
        then addActions (cce_actions compiledExtension) (m_identifier e)
          (rev (sort (map locationOf (ht_values withoutDomainsActions) @ map locationOf (ht_values withDomainsActions) @
             universalWithoutDomains @ universalWithDomains)))
        else Some ([], False));
     Some (e, finalActions @ (if sawIgnorePreviousRules then []
       else [setExtensionIdentifier (m_identifier e) (newStringAction CSSDisplayNoneStyleSheet (m_identifier e) invalidActionID)]))
   }"

text \<open>The extensions in the order of the table; the domain caches are updated in place.\<close>

type_synonym ContentExtensionMap = "(UChar list, ContentExtension) HashMap"

fun actionsForBuckets ::
  "LoadContext \<Rightarrow> ResourceLoadInfo \<Rightarrow> nat list \<Rightarrow> ContentExtensionMap \<Rightarrow> (ContentExtensionMap \<times> Action list) option" where
  "actionsForBuckets ctx info [] m = Some (m, [])"
| "actionsForBuckets ctx info (i # rest) m =
     (case m_table m ! i of
        Live (_, contentExtension) \<Rightarrow> do {
          (contentExtension, actions) \<leftarrow> actionsForExtension ctx info contentExtension;
          m \<leftarrow> hm_assign i contentExtension m;
          (m, finalActions) \<leftarrow> actionsForBuckets ctx info rest m;
          Some (m, actions @ finalActions)
        }
      | _ \<Rightarrow> actionsForBuckets ctx info rest m)"

definition actionsForResourceLoad :: "LoadContext \<Rightarrow> ResourceLoadInfo \<Rightarrow> ContentExtensionMap \<Rightarrow> (ContentExtensionMap \<times> Action list) option" where
  "actionsForResourceLoad ctx info m_contentExtensions =
     (if protocolIsData ctx (resourceURL info) then Some (m_contentExtensions, [])
      else actionsForBuckets ctx info [0..<m_tableSize m_contentExtensions] m_contentExtensions)"

section \<open>The extensions\<close>

definition extensionMapTraits :: "(UChar list, 'v) HashMapTraits" where
  "extensionMapTraits = mapTraits stringHash"

definition removeContentExtension :: "String \<Rightarrow> ContentExtensionMap \<Rightarrow> ContentExtensionMap option" where
  "removeContentExtension identifier m = do { (m, _) \<leftarrow> hm_remove extensionMapTraits (string_chars identifier) m; Some m }"

definition addContentExtension ::
  "String \<Rightarrow> CompiledContentExtension option \<Rightarrow> ContentExtensionMap \<Rightarrow> ContentExtensionMap option" where
  "addContentExtension identifier compiledContentExtension m =
     (if string_length identifier = 0 then Some m
      else
        (case compiledContentExtension of
           None \<Rightarrow> removeContentExtension identifier m
         | Some ce \<Rightarrow> do {
             extension \<leftarrow> createContentExtension identifier ce;
             (m, _) \<leftarrow> hm_set extensionMapTraits (string_chars identifier) extension m;
             Some m
           }))"

definition removeAllContentExtensions :: "ContentExtensionMap \<Rightarrow> ContentExtensionMap" where
  "removeAllContentExtensions m = hm_clear m"

definition globalDisplayNoneStyleSheet :: "String \<Rightarrow> ContentExtensionMap \<Rightarrow> String option option" where
  "globalDisplayNoneStyleSheet identifier m = do {
     e \<leftarrow> hm_lookup extensionMapTraits m (string_chars identifier);
     Some (case e of None \<Rightarrow> None | Some e \<Rightarrow> m_globalDisplayNoneStyleSheet e)
   }"

section \<open>Processing a load\<close>

text \<open>What the frame of the loader tells.\<close>

record DocumentLoader =
  hasFrame :: bool
  hasDocument :: bool
  isLoadingMainResource :: bool
  isMainFrame :: bool
  mainFrameDocumentURL :: "string option"

record ResourceRequest =
  request_url :: string
  allowCookies :: bool

text \<open>The calls on the loader and on the current document.\<close>

datatype LoadEffect =
    AddPendingContentExtensionDisplayNoneSelector String String nat
  | AddDisplayNoneSelector String String nat
  | AddPendingContentExtensionSheet String String
  | MaybeAddContentExtensionSheet String String
  | AddConsoleMessage

definition mainDocumentURLFor :: "ResourceRequest \<Rightarrow> ResourceType \<Rightarrow> DocumentLoader \<Rightarrow> string" where
  "mainDocumentURLFor request resourceType loader =
     (if hasFrame loader then
        if isLoadingMainResource loader \<and> isMainFrame loader \<and> resourceType = Document then request_url request
        else (case mainFrameDocumentURL loader of None \<Rightarrow> [] | Some url \<Rightarrow> url)
      else [])"

fun processActions ::
  "ContentExtensionMap \<Rightarrow> ResourceType \<Rightarrow> bool \<Rightarrow> Action list \<Rightarrow> bool \<times> ResourceRequest \<times> LoadEffect list \<Rightarrow>
     (bool \<times> ResourceRequest \<times> LoadEffect list) option" where
  "processActions m resourceType currentDocument [] st = Some st"
| "processActions m resourceType currentDocument (action # rest) (willBlockLoad, request, effects) =
     (case m_type action of
        BlockLoad \<Rightarrow> processActions m resourceType currentDocument rest (True, request, effects)
      | BlockCookies \<Rightarrow> processActions m resourceType currentDocument rest (willBlockLoad, request\<lparr>allowCookies := False\<rparr>, effects)
      | CSSDisplayNoneSelector \<Rightarrow>
          processActions m resourceType currentDocument rest (willBlockLoad, request, effects @
            (if resourceType = Document then
               [AddPendingContentExtensionDisplayNoneSelector (m_extensionIdentifier action) (m_stringArgument action) (m_actionID action)]
             else if currentDocument then
               [AddDisplayNoneSelector (m_extensionIdentifier action) (m_stringArgument action) (m_actionID action)]
             else []))
      | CSSDisplayNoneStyleSheet \<Rightarrow> do {
          styleSheetContents \<leftarrow> globalDisplayNoneStyleSheet (m_stringArgument action) m;
          processActions m resourceType currentDocument rest (willBlockLoad, request, effects @
            (case styleSheetContents of
               None \<Rightarrow> []
             | Some sheet \<Rightarrow>
                 if resourceType = Document then [AddPendingContentExtensionSheet (m_stringArgument action) sheet]
                 else if currentDocument then [MaybeAddContentExtensionSheet (m_stringArgument action) sheet]
                 else []))
        }
      | IgnorePreviousRules \<Rightarrow> None
      | InvalidAction \<Rightarrow> None)"

definition emptyRequest :: ResourceRequest where
  "emptyRequest = \<lparr>request_url = [], allowCookies = True\<rparr>"

definition processContentExtensionRulesForLoad ::
  "LoadContext \<Rightarrow> ResourceRequest \<Rightarrow> ResourceType \<Rightarrow> DocumentLoader \<Rightarrow> ContentExtensionMap \<Rightarrow>
     (ContentExtensionMap \<times> ResourceRequest \<times> LoadEffect list) option" where
  "processContentExtensionRulesForLoad ctx request resourceType initiatingDocumentLoader m = do {
     let currentDocument = (hasFrame initiatingDocumentLoader \<and> hasDocument initiatingDocumentLoader);
     let info = \<lparr>resourceURL = request_url request,
       mainDocumentURL = mainDocumentURLFor request resourceType initiatingDocumentLoader, rli_type = resourceType\<rparr>;
     (m, actions) \<leftarrow> actionsForResourceLoad ctx info m;
     (willBlockLoad, request, effects) \<leftarrow> processActions m resourceType currentDocument actions (False, request, []);
     if willBlockLoad then Some (m, emptyRequest, effects @ (if currentDocument then [AddConsoleMessage] else []))
     else Some (m, request, effects)
   }"

section \<open>Adding actions\<close>

lemma addActions_ok:
  assumes "action_seq A" "length A < 2 ^ 32" "\<forall>L \<in> set ls. at_action A L"
  shows "addActions A identifier ls = Some (map (\<lambda>L. setExtensionIdentifier identifier (the (deserialize A L))) (takeWhile (\<lambda>L. \<not> ignore_at A L) ls),
    \<exists>L \<in> set ls. ignore_at A L)"
  using assms(3)
proof (induction ls)
  case (Cons L ls)
  obtain act :: Action where "deserialize A L = Some act" "deserializeType A L = Some (m_type act)"
    using at_action_read [OF assms(1) _ assms(2), of L] Cons.prems by auto
  with Cons show ?case by (auto simp: Let_def setExtensionIdentifier_def ignore_at_def)
qed simp

lemma takeWhile_descending:
  "sorted_wrt (\<ge>) ls \<Longrightarrow> x \<in> set (takeWhile P ls) \<longleftrightarrow> x \<in> set ls \<and> (\<forall>y \<in> set ls. \<not> P y \<longrightarrow> y < x)" for x :: nat
proof (induction ls)
  case (Cons y ls)
  show ?case
  proof (cases "P y")
    case True
    have "z < y" if "z \<in> set ls" "\<not> P z" for z using that True Cons.prems by (metis le_neq_implies_less list.set_intros(1) sorted_wrt.simps(2))
    with True Cons show ?thesis by auto
  next
    case False
    with Cons.prems show ?thesis by (auto simp: not_less)
  qed
qed simp

lemma rev_sort_descending: "sorted_wrt (\<ge>) (rev (sort (ls :: nat list)))"
  by (simp add: sorted_wrt_rev)

text \<open>The actions that are added are those after the last one that ignores the previous rules.\<close>

lemma addActions_locations:
  assumes "action_seq A" "length A < 2 ^ 32" "\<forall>L \<in> set ls. at_action A L"
  shows "\<exists>finals saw. addActions A identifier (rev (sort ls)) = Some (finals, saw) \<and> saw = (\<exists>L \<in> set ls. ignore_at A L) \<and>
    (\<forall>L. (\<exists>a \<in> set finals. m_actionID a = L \<and> m_type a \<noteq> CSSDisplayNoneStyleSheet) \<longleftrightarrow> L \<in> set ls \<and> (\<forall>K \<in> set ls. ignore_at A K \<longrightarrow> K < L)) \<and>
    (\<forall>a \<in> set finals. m_type a \<noteq> CSSDisplayNoneStyleSheet \<and> m_type a \<noteq> IgnorePreviousRules \<and> m_type a \<noteq> InvalidAction)"
proof -
  let ?f = "\<lambda>L. setExtensionIdentifier identifier (the (deserialize A L))"
  let ?t = "takeWhile (\<lambda>L. \<not> ignore_at A L) (rev (sort ls))"
  have r: "addActions A identifier (rev (sort ls)) = Some (map ?f ?t, \<exists>L \<in> set ls. ignore_at A L)"
    using addActions_ok [OF assms(1,2), of "rev (sort ls)"] assms(3) by simp
  have f: "m_actionID (?f L) = L \<and> m_type (?f L) \<noteq> CSSDisplayNoneStyleSheet \<and> m_type (?f L) \<noteq> InvalidAction \<and> (m_type (?f L) = IgnorePreviousRules \<longleftrightarrow> ignore_at A L)"
    if L: "L \<in> set ls" for L
  proof -
    have at: "at_action A L" using assms(3) L by blast
    obtain act :: Action where "deserialize A L = Some act" "deserializeType A L = Some (m_type act)" "m_actionID act = L"
      "m_type act = CSSDisplayNoneSelector \<or> plain (m_type act)"
      using at_action_read [OF assms(1) at assms(2)] by (elim exE conjE)
    with at show ?thesis by (auto simp: setExtensionIdentifier_def plain_def ignore_at_def)
  qed
  have t: "L \<in> set ?t \<longleftrightarrow> L \<in> set ls \<and> (\<forall>K \<in> set ls. ignore_at A K \<longrightarrow> K < L)" for L
    using takeWhile_descending [OF rev_sort_descending, of L "\<lambda>L. \<not> ignore_at A L" ls] by simp
  have 1: "(\<exists>a \<in> set (map ?f ?t). m_actionID a = L \<and> m_type a \<noteq> CSSDisplayNoneStyleSheet) \<longleftrightarrow> L \<in> set ls \<and> (\<forall>K \<in> set ls. ignore_at A K \<longrightarrow> K < L)" for L
    unfolding t [symmetric] using f t by (auto simp: image_iff)
  have "\<not> ignore_at A L \<and> L \<in> set ls" if "L \<in> set ?t" for L using that t by (auto dest: set_takeWhileD)
  then have 2: "\<forall>a \<in> set (map ?f ?t). m_type a \<noteq> CSSDisplayNoneStyleSheet \<and> m_type a \<noteq> IgnorePreviousRules \<and> m_type a \<noteq> InvalidAction"
    using f by (simp only: set_map ball_simps) blast
  show ?thesis by (intro exI [of _ "map ?f ?t"] exI [of _ "\<exists>L \<in> set ls. ignore_at A L"] conjI r allI 1 2 refl)
qed

section \<open>One extension\<close>

text \<open>The flags of the load and the domain select an action of a rule with domains.\<close>

definition triggered :: "uint16 \<Rightarrow> uint64 set \<Rightarrow> uint64 \<Rightarrow> bool" where
  "triggered flags domainActions a \<longleftrightarrow>
     (has_flags a \<longrightarrow> flagsMatch (ucast (drop_bit 32 a)) flags) \<and> ((a AND IfDomainFlag \<noteq> 0) = (a \<in> domainActions))"

definition matching :: "LoadContext \<Rightarrow> ResourceLoadInfo \<Rightarrow> DFA list \<Rightarrow> DFA list \<Rightarrow> DFA list \<Rightarrow> nat set" where
  "matching ctx info WO W D =
     (let url = urlCharacters (resourceURL info);
          flags = getResourceFlags (canAccess ctx) info
      in locationOf ` ({a \<in> accepted WO url. selected flags None a} \<union>
           {a \<in> accepted W url. triggered flags (domain_actions D (host ctx (mainDocumentURL info))) a}))"

definition url_ok :: "ResourceLoadInfo \<Rightarrow> bool" where
  "url_ok info \<longleftrightarrow> (\<forall>c \<in> set (urlCharacters (resourceURL info)). 1 \<le> c \<and> c < 128)"

definition load_ok :: "LoadContext \<Rightarrow> ResourceLoadInfo \<Rightarrow> bool" where
  "load_ok ctx info \<longleftrightarrow> host_ok (host ctx (mainDocumentURL info)) \<and> url_ok info"

text \<open>A load whose main document may have no host.\<close>

definition load_any :: "LoadContext \<Rightarrow> ResourceLoadInfo \<Rightarrow> bool" where
  "load_any ctx info \<longleftrightarrow> host_any (host ctx (mainDocumentURL info)) \<and> url_ok info"

lemma load_ok_any: "load_ok ctx info \<Longrightarrow> load_any ctx info"
  by (simp add: load_ok_def load_any_def host_any_def)

text \<open>An action is applied to a load: on its own, or by the style sheet of the extension, whose text has the
  selectors of all the locations it stands for.\<close>

definition applied :: "byte list \<Rightarrow> DFA list \<Rightarrow> ContentExtension \<Rightarrow> Action list \<Rightarrow> nat \<Rightarrow> bool" where
  "applied A WO e finals L \<longleftrightarrow> (\<exists>a \<in> set finals. m_actionID a = L \<and> m_type a \<noteq> CSSDisplayNoneStyleSheet) \<or>
     (\<exists>a \<in> set finals. m_type a = CSSDisplayNoneStyleSheet \<and> m_stringArgument a = m_identifier e) \<and>
     (\<exists>text. m_globalDisplayNoneStyleSheet e = Some text \<and> is_sheet A (sheet_locations A (universal_locations WO)) text) \<and>
     L \<in> sheet_locations A (universal_locations WO)"

text \<open>A load changes nothing of an extension but its cache.\<close>

definition only_cache :: "ContentExtension \<Rightarrow> ContentExtension \<Rightarrow> bool" where
  "only_cache e e' \<longleftrightarrow> (\<exists>c u d. e' = e\<lparr>m_cachedDomainActions := c, m_cachedUniversalDomainActions := u, m_cachedDomain := d\<rparr>)"

lemma only_cache_keeps:
  assumes "only_cache e e'"
  shows "m_identifier e' = m_identifier e" "m_compiledExtension e' = m_compiledExtension e"
    "m_globalDisplayNoneStyleSheet e' = m_globalDisplayNoneStyleSheet e"
    "m_universalActionsWithoutDomains e' = m_universalActionsWithoutDomains e"
    "m_universalActionsWithDomains e' = m_universalActionsWithDomains e"
  using assms by (auto simp: only_cache_def)

lemma only_cache_refl: "only_cache e e"
  unfolding only_cache_def
  by (intro exI [of _ "m_cachedDomainActions e"] exI [of _ "m_cachedUniversalDomainActions e"] exI [of _ "m_cachedDomain e"]) simp

lemma populate_keeps:
  assumes "compiled_from WO W D A ce" "extension_ok WO W D A ce e" "host_any domain"
  shows "\<exists>e'. populateDomainCacheIfNeeded domain e = Some e' \<and> extension_ok WO W D A ce e' \<and> (host_ok domain \<longrightarrow> cached_for D domain e') \<and>
    only_cache e e' \<and> string_content (m_cachedDomain e') = string_content domain"
proof -
  have h: "good_dfas D" "first_root D = {}" "compile_all D = Some (domainFiltersBytecode (m_compiledExtension e))" "cache_ok D e"
    using assms(1,2) by (auto simp: compiled_from_def extension_ok_def)
  obtain c u d where r: "populateDomainCacheIfNeeded domain e = Some (e\<lparr>m_cachedDomainActions := c, m_cachedUniversalDomainActions := u, m_cachedDomain := d\<rparr>)"
    "string_content d = string_content domain"
    "cache_ok D (e\<lparr>m_cachedDomainActions := c, m_cachedUniversalDomainActions := u, m_cachedDomain := d\<rparr>)"
    "host_ok domain \<longrightarrow> cached_for D domain (e\<lparr>m_cachedDomainActions := c, m_cachedUniversalDomainActions := u, m_cachedDomain := d\<rparr>)"
    using populate_ok [OF h assms(3)] by (elim exE conjE)
  let ?e = "e\<lparr>m_cachedDomainActions := c, m_cachedUniversalDomainActions := u, m_cachedDomain := d\<rparr>"
  have "extension_ok WO W D A ce ?e" using r(3) assms(2) by (simp add: extension_ok_def)
  moreover have "only_cache e ?e" unfolding only_cache_def by (intro exI) (rule refl)
  ultimately show ?thesis using r by (intro exI [of _ ?e]) simp
qed

lemma populate_again:
  assumes "string_content (m_cachedDomain e) = string_content domain"
  shows "populateDomainCacheIfNeeded domain e = Some e"
  using assms by (simp add: populateDomainCacheIfNeeded_def)

lemma in_sheet_before: "L \<in> sheet_locations A U \<Longrightarrow> L \<in> U \<and> \<not> ignore_at A L \<and> (\<forall>K. ignore_at A K \<longrightarrow> L < K)"
  by (auto simp: sheet_locations_def in_sheet_def ignore_at_def split: if_splits)

lemma applied_iff:
  assumes ls: "set ls \<subseteq> M" "M \<subseteq> set ls \<union> S" "S \<subseteq> M" and S: "S = sheet_locations A (universal_locations WO)"
    and A: "action_seq A" "length A < 2 ^ 32" "\<forall>L \<in> set ls. at_action A L"
    and sheet: "m_type sheet = CSSDisplayNoneStyleSheet" "m_stringArgument sheet = m_identifier e" "sheet_for A S (m_globalDisplayNoneStyleSheet e)"
  shows "\<exists>finals saw. addActions A identifier (rev (sort ls)) = Some (finals, saw) \<and>
    (\<forall>L. applied A WO e (finals @ (if saw then [] else [sheet])) L \<longleftrightarrow> L \<in> M \<and> (\<forall>K \<in> M. ignore_at A K \<longrightarrow> K < L))"
proof -
  obtain finals saw where r: "addActions A identifier (rev (sort ls)) = Some (finals, saw)" "saw = (\<exists>L \<in> set ls. ignore_at A L)"
    "\<forall>L. (\<exists>a \<in> set finals. m_actionID a = L \<and> m_type a \<noteq> CSSDisplayNoneStyleSheet) \<longleftrightarrow> L \<in> set ls \<and> (\<forall>K \<in> set ls. ignore_at A K \<longrightarrow> K < L)"
    "\<forall>a \<in> set finals. m_type a \<noteq> CSSDisplayNoneStyleSheet \<and> m_type a \<noteq> IgnorePreviousRules \<and> m_type a \<noteq> InvalidAction"
    using addActions_locations [OF A, of "identifier"] by (elim exE conjE)
  note before = in_sheet_before [of _ A "universal_locations WO", folded S]
  have ign: "ignore_at A K \<Longrightarrow> K \<in> M \<longleftrightarrow> K \<in> set ls" for K using ls before by blast
  have tx: "(\<exists>text. m_globalDisplayNoneStyleSheet e = Some text \<and> is_sheet A S text) \<and> L \<in> S \<longleftrightarrow> L \<in> S" for L
    using sheet(3) by (auto simp: sheet_for_def split: option.splits)
  have "applied A WO e (finals @ (if saw then [] else [sheet])) L \<longleftrightarrow> L \<in> set ls \<and> (\<forall>K \<in> set ls. ignore_at A K \<longrightarrow> K < L) \<or> L \<in> S \<and> \<not> saw" for L
    unfolding applied_def S [symmetric] tx using r(3,4) sheet(1,2) by (cases saw) auto
  moreover have "L \<in> set ls \<and> (\<forall>K \<in> set ls. ignore_at A K \<longrightarrow> K < L) \<or> L \<in> S \<and> \<not> saw \<longleftrightarrow> L \<in> M \<and> (\<forall>K \<in> M. ignore_at A K \<longrightarrow> K < L)" for L
  proof (cases "L \<in> S")
    case True
    then have "(\<forall>K \<in> M. ignore_at A K \<longrightarrow> K < L) \<longleftrightarrow> \<not> saw" using before [OF True] r(2) ign by (metis less_asym)
    with True ls r(2) ign show ?thesis by auto
  next
    case False
    then show ?thesis using ls ign by blast
  qed
  ultimately show ?thesis using r(1) by (intro exI [of _ finals] exI [of _ saw]) simp
qed

text \<open>The action that stands for the style sheet, and the locations that are collected for a load.\<close>

definition sheet_action :: "ContentExtension \<Rightarrow> Action" where
  "sheet_action e = setExtensionIdentifier (m_identifier e) (newStringAction CSSDisplayNoneStyleSheet (m_identifier e) invalidActionID)"

definition load_locations :: "Actions \<Rightarrow> Actions \<Rightarrow> ContentExtension \<Rightarrow> nat list" where
  "load_locations vo vw e = map locationOf (ht_values vo) @ map locationOf (ht_values vw) @ m_universalActionsWithoutDomains e @ m_cachedUniversalDomainActions e"

text \<open>The steps of a load, also for a null host: both interpretations end, and only the cache of the
  extension changes.\<close>

lemma actionsForExtension_run:
  assumes ce: "compiled_from WO W D A ce" and e: "extension_ok WO W D A ce e" and load: "load_any ctx info"
  defines "url \<equiv> urlCharacters (resourceURL info)" and "flags \<equiv> getResourceFlags (canAccess ctx) info" and "domain \<equiv> host ctx (mainDocumentURL info)"
  shows "\<exists>vo vw e1. extension_ok WO W D A ce e1 \<and> only_cache e e1 \<and> (host_ok domain \<longrightarrow> cached_for D domain e1) \<and>
    set (ht_values vo) \<union> {a \<in> first_root WO. \<not> has_flags a \<and> selected flags None a} = {a \<in> accepted WO url. selected flags None a} \<and>
    set (ht_values vw) \<union> {a \<in> first_root W. \<not> has_flags a \<and> selected flags (Some (m_cachedDomainActions e1)) a}
      = {a \<in> accepted W url. selected flags (Some (m_cachedDomainActions e1)) a} \<and>
    actionsForExtension ctx info e = do {
      (finals, saw) \<leftarrow> addActions A (m_identifier e1) (rev (sort (load_locations vo vw e1)));
      Some (e1, finals @ (if saw then [] else [sheet_action e1])) }"
proof -
  have u: "\<forall>c \<in> set url. 1 \<le> c \<and> c < 128" and h: "host_any domain" using load by (simp_all add: load_any_def url_ok_def url_def domain_def)
  have g: "good_dfas WO" "good_dfas W" "compile_all WO = Some (filtersWithoutDomainsBytecode ce)" "compile_all W = Some (filtersWithDomainsBytecode ce)"
    and c: "m_compiledExtension e = ce" "cce_actions ce = A" using ce e by (auto simp: compiled_from_def extension_ok_def)
  obtain vo where vo: "interpretBytecode (filtersWithoutDomainsBytecode ce) None url flags = Some vo"
    "set (ht_values vo) \<union> {a \<in> first_root WO. \<not> has_flags a \<and> selected flags None a} = {a \<in> accepted WO url. selected flags None a}"
    using good_run [OF g(1,3) _ u, of None flags] by (auto simp: dom_ok_def)
  obtain e1 where e1: "populateDomainCacheIfNeeded domain e = Some e1" "extension_ok WO W D A ce e1" "host_ok domain \<longrightarrow> cached_for D domain e1"
    "only_cache e e1" "string_content (m_cachedDomain e1) = string_content domain"
    using populate_keeps [OF ce e h] by (elim exE conjE)
  have d: "ht_wf actionSetTraits (m_cachedDomainActions e1)" using e1(2) by (simp add: extension_ok_def cache_ok_def)
  obtain vw where vw: "interpretBytecode (filtersWithDomainsBytecode ce) (Some (m_cachedDomainActions e1)) url flags = Some vw"
    "set (ht_values vw) \<union> {a \<in> first_root W. \<not> has_flags a \<and> selected flags (Some (m_cachedDomainActions e1)) a}
      = {a \<in> accepted W url. selected flags (Some (m_cachedDomainActions e1)) a}"
    using good_run [OF g(2,4) _ u, of "Some (m_cachedDomainActions e1)" flags] d by (auto simp: dom_ok_def)
  let ?ls = "load_locations vo vw e1"
  have "(if ht_values vo \<noteq> [] \<or> ht_values vw \<noteq> [] \<or> m_cachedUniversalDomainActions e1 \<noteq> [] \<or> m_universalActionsWithoutDomains e1 \<noteq> []
      then addActions A (m_identifier e1) (rev (sort ?ls)) else Some ([], False)) = addActions A (m_identifier e1) (rev (sort ?ls))"
    by (auto simp: load_locations_def)
  then have "actionsForExtension ctx info e = do {
      (finals, saw) \<leftarrow> addActions A (m_identifier e1) (rev (sort ?ls));
      Some (e1, finals @ (if saw then [] else [sheet_action e1])) }"
    using vo(1) vw(1) e1(1) c populate_again [OF e1(5)]
    by (simp add: actionsForExtension_def Let_def cachedDomainActions_def universalActionsWithDomains_def interpretWithDomains_def
        load_locations_def sheet_action_def url_def [symmetric] flags_def [symmetric] domain_def [symmetric] split del: if_split cong: if_cong)
  with vo(2) vw(2) e1(2-4) show ?thesis by (intro exI conjI)
qed

lemma load_locations_at:
  assumes e1: "extension_ok WO W D A ce e1"
    and at: "\<forall>a \<in> accepted WO url \<union> accepted W url. at_action A (locationOf a)"
    and vo: "set (ht_values vo) \<subseteq> accepted WO url" and vw: "set (ht_values vw) \<subseteq> accepted W url"
  shows "\<forall>L \<in> set (load_locations vo vw e1). at_action A L"
proof -
  have "set (m_universalActionsWithoutDomains e1) \<subseteq> locationOf ` first_root WO"
    "set (m_cachedUniversalDomainActions e1) \<subseteq> locationOf ` first_root W"
    using e1 by (auto simp: extension_ok_def cache_ok_def universal_locations_def)
  then have "set (load_locations vo vw e1) \<subseteq> locationOf ` (accepted WO url \<union> accepted W url)"
    using vo vw root_accepted [of WO url] root_accepted [of W url] unfolding load_locations_def set_append set_map by (intro Un_least) blast+
  with at show ?thesis by blast
qed

lemma actionsForExtension_returns:
  assumes ce: "compiled_from WO W D A ce" and A: "action_seq A" "length A < 2 ^ 32" and e: "extension_ok WO W D A ce e" and load: "load_any ctx info"
    and at: "\<forall>a \<in> accepted WO (urlCharacters (resourceURL info)) \<union> accepted W (urlCharacters (resourceURL info)). at_action A (locationOf a)"
  shows "\<exists>e' finals. actionsForExtension ctx info e = Some (e', finals) \<and> extension_ok WO W D A ce e' \<and> only_cache e e' \<and>
    (\<forall>a \<in> set finals. m_type a \<noteq> IgnorePreviousRules \<and> m_type a \<noteq> InvalidAction)"
proof -
  let ?url = "urlCharacters (resourceURL info)" and ?flags = "getResourceFlags (canAccess ctx) info"
  obtain vo vw e1 where run: "extension_ok WO W D A ce e1" "only_cache e e1"
    "set (ht_values vo) \<union> {a \<in> first_root WO. \<not> has_flags a \<and> selected ?flags None a} = {a \<in> accepted WO ?url. selected ?flags None a}"
    "set (ht_values vw) \<union> {a \<in> first_root W. \<not> has_flags a \<and> selected ?flags (Some (m_cachedDomainActions e1)) a}
      = {a \<in> accepted W ?url. selected ?flags (Some (m_cachedDomainActions e1)) a}"
    "actionsForExtension ctx info e = do {
      (finals, saw) \<leftarrow> addActions A (m_identifier e1) (rev (sort (load_locations vo vw e1)));
      Some (e1, finals @ (if saw then [] else [sheet_action e1])) }"
    using actionsForExtension_run [OF ce e load] by (elim exE conjE)
  have at': "\<forall>L \<in> set (load_locations vo vw e1). at_action A L" using run(3,4) by (intro load_locations_at [OF run(1) at]) blast+
  obtain finals saw where f: "addActions A (m_identifier e1) (rev (sort (load_locations vo vw e1))) = Some (finals, saw)"
    "\<forall>a \<in> set finals. m_type a \<noteq> CSSDisplayNoneStyleSheet \<and> m_type a \<noteq> IgnorePreviousRules \<and> m_type a \<noteq> InvalidAction"
    using addActions_locations [OF A at', of "m_identifier e1"] by (elim exE conjE)
  have "m_type (sheet_action e1) = CSSDisplayNoneStyleSheet" by (simp add: sheet_action_def setExtensionIdentifier_def newStringAction_def)
  with f run(1,2,5) show ?thesis
    by (intro exI [of _ e1] exI [of _ "finals @ (if saw then [] else [sheet_action e1])"]) auto
qed

lemma load_locations_matching:
  assumes e1: "extension_ok WO W D A ce e1" "cached_for D (host ctx (mainDocumentURL info)) e1"
  defines "url \<equiv> urlCharacters (resourceURL info)" and "flags \<equiv> getResourceFlags (canAccess ctx) info"
    and "S \<equiv> sheet_locations A (universal_locations WO)" and "M \<equiv> matching ctx info WO W D"
  assumes vo: "set (ht_values vo) \<union> {a \<in> first_root WO. \<not> has_flags a \<and> selected flags None a} = {a \<in> accepted WO url. selected flags None a}"
    and vw: "set (ht_values vw) \<union> {a \<in> first_root W. \<not> has_flags a \<and> selected flags (Some (m_cachedDomainActions e1)) a}
      = {a \<in> accepted W url. selected flags (Some (m_cachedDomainActions e1)) a}"
  shows "set (load_locations vo vw e1) \<subseteq> M" "M \<subseteq> set (load_locations vo vw e1) \<union> S" "S \<subseteq> M"
proof -
  let ?d = "m_cachedDomainActions e1" and ?dom = "host ctx (mainDocumentURL info)"
  let ?R = "locationOf ` {a \<in> first_root W. \<not> has_flags a \<and> domain_selects (Some ?d) a}"
  have d: "set (ht_values ?d) = domain_actions D ?dom"
    "m_cachedUniversalDomainActions e1 = map locationOf (filter (domain_selects (Some ?d)) (m_universalActionsWithDomains e1))"
    using e1(2) by (simp_all add: cached_for_def)
  have sel: "selected flags (Some ?d) a \<longleftrightarrow> triggered flags (domain_actions D ?dom) a" for a
    by (simp add: selected_def triggered_def domain_selects_def d(1))
  have s: "\<not> has_flags a \<Longrightarrow> selected flags None a" "\<not> has_flags a \<Longrightarrow> selected flags (Some ?d) a = domain_selects (Some ?d) a" for a
    by (simp_all add: selected_def domain_selects_def)
  have M: "M = locationOf ` set (ht_values vo) \<union> universal_locations WO \<union> locationOf ` set (ht_values vw) \<union> ?R"
    unfolding M_def matching_def Let_def url_def [symmetric] flags_def [symmetric] sel [symmetric] vo [symmetric] vw [symmetric]
      image_Un universal_locations_def
    using s by (auto 0 3)
  have ls: "set (load_locations vo vw e1) = locationOf ` set (ht_values vo) \<union> locationOf ` set (ht_values vw) \<union> (universal_locations WO - S) \<union> ?R"
    using e1(1) d(2) by (auto simp: load_locations_def extension_ok_def S_def)
  show "set (load_locations vo vw e1) \<subseteq> M" "M \<subseteq> set (load_locations vo vw e1) \<union> S" unfolding ls M by blast+
  show "S \<subseteq> M" using in_sheet_before [of _ A "universal_locations WO"] unfolding M S_def by blast
qed

lemma actionsForExtension_ok:
  assumes ce: "compiled_from WO W D A ce" and A: "action_seq A" "length A < 2 ^ 32" and e: "extension_ok WO W D A ce e" and load: "load_ok ctx info"
    and at: "\<forall>a \<in> accepted WO (urlCharacters (resourceURL info)) \<union> accepted W (urlCharacters (resourceURL info)). at_action A (locationOf a)"
  shows "\<exists>e' finals. actionsForExtension ctx info e = Some (e', finals) \<and> only_cache e e' \<and>
    (\<forall>L. applied A WO e' finals L \<longleftrightarrow> L \<in> matching ctx info WO W D \<and> (\<forall>K \<in> matching ctx info WO W D. ignore_at A K \<longrightarrow> K < L))"
proof -
  let ?url = "urlCharacters (resourceURL info)" and ?flags = "getResourceFlags (canAccess ctx) info" and ?M = "matching ctx info WO W D"
  obtain vo vw e1 where run: "extension_ok WO W D A ce e1" "only_cache e e1"
    "host_ok (host ctx (mainDocumentURL info)) \<longrightarrow> cached_for D (host ctx (mainDocumentURL info)) e1"
    "set (ht_values vo) \<union> {a \<in> first_root WO. \<not> has_flags a \<and> selected ?flags None a} = {a \<in> accepted WO ?url. selected ?flags None a}"
    "set (ht_values vw) \<union> {a \<in> first_root W. \<not> has_flags a \<and> selected ?flags (Some (m_cachedDomainActions e1)) a}
      = {a \<in> accepted W ?url. selected ?flags (Some (m_cachedDomainActions e1)) a}"
    "actionsForExtension ctx info e = do {
      (finals, saw) \<leftarrow> addActions A (m_identifier e1) (rev (sort (load_locations vo vw e1)));
      Some (e1, finals @ (if saw then [] else [sheet_action e1])) }"
    using actionsForExtension_run [OF ce e load_ok_any [OF load]] by (elim exE conjE)
  have cached: "cached_for D (host ctx (mainDocumentURL info)) e1" using run(3) load by (simp add: load_ok_def)
  have at': "\<forall>L \<in> set (load_locations vo vw e1). at_action A L" using run(4,5) by (intro load_locations_at [OF run(1) at]) blast+
  have sheet: "m_type (sheet_action e1) = CSSDisplayNoneStyleSheet" "m_stringArgument (sheet_action e1) = m_identifier e1"
    "sheet_for A (sheet_locations A (universal_locations WO)) (m_globalDisplayNoneStyleSheet e1)"
    using run(1) by (simp_all add: sheet_action_def setExtensionIdentifier_def newStringAction_def extension_ok_def)
  obtain finals saw where "addActions A (m_identifier e1) (rev (sort (load_locations vo vw e1))) = Some (finals, saw)"
    "\<forall>L. applied A WO e1 (finals @ (if saw then [] else [sheet_action e1])) L \<longleftrightarrow> L \<in> ?M \<and> (\<forall>K \<in> ?M. ignore_at A K \<longrightarrow> K < L)"
    using applied_iff [OF load_locations_matching [OF run(1) cached run(4,5)] refl A at' sheet, of "m_identifier e1"] by (elim exE conjE)
  with run(2,6) show ?thesis by (intro exI [of _ e1] exI [of _ "finals @ (if saw then [] else [sheet_action e1])"]) simp
qed

section \<open>The rules that apply to a load\<close>

lemma served_location:
  assumes "served rules A L r" "action_seq A" "length A < 2 ^ 32"
  shows "at_action A L \<and> (ignore_at A L \<longleftrightarrow> ignores r)"
proof -
  have at: "at_action A L" using assms(1) by (auto simp: served_def plain_at_def selector_at_def at_action_def split: if_splits)
  obtain act :: Action where "deserialize A L = Some act" "deserializeType A L = Some (m_type act)"
    using at_action_read [OF assms(2) at assms(3)] by (elim exE conjE)
  with assms(1) at show ?thesis
    by (auto simp: served_def plain_at_def selector_at_def ignore_at_def newAction_def newStringAction_def split: if_splits)
qed

text \<open>Earlier loads, which leave their domain in the cache.\<close>

fun earlier_loads :: "LoadContext \<Rightarrow> ResourceLoadInfo list \<Rightarrow> ContentExtension \<Rightarrow> ContentExtension option" where
  "earlier_loads ctx [] e = Some e"
| "earlier_loads ctx (info # infos) e = do { (e, _) \<leftarrow> actionsForExtension ctx info e; earlier_loads ctx infos e }"

definition within :: "DFA list \<Rightarrow> DFA list \<Rightarrow> nat set \<Rightarrow> ResourceLoadInfo \<Rightarrow> bool" where
  "within WO W locations info \<longleftrightarrow>
     locationOf ` (accepted WO (urlCharacters (resourceURL info)) \<union> accepted W (urlCharacters (resourceURL info))) \<subseteq> locations"

lemma earlier_loads_ok:
  assumes "compiled_from WO W D A ce" "action_seq A" "length A < 2 ^ 32" "\<forall>L \<in> S. at_action A L"
    "\<forall>info \<in> set infos. load_any ctx info \<and> within WO W S info" "extension_ok WO W D A ce e"
  shows "\<exists>e'. earlier_loads ctx infos e = Some e' \<and> extension_ok WO W D A ce e'"
  using assms(5,6)
proof (induction infos arbitrary: e)
  case (Cons info infos)
  have "\<forall>a \<in> accepted WO (urlCharacters (resourceURL info)) \<union> accepted W (urlCharacters (resourceURL info)). at_action A (locationOf a)"
    using Cons.prems(1) assms(4) by (auto simp: within_def)
  moreover have "load_any ctx info" using Cons.prems(1) by simp
  ultimately obtain e1 finals where "actionsForExtension ctx info e = Some (e1, finals)" "extension_ok WO W D A ce e1"
    using actionsForExtension_returns [OF assms(1-3) Cons.prems(2)] by blast
  with Cons.IH [of e1] Cons.prems(1) show ?case by simp
qed simp


text \<open>Two rules, the second of which cancels the first, and an automaton that has the action of the first
  after a and that of the second after ab.\<close>

definition order_rules :: "ContentExtensionRule list" where
  "order_rules = map (\<lambda>k. \<lparr>m_trigger = newTrigger\<lparr>urlFilter := Some [97], domains := [[98]], domainCondition := UnlessDomain\<rparr>,
     m_action = newAction k invalidActionID\<rparr>) [BlockLoad, IgnorePreviousRules]"

definition order_dfa :: DFA where
  "order_dfa = run_dfa\<lparr>dfa_nodes := (dfa_nodes run_dfa)[0 := (dfa_nodes run_dfa ! 0)\<lparr>m_actionsLength := 0\<rparr>], dfa_actions := [5, 0, 1]\<rparr>"

definition order_compiled :: CompiledContentExtension where
  "order_compiled = \<lparr>filtersWithoutDomainsBytecode = the (compile_all [order_dfa]), filtersWithDomainsBytecode = the (compile_all [order_dfa]),
     domainFiltersBytecode = [], cce_actions = [0, 4]\<rparr>"

lemma order_serialized: "serializeActions order_rules = Some ([0, 1], [0, 4])"
  by (simp add: serializeActions_def order_rules_def serializeRule_def beforeRule_def serializeWithDomain_def newSerializer_def
      resolvePendingDisplayNoneActions_def ht_wf_empty hm_cleared newAction_def Let_def)

lemma order_nodes:
  "dfa_transitions order_dfa (dfa_nodes order_dfa ! 0) = [(97, 97, 1)]" "dfa_transitions order_dfa (dfa_nodes order_dfa ! 1) = [(98, 98, 2)]"
  "dfa_transitions order_dfa (dfa_nodes order_dfa ! 2) = []" "length (dfa_nodes order_dfa) = 3"
  "dfa_nodeActions order_dfa (dfa_nodes order_dfa ! 0) = []" "dfa_nodeActions order_dfa (dfa_nodes order_dfa ! 1) = [0]"
  "dfa_nodeActions order_dfa (dfa_nodes order_dfa ! 2) = [1]" "dfa_root order_dfa = 0"
  by (simp_all add: order_dfa_def run_dfa_def dfa_transitions_def dfa_nodeActions_def)

lemma order_good: "good_dfas [order_dfa]"
proof -
  have "dfa_wf order_dfa" by (simp add: dfa_wf_def node_wf_dfa_def dfa_transitions_def order_dfa_def run_dfa_def)
  then have "interpretable order_dfa" unfolding interpretable_def order_nodes(4) less_3
    by (simp add: order_nodes [unfolded One_nat_def] dfa_step_def canUseFallbackTransition_def)
  moreover have "end_distinct order_dfa" unfolding end_distinct_def order_nodes(4) less_3
    by (simp add: order_nodes [unfolded One_nat_def] dfa_step_def canUseFallbackTransition_def)
  ultimately show ?thesis by (simp add: good_dfas_def order_nodes) (simp add: size_bound_def order_dfa_def run_dfa_def)
qed

lemma order_compiled_ok: "compiled_from [order_dfa] [order_dfa] [] [0, 4] order_compiled"
proof -
  have "\<forall>dfa \<in> set [order_dfa]. dfa_wf dfa \<and> length (dfa_nodes dfa) < 2 ^ 32 - 1" "sum_list (map size_bound [order_dfa]) < 2 ^ 30"
    using order_good by (auto simp: good_dfas_def interpretable_def)
  then obtain bytes where "compile_all [order_dfa] = Some bytes" using compile_all_segments [of "[order_dfa]" 0] total_size_bound [of "[order_dfa]"] by auto
  then show ?thesis using order_good
    by (simp add: compiled_from_def order_compiled_def first_root_def root_actions_def order_nodes [unfolded One_nat_def] del: compile_all.simps)
      (simp add: good_dfas_def)
qed

lemma order_accepted: "accepted [order_dfa] [97, 98] = {0, 1}"
proof -
  have "BytecodeRuns.reached order_dfa 0 [97, 98, 0] = {1, 2}"
    by (simp add: reached_Cons reached_Nil dfa_step_def order_nodes [unfolded One_nat_def] numeral_2_eq_2 [symmetric])
  then show ?thesis
    by (auto simp: accepted_def prefix_actions_reached root_actions_def entry_actions_def order_nodes [unfolded One_nat_def])
qed

definition order_context :: LoadContext where
  "order_context = \<lparr>canAccess = (\<lambda>_ _. True), protocolIsData = (\<lambda>_. False), host = (\<lambda>url. if url = [] then NullString else String8 [98])\<rparr>"

definition order_load :: ResourceLoadInfo where
  "order_load = \<lparr>resourceURL = ''ab'', mainDocumentURL = ''b'', rli_type = Image\<rparr>"

lemma order_matching: "{0, 1} \<subseteq> matching order_context order_load [order_dfa] [order_dfa] []"
  by (auto simp: matching_def Let_def urlCharacters_def order_load_def order_accepted locationOf_def selected_def has_flags_def domain_selects_def
      image_iff ActionFlagMask_def intro: bexI [of _ 0] bexI [of _ 1])

text \<open>An earlier load of a document without a host.\<close>

definition order_earlier :: ResourceLoadInfo where
  "order_earlier = order_load\<lparr>mainDocumentURL := []\<rparr>"


section \<open>The extensions of the backend\<close>

definition compiled_good :: "CompiledContentExtension \<Rightarrow> bool" where
  "compiled_good ce \<longleftrightarrow> (\<exists>WO W D A. compiled_from WO W D A ce \<and> action_seq A \<and> length A < 2 ^ 32 - 64 \<and>
     (\<forall>url. \<forall>a \<in> accepted WO url \<union> accepted W url. at_action A (locationOf a)))"

definition extension_good :: "ContentExtension \<Rightarrow> bool" where
  "extension_good e \<longleftrightarrow> (\<exists>WO W D A. compiled_from WO W D A (m_compiledExtension e) \<and> action_seq A \<and> length A < 2 ^ 32 - 64 \<and>
     (\<forall>url. \<forall>a \<in> accepted WO url \<union> accepted W url. at_action A (locationOf a)) \<and> extension_ok WO W D A (m_compiledExtension e) e)"

definition backend_ok :: "ContentExtensionMap \<Rightarrow> bool" where
  "backend_ok m \<longleftrightarrow> ht_wf extensionMapTraits m \<and> (\<forall>k e. hm_map extensionMapTraits m k = Some e \<longrightarrow> extension_good e \<and> string_chars (m_identifier e) = k)"

lemma extensionMapTraits_ok: "map_traits extensionMapTraits"
  by (simp add: extensionMapTraits_def map_traits_mapTraits)

interpretation extension_maps: hash_map "ht_wf extensionMapTraits" "hm_lookup extensionMapTraits" "hm_map extensionMapTraits" ht_empty
    "hm_set extensionMapTraits" hm_clear
  by (rule hash_map_laws [OF extensionMapTraits_ok])

lemma create_good:
  assumes "compiled_good ce"
  shows "\<exists>e. createContentExtension identifier ce = Some e \<and> extension_good e \<and> m_identifier e = identifier"
proof -
  obtain WO W D A where c: "compiled_from WO W D A ce" "action_seq A" "length A < 2 ^ 32 - 64"
    "\<forall>url. \<forall>a \<in> accepted WO url \<union> accepted W url. at_action A (locationOf a)" using assms unfolding compiled_good_def by (elim exE conjE)
  obtain e where e: "createContentExtension identifier ce = Some e" "extension_ok WO W D A ce e" "m_identifier e = identifier"
    using create_ok [OF c(1-3)] by blast
  moreover have "m_compiledExtension e = ce" using e(2) by (simp add: extension_ok_def)
  ultimately show ?thesis using c unfolding extension_good_def by blast
qed

lemma load_good:
  assumes "extension_good e" "load_any ctx info"
  shows "\<exists>e' finals. actionsForExtension ctx info e = Some (e', finals) \<and> extension_good e' \<and> only_cache e e' \<and>
    (\<forall>a \<in> set finals. m_type a \<noteq> IgnorePreviousRules \<and> m_type a \<noteq> InvalidAction)"
proof -
  obtain WO W D A where c: "compiled_from WO W D A (m_compiledExtension e)" "action_seq A" "length A < 2 ^ 32 - 64"
    "\<forall>url. \<forall>a \<in> accepted WO url \<union> accepted W url. at_action A (locationOf a)" "extension_ok WO W D A (m_compiledExtension e) e"
    using assms(1) unfolding extension_good_def by (elim exE conjE)
  have len: "length A < 2 ^ 32" using c(3) by simp
  obtain e' finals where e': "actionsForExtension ctx info e = Some (e', finals)" "extension_ok WO W D A (m_compiledExtension e) e'"
    "only_cache e e'" "\<forall>a \<in> set finals. m_type a \<noteq> IgnorePreviousRules \<and> m_type a \<noteq> InvalidAction"
    using actionsForExtension_returns [OF c(1,2) len c(5) assms(2) c(4) [THEN spec]] by (elim exE conjE)
  moreover have "extension_good e'" unfolding extension_good_def only_cache_keeps(2) [OF e'(3)]
    using c(1-4) e'(2) by (intro exI [of _ WO] exI [of _ W] exI [of _ D] exI [of _ A]) simp
  ultimately show ?thesis by blast
qed

text \<open>Two maps have the same identifiers, and their extensions differ in their caches only.\<close>

definition same_extensions :: "ContentExtensionMap \<Rightarrow> ContentExtensionMap \<Rightarrow> bool" where
  "same_extensions m m' \<longleftrightarrow> (\<forall>k. rel_option only_cache (hm_map extensionMapTraits m k) (hm_map extensionMapTraits m' k))"

lemma only_cache_trans: "only_cache e e' \<Longrightarrow> only_cache e' e'' \<Longrightarrow> only_cache e e''"
  unfolding only_cache_def by (elim exE, simp, intro exI, rule refl)

lemma same_extensions_refl: "same_extensions m m"
  unfolding same_extensions_def using only_cache_refl by (auto intro: option.rel_refl)

lemma same_extensions_update:
  assumes "hm_map extensionMapTraits m k = Some e" "only_cache e e'" "hm_map extensionMapTraits m1 = (hm_map extensionMapTraits m)(k \<mapsto> e')"
    "same_extensions m1 m'"
  shows "same_extensions m m'"
  unfolding same_extensions_def
proof
  fix i
  have "rel_option only_cache (hm_map extensionMapTraits m i) (hm_map extensionMapTraits m1 i)"
    using assms(1-3) by (auto simp: only_cache_refl intro: option.rel_refl)
  moreover have "rel_option only_cache (hm_map extensionMapTraits m1 i) (hm_map extensionMapTraits m' i)"
    using assms(4) by (simp add: same_extensions_def)
  ultimately show "rel_option only_cache (hm_map extensionMapTraits m i) (hm_map extensionMapTraits m' i)"
    by (auto simp: option_rel_Some1 option_rel_Some2 rel_option_iff intro: only_cache_trans split: option.splits)
qed

lemma actionsForBuckets_ok:
  assumes "backend_ok m" "load_any ctx info" "\<forall>i \<in> set is. i < m_tableSize m"
  shows "\<exists>m' finals. actionsForBuckets ctx info is m = Some (m', finals) \<and> backend_ok m' \<and>
    same_extensions m m' \<and>
    (\<forall>a \<in> set finals. m_type a \<noteq> IgnorePreviousRules \<and> m_type a \<noteq> InvalidAction)"
  using assms(1,3)
proof (induction "is" arbitrary: m)
  case (Cons i "is")
  have wf: "ht_wf extensionMapTraits m" using Cons.prems(1) by (simp add: backend_ok_def)
  show ?case
  proof (cases "m_table m ! i")
    case (Live kv)
    obtain k e where kv: "kv = (k, e)" by (cases kv)
    have l: "live_at m i (k, e)" using Live kv Cons.prems(2) by (simp add: live_at_def)
    then have "(k, e) \<in> set (ht_values m)" unfolding live_at_def ht_values_def by (force simp: in_set_conv_nth intro: bexI [of _ "Live (k, e)"])
    then have k: "hm_map extensionMapTraits m k = Some e" by (simp add: hm_map_values [OF extensionMapTraits_ok wf])
    then have e: "extension_good e" "string_chars (m_identifier e) = k" using Cons.prems(1) by (auto simp: backend_ok_def)
    obtain e' finals where e': "actionsForExtension ctx info e = Some (e', finals)" "extension_good e'" "only_cache e e'"
      "\<forall>a \<in> set finals. m_type a \<noteq> IgnorePreviousRules \<and> m_type a \<noteq> InvalidAction" using load_good [OF e(1) assms(2)] by (elim exE conjE)
    obtain m1 where m1: "hm_assign i e' m = Some m1" "ht_wf extensionMapTraits m1" "hm_map extensionMapTraits m1 = (hm_map extensionMapTraits m)(k \<mapsto> e')"
      using hm_assign_ok [OF extensionMapTraits_ok wf l, of e'] by blast
    have "m_tableSize m1 = m_tableSize m" using m1(1) Live kv by (auto simp: hm_assign_def)
    moreover have "backend_ok m1" using Cons.prems(1) m1(2,3) e e' only_cache_keeps(1) [OF e'(3)] by (auto simp: backend_ok_def)
    ultimately obtain m' rest where "actionsForBuckets ctx info is m1 = Some (m', rest)" "backend_ok m'"
      "same_extensions m1 m'" "\<forall>a \<in> set rest. m_type a \<noteq> IgnorePreviousRules \<and> m_type a \<noteq> InvalidAction"
      using Cons.IH [of m1] Cons.prems(2) by auto
    then show ?thesis using Live kv e'(1,4) m1(1) same_extensions_update [OF k e'(3) m1(3)] by auto
  qed (use Cons in auto)
qed (simp add: same_extensions_refl)

lemma actionsForResourceLoad_ok:
  assumes "backend_ok m" "load_any ctx info"
  shows "\<exists>m' finals. actionsForResourceLoad ctx info m = Some (m', finals) \<and> backend_ok m' \<and>
    same_extensions m m' \<and>
    (\<forall>a \<in> set finals. m_type a \<noteq> IgnorePreviousRules \<and> m_type a \<noteq> InvalidAction)"
  using actionsForBuckets_ok [OF assms, of "[0..<m_tableSize m]"] assms(1) same_extensions_refl by (auto simp: actionsForResourceLoad_def)

lemma addContentExtension_ok:
  assumes m: "backend_ok m" and ident: "string_length identifier \<noteq> 0" and ce: "compiled_good ce"
  shows "\<exists>m' e. addContentExtension identifier (Some ce) m = Some m' \<and> backend_ok m' \<and> createContentExtension identifier ce = Some e \<and>
      hm_map extensionMapTraits m' = (hm_map extensionMapTraits m)(string_chars identifier \<mapsto> e)"
proof -
  have wf: "ht_wf extensionMapTraits m" using m by (simp add: backend_ok_def)
  obtain e where e: "createContentExtension identifier ce = Some e" "extension_good e" "m_identifier e = identifier" using create_good [OF ce] by blast
  obtain m' i where m': "hm_set extensionMapTraits (string_chars identifier) e m = Some (m', i, hm_map extensionMapTraits m (string_chars identifier) = None)"
    "ht_wf extensionMapTraits m'" "hm_map extensionMapTraits m' = (hm_map extensionMapTraits m)(string_chars identifier \<mapsto> e)"
    using hm_set_ok [OF extensionMapTraits_ok wf] by blast
  with e m ident show ?thesis by (auto simp: addContentExtension_def backend_ok_def)
qed

lemma removeContentExtension_ok:
  assumes m: "backend_ok m"
  shows "\<exists>m'. removeContentExtension identifier m = Some m' \<and> backend_ok m' \<and>
      hm_map extensionMapTraits m' = (hm_map extensionMapTraits m)(string_chars identifier := None)"
proof -
  have wf: "ht_wf extensionMapTraits m" using m by (simp add: backend_ok_def)
  from hm_remove_ok [OF extensionMapTraits_ok wf, of "string_chars identifier"] m show ?thesis
    by (auto simp: removeContentExtension_def backend_ok_def)
qed

text \<open>C18: the operations on the extensions keep the backend well formed, and every operation
  returns. An extension with good bytecode is created and stored under its identifier, where it replaces the one
  there, and the others stay; without bytecode the one there is removed; removing all leaves none; a load
  keeps the identifiers and changes only the caches of the extensions, also for a document
  without a host.\<close>

theorem backend_operations:
  assumes m: "backend_ok m" and ident: "string_length identifier \<noteq> 0" and ce: "compiled_good ce" and load: "load_any ctx info"
  shows "(\<exists>m' e. addContentExtension identifier (Some ce) m = Some m' \<and> backend_ok m' \<and> createContentExtension identifier ce = Some e \<and>
      hm_map extensionMapTraits m' = (hm_map extensionMapTraits m)(string_chars identifier \<mapsto> e)) \<and>
    (\<exists>m'. addContentExtension identifier None m = Some m' \<and> backend_ok m' \<and>
      hm_map extensionMapTraits m' = (hm_map extensionMapTraits m)(string_chars identifier := None)) \<and>
    backend_ok (removeAllContentExtensions m) \<and> hm_map extensionMapTraits (removeAllContentExtensions m) = Map.empty \<and>
    (\<exists>m' finals. actionsForResourceLoad ctx info m = Some (m', finals) \<and> backend_ok m' \<and> same_extensions m m')"
proof -
  have wf: "ht_wf extensionMapTraits m" using m by (simp add: backend_ok_def)
  have all: "backend_ok (removeAllContentExtensions m)" "hm_map extensionMapTraits (removeAllContentExtensions m) = Map.empty"
    using extension_maps.discard [OF wf] by (simp_all add: backend_ok_def removeAllContentExtensions_def)
  have none: "addContentExtension identifier None m = removeContentExtension identifier m"
    using ident by (simp add: addContentExtension_def)
  obtain m' finals where "actionsForResourceLoad ctx info m = Some (m', finals)" "backend_ok m'" "same_extensions m m'"
    using actionsForResourceLoad_ok [OF m load] by (elim exE conjE)
  then have "\<exists>m' finals. actionsForResourceLoad ctx info m = Some (m', finals) \<and> backend_ok m' \<and> same_extensions m m'" by (intro exI conjI)
  then show ?thesis unfolding none by (intro conjI addContentExtension_ok [OF m ident ce] removeContentExtension_ok [OF m] all)
qed

lemma order_reached: "j < 3 \<Longrightarrow> t \<in> BytecodeRuns.reached order_dfa j w \<Longrightarrow> t < 3"
proof (induction w arbitrary: j)
  case (Cons c w)
  have "s < 3" if "dfa_step order_dfa j c = Some s" for s
  proof -
    consider "j = 0" | "j = 1" | "j = 2" using Cons.prems(1) by linarith
    then show ?thesis using that by cases (auto simp: dfa_step_def order_nodes [unfolded One_nat_def] split: if_splits)
  qed
  with Cons show ?case by (auto simp: reached_Cons split: option.splits)
qed (simp add: reached_Nil)

lemma order_compiled_good: "compiled_good order_compiled"
proof -
  have "entry_actions order_dfa t \<subseteq> {0, 1}" if t: "t < 3" for t
  proof -
    consider "t = 0" | "t = 1" | "t = 2" using t by linarith
    then show ?thesis by cases (simp_all add: entry_actions_def order_nodes [unfolded One_nat_def])
  qed
  then have acc: "a = 0 \<or> a = 1" if "a \<in> accepted [order_dfa] url" for a url
    using that order_reached [of 0 _ "url @ [0]"]
    by (auto simp: accepted_def prefix_actions_reached root_actions_def order_nodes [unfolded One_nat_def] subset_iff)
  have "action_seq ([] @ [actionType_value BlockLoad])" by (rule action_seq_plain [OF none]) (simp add: plain_def)
  moreover from this have "action_seq (([] @ [actionType_value BlockLoad]) @ [actionType_value IgnorePreviousRules])"
    by (rule action_seq_plain) (simp add: plain_def)
  ultimately have "action_seq [0, 4]" "\<forall>url. \<forall>a \<in> accepted [order_dfa] url \<union> accepted [order_dfa] url. at_action [0, 4] (locationOf a)"
    by (auto simp: at_action_def locationOf_def none dest!: acc)
  with order_compiled_ok show ?thesis unfolding compiled_good_def by (intro exI conjI) (assumption, assumption, simp, assumption)
qed

theorem backend_operations_witness:
  "\<exists>m e. addContentExtension (String8 [101]) (Some order_compiled) ht_empty = Some m \<and>
     createContentExtension (String8 [101]) order_compiled = Some e \<and> hm_map extensionMapTraits m = [[101] \<mapsto> e]"
proof -
  have "backend_ok ht_empty" by (simp add: backend_ok_def hm_empty)
  moreover have "load_any order_context order_earlier"
    by (simp add: load_any_def url_ok_def order_context_def order_load_def order_earlier_def host_any_def urlCharacters_def)
  ultimately show ?thesis
    using backend_operations [of ht_empty "String8 [101]" order_compiled order_context order_earlier] order_compiled_good
    by (auto simp: string_length_def hm_empty)
qed

section \<open>The effect of a load\<close>

lemma processActions_ok:
  assumes "ht_wf extensionMapTraits m" "\<forall>a \<in> set actions. m_type a \<noteq> IgnorePreviousRules \<and> m_type a \<noteq> InvalidAction"
  shows "\<exists>effects. processActions m resourceType currentDocument actions (b, request, eff) =
    Some (b \<or> (\<exists>a \<in> set actions. m_type a = BlockLoad),
      request\<lparr>allowCookies := (allowCookies request \<and> \<not> (\<exists>a \<in> set actions. m_type a = BlockCookies))\<rparr>, eff @ effects) \<and>
    (resourceType = Document \<longrightarrow> (\<forall>a \<in> set actions. m_type a = CSSDisplayNoneSelector \<longrightarrow>
       AddPendingContentExtensionDisplayNoneSelector (m_extensionIdentifier a) (m_stringArgument a) (m_actionID a) \<in> set effects))"
  using assms(2)
proof (induction actions arbitrary: b request eff)
  case (Cons a actions)
  have sheet: "globalDisplayNoneStyleSheet i m \<noteq> None" for i
    using hm_lookup_ok [OF extensionMapTraits_ok assms(1)] by (simp add: globalDisplayNoneStyleSheet_def)
  have IH: "\<exists>effects. processActions m resourceType currentDocument actions (b, request, eff) =
    Some (b \<or> (\<exists>a \<in> set actions. m_type a = BlockLoad),
      request\<lparr>allowCookies := (allowCookies request \<and> \<not> (\<exists>a \<in> set actions. m_type a = BlockCookies))\<rparr>, eff @ effects) \<and>
    (resourceType = Document \<longrightarrow> (\<forall>a \<in> set actions. m_type a = CSSDisplayNoneSelector \<longrightarrow>
       AddPendingContentExtensionDisplayNoneSelector (m_extensionIdentifier a) (m_stringArgument a) (m_actionID a) \<in> set effects))" for b request eff
    using Cons by simp
  show ?case
  proof (cases "m_type a")
    case BlockLoad
    then show ?thesis using IH [of True request eff] by auto
  next
    case BlockCookies
    then show ?thesis using IH [of b "request\<lparr>allowCookies := False\<rparr>" eff] by auto
  next
    case CSSDisplayNoneSelector
    let ?x = "if resourceType = Document then
               [AddPendingContentExtensionDisplayNoneSelector (m_extensionIdentifier a) (m_stringArgument a) (m_actionID a)]
             else if currentDocument then
               [AddDisplayNoneSelector (m_extensionIdentifier a) (m_stringArgument a) (m_actionID a)]
             else []"
    obtain effects where "processActions m resourceType currentDocument actions (b, request, eff @ ?x) =
        Some (b \<or> (\<exists>a \<in> set actions. m_type a = BlockLoad),
          request\<lparr>allowCookies := (allowCookies request \<and> \<not> (\<exists>a \<in> set actions. m_type a = BlockCookies))\<rparr>, (eff @ ?x) @ effects)"
      "resourceType = Document \<longrightarrow> (\<forall>a \<in> set actions. m_type a = CSSDisplayNoneSelector \<longrightarrow>
       AddPendingContentExtensionDisplayNoneSelector (m_extensionIdentifier a) (m_stringArgument a) (m_actionID a) \<in> set effects)"
      using IH [of b request "eff @ ?x"] by blast
    then show ?thesis using CSSDisplayNoneSelector by (intro exI [of _ "?x @ effects"]) simp
  next
    case CSSDisplayNoneStyleSheet
    obtain sh where sh: "globalDisplayNoneStyleSheet (m_stringArgument a) m = Some sh" using sheet by blast
    let ?x = "case sh of None \<Rightarrow> []
             | Some sheet \<Rightarrow>
                 if resourceType = Document then [AddPendingContentExtensionSheet (m_stringArgument a) sheet]
                 else if currentDocument then [MaybeAddContentExtensionSheet (m_stringArgument a) sheet]
                 else []"
    obtain effects where "processActions m resourceType currentDocument actions (b, request, eff @ ?x) =
        Some (b \<or> (\<exists>a \<in> set actions. m_type a = BlockLoad),
          request\<lparr>allowCookies := (allowCookies request \<and> \<not> (\<exists>a \<in> set actions. m_type a = BlockCookies))\<rparr>, (eff @ ?x) @ effects)"
      "resourceType = Document \<longrightarrow> (\<forall>a \<in> set actions. m_type a = CSSDisplayNoneSelector \<longrightarrow>
       AddPendingContentExtensionDisplayNoneSelector (m_extensionIdentifier a) (m_stringArgument a) (m_actionID a) \<in> set effects)"
      using IH [of b request "eff @ ?x"] by blast
    then show ?thesis using CSSDisplayNoneStyleSheet sh by (intro exI [of _ "?x @ effects"]) simp
  qed (use Cons.prems in auto)
qed simp

text \<open>C19: \<^verbatim>\<open>processContentExtensionRulesForLoad\<close> returns and does what the actions of the load say.
  The request becomes empty if and only if one of them blocks the load, else only cookies are
  disallowed if one of them says so; for a document every selector is handed to the loader.\<close>

theorem process_load:
  assumes m: "backend_ok m" and info: "info = \<lparr>resourceURL = request_url request, mainDocumentURL = mainDocumentURLFor request resourceType loader, rli_type = resourceType\<rparr>"
    and load: "load_ok ctx info"
  shows "\<exists>m' actions request' effects. actionsForResourceLoad ctx info m = Some (m', actions) \<and>
    processContentExtensionRulesForLoad ctx request resourceType loader m = Some (m', request', effects) \<and> backend_ok m' \<and>
    request' = (if \<exists>a \<in> set actions. m_type a = BlockLoad then emptyRequest
      else request\<lparr>allowCookies := (allowCookies request \<and> \<not> (\<exists>a \<in> set actions. m_type a = BlockCookies))\<rparr>) \<and>
    (resourceType = Document \<longrightarrow> (\<forall>a \<in> set actions. m_type a = CSSDisplayNoneSelector \<longrightarrow>
       AddPendingContentExtensionDisplayNoneSelector (m_extensionIdentifier a) (m_stringArgument a) (m_actionID a) \<in> set effects))"
proof -
  obtain m' actions where a: "actionsForResourceLoad ctx info m = Some (m', actions)" "backend_ok m'"
    "\<forall>a \<in> set actions. m_type a \<noteq> IgnorePreviousRules \<and> m_type a \<noteq> InvalidAction" using actionsForResourceLoad_ok [OF m load_ok_any [OF load]] by (elim exE conjE)
  let ?doc = "hasFrame loader \<and> hasDocument loader"
  have "ht_wf extensionMapTraits m'" using a(2) by (simp add: backend_ok_def)
  from processActions_ok [OF this a(3), of resourceType ?doc False request "[]"] obtain effects where
    e: "processActions m' resourceType ?doc actions (False, request, []) = Some ((\<exists>a \<in> set actions. m_type a = BlockLoad),
      request\<lparr>allowCookies := (allowCookies request \<and> \<not> (\<exists>a \<in> set actions. m_type a = BlockCookies))\<rparr>, effects)"
    "resourceType = Document \<longrightarrow> (\<forall>a \<in> set actions. m_type a = CSSDisplayNoneSelector \<longrightarrow>
       AddPendingContentExtensionDisplayNoneSelector (m_extensionIdentifier a) (m_stringArgument a) (m_actionID a) \<in> set effects)"
    by auto
  show ?thesis using a(1,2) e info
    by (cases "\<exists>a \<in> set actions. m_type a = BlockLoad") (simp_all add: processContentExtensionRulesForLoad_def Let_def)
qed

definition order_loader :: DocumentLoader where
  "order_loader = \<lparr>hasFrame = True, hasDocument = True, isLoadingMainResource = False, isMainFrame = True, mainFrameDocumentURL = Some ''b''\<rparr>"

theorem process_load_witness:
  "\<exists>m m' request' effects. addContentExtension (String8 [101]) (Some order_compiled) ht_empty = Some m \<and>
    processContentExtensionRulesForLoad order_context \<lparr>request_url = ''ab'', allowCookies = True\<rparr> Image order_loader m = Some (m', request', effects) \<and> backend_ok m'"
proof -
  have "backend_ok ht_empty" by (simp add: backend_ok_def hm_empty)
  from addContentExtension_ok [OF this _ order_compiled_good, of "String8 [101]"] obtain m where
    m: "addContentExtension (String8 [101]) (Some order_compiled) ht_empty = Some m" "backend_ok m" by (auto simp: string_length_def)
  have "load_ok order_context \<lparr>resourceURL = ''ab'', mainDocumentURL = ''b'', rli_type = Image\<rparr>"
    by (simp add: load_ok_def url_ok_def order_context_def host_ok_def urlCharacters_def)
  with process_load [OF m(2) refl, of order_context "\<lparr>request_url = ''ab'', allowCookies = True\<rparr>" Image order_loader] m(1)
  show ?thesis by (auto simp: mainDocumentURLFor_def order_loader_def)
qed

end
